(* ===== verification/Prelude.thy ===== *)
theory Prelude
  imports Main "HOL-Library.Word" "HOL-Library.Sublist"
begin

text \<open>
  Shared vocabulary of the development: how a C or C++ statement can fail to return
  normally, the result type every fallible operation has, the C strings and the decimal
  conversions of the C library that the programs use, and list segments of a linked heap.
\<close>

named_theorems result_simps \<open>equations that run the result type\<close>
named_theorems cstring_simps \<open>equations on the C string functions\<close>

section \<open>Stopping: undefined behaviour and exit\<close>

text \<open>
  A C function returns, or reaches undefined behaviour (a bad pointer, a read of an
  uninitialised buffer, a write past a buffer, a division by zero, an array of no elements),
  or ends the process with \<open>exit\<close>.
  Each way not to return is a value, so that every theorem about a returning call also
  says that none of them happened.
\<close>

datatype ub = Null_deref | Bad_deref | Uninit_read | Buffer_overflow | Int_overflow | Div_by_zero | Bad_bound

datatype stop = UB ub | Exit int string

type_synonym 'a res = "stop + 'a"

fun rbind :: "'e + 'a \<Rightarrow> ('a \<Rightarrow> 'e + 'b) \<Rightarrow> 'e + 'b" where
  "rbind (Inl e) f = Inl e"
| "rbind (Inr x) f = f x"

declare rbind.simps [result_simps]

lemma rbind_Inr_iff [result_simps]:
  "rbind m f = Inr y \<longleftrightarrow> (\<exists>x. m = Inr x \<and> f x = Inr y)"
  by (cases m) auto

lemma rbind_Inl_iff:
  "rbind m f = Inl e \<longleftrightarrow> m = Inl e \<or> (\<exists>x. m = Inr x \<and> f x = Inl e)"
  by (cases m) auto

lemma rbind_assoc: "rbind (rbind m f) g = rbind m (\<lambda>x. rbind (f x) g)"
  by (cases m) auto

lemma rbind_Inr_right [simp]: "rbind m Inr = m"
  by (cases m) auto

text \<open>
  A computation that may also run for ever: \<open>None\<close> is no return, otherwise a result as
  above.
\<close>

type_synonym 'a comp = "'a res option"

fun cbind :: "'a comp \<Rightarrow> ('a \<Rightarrow> 'b comp) \<Rightarrow> 'b comp" where
  "cbind None f = None"
| "cbind (Some (Inl e)) f = Some (Inl e)"
| "cbind (Some (Inr x)) f = f x"

declare cbind.simps [result_simps]

lemma cbind_Inr_iff [result_simps]:
  "cbind m f = Some (Inr y) \<longleftrightarrow> (\<exists>x. m = Some (Inr x) \<and> f x = Some (Inr y))"
  by (cases "(m, f)" rule: cbind.cases) auto

lemma cbind_assoc: "cbind (cbind m f) g = cbind m (\<lambda>x. cbind (f x) g)"
  by (cases "(m, f)" rule: cbind.cases) auto

lemma cbind_return [simp]: "cbind m (\<lambda>x. Some (Inr x)) = m"
  by (cases "(m, \<lambda>x. Some (Inr x) :: 'a comp)" rule: cbind.cases) auto

lemma cbind_None_iff: "cbind m f = None \<longleftrightarrow> m = None \<or> (\<exists>x. m = Some (Inr x) \<and> f x = None)"
  by (cases "(m, f)" rule: cbind.cases) auto

lemma cbind_mono [partial_function_mono]:
  assumes "mono_option B" and "\<And>y. mono_option (C y)"
  shows "mono_option (\<lambda>f. cbind (B f) (\<lambda>y. C y f))"
proof (rule monotoneI)
  fix f g :: "'a \<Rightarrow> 'b option"
  assume fg: "fun_ord option_ord f g"
  have B: "option_ord (B f) (B g)" using assms(1) fg by (rule monotoneD [of _ _ _ f g])
  have C: "option_ord (C y f) (C y g)" for y using assms(2) fg by (rule monotoneD [of _ _ _ f g])
  show "option_ord (cbind (B f) (\<lambda>y. C y f)) (cbind (B g) (\<lambda>y. C y g))"
  proof (cases "B f")
    case (Some r)
    with B have "B g = Some r" by (auto simp: flat_ord_def)
    with Some C show ?thesis by (cases r) (auto simp: flat_ord_def)
  qed (simp add: flat_ord_def)
qed

text \<open>A pointer is an address or NULL; a read through it can fail in two ways.\<close>

definition deref :: "('a \<rightharpoonup> 'v) \<Rightarrow> 'a option \<Rightarrow> 'v res" where
  "deref h p = (case p of None \<Rightarrow> Inl (UB Null_deref)
     | Some a \<Rightarrow> (case h a of None \<Rightarrow> Inl (UB Bad_deref) | Some v \<Rightarrow> Inr v))"

lemma deref_simps [simp]:
  "deref h None = Inl (UB Null_deref)"
  "h a = Some v \<Longrightarrow> deref h (Some a) = Inr v"
  "h a = None \<Longrightarrow> deref h (Some a) = Inl (UB Bad_deref)"
  by (simp_all add: deref_def)

lemma deref_Inr_iff [result_simps]: "deref h p = Inr v \<longleftrightarrow> (\<exists>a. p = Some a \<and> h a = Some v)"
  by (auto simp: deref_def split: option.splits)

text \<open>\<open>i++\<close> on a C int: overflow is undefined.\<close>

definition int_inc :: "int \<Rightarrow> int res" where
  "int_inc i = (if i < 2 ^ 31 - 1 then Inr (i + 1) else Inl (UB Int_overflow))"

section \<open>C strings\<close>

text \<open>
  A C string is the list of its characters before the terminating zero byte.
  \<open>isspace\<close> is the C locale's class; \<open>strstr\<close> is read as a truth value, the only way
  the programs use it.
\<close>

abbreviation LF :: char where "LF \<equiv> CHR 0x0A"
abbreviation CR :: char where "CR \<equiv> CHR 0x0D"
abbreviation CRLF :: string where "CRLF \<equiv> [CR, LF]"

text \<open>What a buffer that may hold zero bytes reads as.\<close>

definition cstr :: "string \<Rightarrow> string" where
  "cstr s = takeWhile (\<lambda>c. c \<noteq> CHR 0x00) s"

text \<open>\<open>sprintf\<close>, \<open>strcpy\<close> or \<open>strcat\<close> into an array of \<open>cap\<close> characters.\<close>

definition put :: "nat \<Rightarrow> string \<Rightarrow> string res" where
  "put cap s = (if length s < cap then Inr s else Inl (UB Buffer_overflow))"

lemma put_Inr_iff [result_simps]: "put cap s = Inr t \<longleftrightarrow> length s < cap \<and> t = s"
  by (auto simp: put_def)

definition isspace :: "char \<Rightarrow> bool" where
  "isspace c \<longleftrightarrow> c \<in> {CHR '' '', CHR 0x09, LF, CHR 0x0B, CHR 0x0C, CR}"

definition isdigit :: "char \<Rightarrow> bool" where
  "isdigit c \<longleftrightarrow> c \<in> set ''0123456789''"

fun strstr :: "string \<Rightarrow> string \<Rightarrow> bool" where
  "strstr [] n = (n = [])"
| "strstr (c # cs) n = (prefix n (c # cs) \<or> strstr cs n)"

lemma strstr_iff_sublist [cstring_simps]: "strstr h n \<longleftrightarrow> sublist n h"
proof (induction h)
  case Nil
  then show ?case by auto
next
  case (Cons c cs)
  then show ?case by (simp add: sublist_Cons_right)
qed

definition tolower :: "char \<Rightarrow> char" where
  "tolower c = (let n = of_char c :: nat in
     if 65 \<le> n \<and> n \<le> 90 then char_of (n + 32) else c)"

definition strcasecmp_eq :: "string \<Rightarrow> string \<Rightarrow> bool" where
  "strcasecmp_eq a b \<longleftrightarrow> map tolower a = map tolower b"

text \<open>
  \<open>sscanf\<close> with a run of \<open>%s\<close> conversions: skip white space, take the longest run
  of other characters, and stop at the end of the input.
\<close>

definition scan_word :: "string \<Rightarrow> (string \<times> string) option" where
  "scan_word s = (let s' = dropWhile isspace s; w = takeWhile (\<lambda>c. \<not> isspace c) s' in
     if w = [] then None else Some (w, drop (length w) s'))"

lemma scan_word_Some:
  assumes "scan_word s = Some (w, r)"
  shows "w \<noteq> []" and "\<forall>c \<in> set w. \<not> isspace c" and "length w + length r \<le> length s"
proof -
  let ?s' = "dropWhile isspace s"
  have w: "w = takeWhile (\<lambda>c. \<not> isspace c) ?s'" and ne: "w \<noteq> []" and r: "r = drop (length w) ?s'"
    using assms by (auto simp: scan_word_def Let_def split: if_splits)
  show "w \<noteq> []" by (rule ne)
  show "\<forall>c \<in> set w. \<not> isspace c" using w by (auto dest: set_takeWhileD)
  have "length w \<le> length ?s'" unfolding w by (rule length_takeWhile_le)
  moreover have "length ?s' \<le> length s" by (rule length_dropWhile_le)
  ultimately show "length w + length r \<le> length s" using r by simp
qed

section \<open>Decimal conversions\<close>

definition digit_char :: "nat \<Rightarrow> char" where
  "digit_char d = ''0123456789'' ! d"

definition digit_val :: "char \<Rightarrow> nat" where
  "digit_val c = of_char c - 48"

fun show_nat :: "nat \<Rightarrow> string" where
  "show_nat n = (if n < 10 then [digit_char n] else show_nat (n div 10) @ [digit_char (n mod 10)])"

declare show_nat.simps [simp del]

text \<open>\<open>%d\<close> of a C int.\<close>

definition show_int :: "int \<Rightarrow> string" where
  "show_int i = (if i < 0 then CHR ''-'' # show_nat (nat (- i)) else show_nat (nat i))"

definition digits_val :: "string \<Rightarrow> nat" where
  "digits_val s = foldl (\<lambda>a c. 10 * a + digit_val c) 0 s"

text \<open>
  \<open>atoi\<close> is glibc's \<open>(int) strtol (s, NULL, 10)\<close>: white space, a sign, digits; the
  value saturates at the bounds of \<open>long\<close> and is then cut to 32 bits.
\<close>

definition strtol_clamp :: "int \<Rightarrow> int" where
  "strtol_clamp v = max (- (2 ^ 63)) (min (2 ^ 63 - 1) v)"

definition to_int32 :: "int \<Rightarrow> int" where
  "to_int32 v = (v + 2 ^ 31) mod 2 ^ 32 - 2 ^ 31"

definition to_int64 :: "int \<Rightarrow> int" where
  "to_int64 v = (v + 2 ^ 63) mod 2 ^ 64 - 2 ^ 63"

definition strtol :: "string \<Rightarrow> int" where
  "strtol s = (let s' = dropWhile isspace s in
     strtol_clamp (case s' of
         [] \<Rightarrow> 0
       | c # r \<Rightarrow>
           (if c = CHR ''-'' then - int (digits_val (takeWhile isdigit r))
            else if c = CHR ''+'' then int (digits_val (takeWhile isdigit r))
            else int (digits_val (takeWhile isdigit s')))))"

definition atoi :: "string \<Rightarrow> int" where
  "atoi s = to_int32 (strtol s)"

lemma to_int32_id [simp]: "- (2 ^ 31) \<le> v \<Longrightarrow> v < 2 ^ 31 \<Longrightarrow> to_int32 v = v"
  by (simp add: to_int32_def)

lemma to_int64_id [simp]: "- (2 ^ 63) \<le> v \<Longrightarrow> v < 2 ^ 63 \<Longrightarrow> to_int64 v = v"
  by (simp add: to_int64_def)

lemma to_int32_bounds: "- (2 ^ 31) \<le> to_int32 v" "to_int32 v < 2 ^ 31"
  by (simp_all add: to_int32_def algebra_simps)

lemma digit_cases: "d < 10 \<Longrightarrow> (d = 0 \<or> d = 1 \<or> d = 2 \<or> d = 3 \<or> d = 4 \<or> d = 5 \<or> d = 6 \<or> d = 7 \<or> d = 8 \<or> d = (9::nat))"
  by arith

lemma digit_char_props:
  assumes "d < 10"
  shows "isdigit (digit_char d)" and "digit_val (digit_char d) = d"
    and "\<not> isspace (digit_char d)" and "digit_char d \<noteq> CHR ''-''" and "digit_char d \<noteq> CHR ''+''"
  using digit_cases [OF assms]
  by (auto simp: digit_char_def isdigit_def digit_val_def isspace_def)

lemma show_nat_nonempty [simp]: "show_nat n \<noteq> []"
  by (subst show_nat.simps) simp

lemma show_nat_digits: "\<forall>c \<in> set (show_nat n). \<exists>d < 10. c = digit_char d"
proof (induction n rule: show_nat.induct)
  case (1 n)
  show ?case
  proof (cases "n < 10")
    case True
    then show ?thesis by (subst show_nat.simps) auto
  next
    case False
    with "1.IH" show ?thesis by (subst show_nat.simps) (auto intro: exI [of _ "n mod 10"])
  qed
qed

lemma digits_val_show_nat: "digits_val (show_nat n) = n"
proof (induction n rule: show_nat.induct)
  case (1 n)
  show ?case
  proof (cases "n < 10")
    case True
    then show ?thesis by (subst show_nat.simps) (simp add: digits_val_def digit_char_props)
  next
    case False
    with "1.IH" have "digits_val (show_nat (n div 10)) = n div 10" by simp
    then show ?thesis using False
      by (subst show_nat.simps) (simp add: digits_val_def digit_char_props)
  qed
qed

lemma takeWhile_isdigit_show_nat: "takeWhile isdigit (show_nat n) = show_nat n"
  using show_nat_digits [of n] by (auto simp: takeWhile_eq_all_conv digit_char_props)

lemma show_nat_Cons:
  obtains d r where "show_nat n = digit_char d # r" and "d < 10"
proof (cases "show_nat n")
  case Nil
  then show ?thesis by simp
next
  case (Cons c r)
  with show_nat_digits [of n] show ?thesis using that by auto
qed

text \<open>What \<open>%d\<close> prints, \<open>atoi\<close> reads back, over the whole range of a 32-bit int.\<close>

lemma atoi_show_int:
  assumes "- (2 ^ 31) \<le> i" and "i < 2 ^ 31"
  shows "atoi (show_int i) = i"
proof -
  have "strtol (show_int i) = strtol_clamp i"
  proof (cases "i < 0")
    case True
    then show ?thesis
      by (simp add: strtol_def show_int_def isspace_def takeWhile_isdigit_show_nat digits_val_show_nat)
  next
    case False
    obtain d r where dr: "show_nat (nat i) = digit_char d # r" and d: "d < 10"
      by (rule show_nat_Cons)
    have "strtol (show_nat (nat i)) = strtol_clamp (int (digits_val (takeWhile isdigit (show_nat (nat i)))))"
      unfolding strtol_def dr using digit_char_props [OF d] by (simp add: Let_def)
    with False show ?thesis
      by (simp add: show_int_def takeWhile_isdigit_show_nat digits_val_show_nat)
  qed
  then show ?thesis using assms by (simp add: atoi_def strtol_clamp_def)
qed

section \<open>Lists\<close>

lemma split_at_two:
  assumes "length xs = Suc (Suc (k + m))"
  obtains ys y z zs where "xs = ys @ y # z # zs" and "length ys = k" and "length zs = m"
proof -
  have "length (drop k xs) = Suc (Suc m)" using assms by simp
  then obtain y z zs where "drop k xs = y # z # zs" "length zs = m"
    by (metis length_Suc_conv)
  moreover have "xs = take k xs @ drop k xs" by simp
  moreover have "length (take k xs) = k" using assms by simp
  ultimately show ?thesis using that by metis
qed

lemma split_at_first:
  "c \<in> set u \<Longrightarrow> u = takeWhile (\<lambda>x. x \<noteq> c) u @ c # drop (Suc (length (takeWhile (\<lambda>x. x \<noteq> c) u))) u"
  by (induction u) auto

section \<open>Linked lists in a heap\<close>

text \<open>
  \<open>lseg nxt p xs q\<close>: following \<open>nxt\<close> from \<open>p\<close> visits exactly the addresses \<open>xs\<close> and
  ends at \<open>q\<close>.
\<close>

fun lseg :: "('a \<rightharpoonup> 'a option) \<Rightarrow> 'a option \<Rightarrow> 'a list \<Rightarrow> 'a option \<Rightarrow> bool" where
  "lseg nxt p [] q \<longleftrightarrow> p = q"
| "lseg nxt p (x # xs) q \<longleftrightarrow> p = Some x \<and> (\<exists>n. nxt x = Some n \<and> lseg nxt n xs q)"

lemma lseg_append [simp]:
  "lseg nxt p (xs @ ys) q \<longleftrightarrow> (\<exists>m. lseg nxt p xs m \<and> lseg nxt m ys q)"
  by (induction xs arbitrary: p) auto

lemma lseg_cong:
  "(\<And>x. x \<in> set xs \<Longrightarrow> nxt x = nxt' x) \<Longrightarrow> lseg nxt p xs q = lseg nxt' p xs q"
  by (induction xs arbitrary: p) auto

lemma lseg_None [simp]: "lseg nxt None xs None \<longleftrightarrow> xs = []"
  by (cases xs) auto

lemma lseg_dom: "lseg nxt p xs q \<Longrightarrow> set xs \<subseteq> dom nxt"
  by (induction xs arbitrary: p) auto

end
