(* ===== verification/Weights.thy ===== *)
theory Weights
  imports Prelude
begin

text \<open>
  The process-weight system calls of the kernel assignment (hw2/wet/kernel/hw2.c, with the
  \<open>weight\<close> field of include/linux/sched.h). A task is reached by its address; the
  \<open>children\<close> list holds the tasks in the order \<open>list_for_each_entry\<close> visits them. A
  \<open>long\<close> wraps at 64 bits (\<open>to_int64\<close>); pids and weights are ints.
\<close>

section \<open>State\<close>

type_synonym task_ptr = nat

record task_struct =
  pid :: int
  weight :: int
  real_parent :: task_ptr
  children :: "task_ptr list"

record kernel =
  tasks :: "task_ptr \<rightharpoonup> task_struct"
  current :: task_ptr
  klog :: "string list"

text \<open>
  The first task, as the macro \<open>INIT_TASK\<close> of init_task.h sets it up: without weight, and its own
  parent. Fields it does not name, the pid among them, are 0.
\<close>

definition INIT_TASK :: "task_ptr \<Rightarrow> task_struct" where
  "INIT_TASK tsk = \<lparr>pid = 0, weight = 0, real_parent = tsk, children = []\<rparr>"

definition boot :: "task_ptr \<Rightarrow> kernel" where
  "boot tsk = \<lparr>tasks = [tsk \<mapsto> INIT_TASK tsk], current = tsk, klog = []\<rparr>"

definition EINVAL :: int where "EINVAL = 22"
definition ECHILD :: int where "ECHILD = 10"

section \<open>System calls\<close>

definition sys_hello :: "kernel \<Rightarrow> kernel \<times> int" where
  "sys_hello K = (K\<lparr>klog := klog K @ [''Hello, World!'' @ [LF]]\<rparr>, 0)"

definition sys_set_weight :: "int \<Rightarrow> kernel \<Rightarrow> (kernel \<times> int) res" where
  "sys_set_weight w K =
     (if w < 0 then Inr (K, - EINVAL)
      else rbind (deref (tasks K) (Some (current K))) (\<lambda>t.
        Inr (K\<lparr>tasks := (tasks K)(current K \<mapsto> t\<lparr>weight := w\<rparr>)\<rparr>, 0)))"

definition sys_get_weight :: "kernel \<Rightarrow> int res" where
  "sys_get_weight K = rbind (deref (tasks K) (Some (current K))) (\<lambda>t. Inr (weight t))"

text \<open>
  The walk to init. \<open>None\<close> is a walk that never ends (a chain of parents that does not
  reach pid 1).
\<close>

partial_function (option) ancestor_loop :: "kernel \<Rightarrow> task_ptr \<Rightarrow> int \<Rightarrow> int res option" where
  "ancestor_loop K current_task lsum =
     (case tasks K current_task of
        None \<Rightarrow> Some (Inl (UB Bad_deref))
      | Some t \<Rightarrow>
          if pid t \<noteq> 1 then ancestor_loop K (real_parent t) (to_int64 (lsum + weight t))
          else Some (Inr (to_int64 (lsum + weight t))))"

definition sys_get_ancestor_sum :: "kernel \<Rightarrow> int res option" where
  "sys_get_ancestor_sum K = ancestor_loop K (current K) 0"

text \<open>
  The recursive search. The first argument bounds the depth of the recursion (the kernel
  stack); \<open>None\<close> is a recursion deeper than that. \<open>father\<close> is the C flag that leaves the
  starting task itself out.
\<close>

fun find_heaviest_descendant ::
      "nat \<Rightarrow> kernel \<Rightarrow> task_ptr \<Rightarrow> int \<Rightarrow> task_ptr option res option"
  and heaviest_loop ::
      "nat \<Rightarrow> kernel \<Rightarrow> task_ptr list \<Rightarrow> task_ptr option \<Rightarrow> int \<Rightarrow> task_ptr option res option" where
  "find_heaviest_descendant 0 K task father = None"
| "find_heaviest_descendant (Suc n) K task father =
     (case tasks K task of
        None \<Rightarrow> Some (Inl (UB Bad_deref))
      | Some t \<Rightarrow>
          (if father = 1 then heaviest_loop n K (children t) None 0
           else heaviest_loop n K (children t) (Some task) (weight t)))"
| "heaviest_loop n K [] heaviest_descendant heaviest_weight = Some (Inr heaviest_descendant)"
| "heaviest_loop n K (child # rest) heaviest_descendant heaviest_weight =
     (case find_heaviest_descendant n K child 0 of
        None \<Rightarrow> None
      | Some (Inl e) \<Rightarrow> Some (Inl e)
      | Some (Inr None) \<Rightarrow> heaviest_loop n K rest heaviest_descendant heaviest_weight
      | Some (Inr (Some descendant)) \<Rightarrow>
          (case tasks K descendant of
             None \<Rightarrow> Some (Inl (UB Bad_deref))
           | Some d \<Rightarrow>
               if weight d > heaviest_weight
               then heaviest_loop n K rest (Some descendant) (weight d)
               else if weight d = heaviest_weight then
                 (case deref (tasks K) heaviest_descendant of
                    Inl e \<Rightarrow> Some (Inl e)
                  | Inr h \<Rightarrow>
                      if pid d < pid h
                      then heaviest_loop n K rest (Some descendant) heaviest_weight
                      else heaviest_loop n K rest heaviest_descendant heaviest_weight)
               else heaviest_loop n K rest heaviest_descendant heaviest_weight))"

definition sys_get_heaviest_descendant :: "nat \<Rightarrow> kernel \<Rightarrow> int res option" where
  "sys_get_heaviest_descendant stack K =
     (case tasks K (current K) of
        None \<Rightarrow> Some (Inl (UB Bad_deref))
      | Some t \<Rightarrow>
          if children t = [] then Some (Inr (- ECHILD))
          else map_option (\<lambda>r. rbind r (\<lambda>h. rbind (deref (tasks K) h) (\<lambda>d. Inr (pid d))))
                 (find_heaviest_descendant stack K (current K) 1))"

section \<open>Specification\<close>

text \<open>The chain of tasks from a task to init, both ends included.\<close>

fun ancestor_path :: "kernel \<Rightarrow> task_ptr \<Rightarrow> task_ptr list \<Rightarrow> bool" where
  "ancestor_path K t [] = False"
| "ancestor_path K t (x # xs) = (x = t \<and>
     (case tasks K t of None \<Rightarrow> False
      | Some tk \<Rightarrow> if pid tk = 1 then xs = [] else ancestor_path K (real_parent tk) xs))"

definition task_weight :: "kernel \<Rightarrow> task_ptr \<Rightarrow> int" where
  "task_weight K t = (case tasks K t of None \<Rightarrow> 0 | Some tk \<Rightarrow> weight tk)"

definition task_pid :: "kernel \<Rightarrow> task_ptr \<Rightarrow> int" where
  "task_pid K t = (case tasks K t of None \<Rightarrow> 0 | Some tk \<Rightarrow> pid tk)"

text \<open>Every stored weight is one that \<open>sys_set_weight\<close> accepts.\<close>

definition weights_ok :: "kernel \<Rightarrow> bool" where
  "weights_ok K \<longleftrightarrow> (\<forall>t tk. tasks K t = Some tk \<longrightarrow> 0 \<le> weight tk \<and> weight tk < 2 ^ 31)"

text \<open>A finite tree of tasks, and what it means that the children lists spell it out.\<close>

datatype ptree = PTree (root: task_ptr) (subtrees: "ptree list")

fun tree_ptrs :: "ptree \<Rightarrow> task_ptr list" where
  "tree_ptrs (PTree t ts) = t # concat (map tree_ptrs ts)"

fun tree_height :: "ptree \<Rightarrow> nat" where
  "tree_height (PTree t ts) = Suc (foldr max (map tree_height ts) 0)"

fun represents :: "kernel \<Rightarrow> ptree \<Rightarrow> bool" where
  "represents K (PTree t ts) \<longleftrightarrow>
     (case tasks K t of None \<Rightarrow> False
      | Some tk \<Rightarrow> children tk = map root ts \<and> list_all (represents K) ts)"

text \<open>\<open>d\<close> wins against \<open>x\<close>: heavier, or as heavy with a pid no larger.\<close>

definition heavier :: "kernel \<Rightarrow> task_ptr \<Rightarrow> task_ptr \<Rightarrow> bool" where
  "heavier K d x \<longleftrightarrow> task_weight K x < task_weight K d \<or>
     (task_weight K x = task_weight K d \<and> task_pid K d \<le> task_pid K x)"

definition is_heaviest :: "kernel \<Rightarrow> task_ptr set \<Rightarrow> task_ptr \<Rightarrow> bool" where
  "is_heaviest K S d \<longleftrightarrow> d \<in> S \<and> d \<in> dom (tasks K) \<and> (\<forall>x \<in> S. heavier K d x)"

section \<open>The ancestor sum\<close>

lemma ancestor_path_unfold:
  "ancestor_path K t ts \<Longrightarrow>
   \<exists>tk xs. tasks K t = Some tk \<and> ts = t # xs \<and>
     (if pid tk = 1 then xs = [] else ancestor_path K (real_parent tk) xs)"
  by (cases ts) (auto split: option.splits)

lemma ancestor_loop_sum:
  assumes "ancestor_path K t ts" and "weights_ok K"
    and "0 \<le> s" and "s + sum_list (map (task_weight K) ts) < 2 ^ 63"
  shows "ancestor_loop K t s = Some (Inr (s + sum_list (map (task_weight K) ts)))"
  using assms(1,3,4)
proof (induction ts arbitrary: t s)
  case Nil
  then show ?case by simp
next
  case (Cons x xs)
  from Cons.prems(1) obtain tk where t: "tasks K t = Some tk" "x = t"
    and rest: "if pid tk = 1 then xs = [] else ancestor_path K (real_parent tk) xs"
    using ancestor_path_unfold by fastforce
  have w: "0 \<le> weight tk" "task_weight K t = weight tk"
    using assms(2) t by (auto simp: weights_ok_def task_weight_def)
  have pos: "0 \<le> sum_list (map (task_weight K) xs)"
    using assms(2) by (intro sum_list_nonneg) (auto simp: weights_ok_def task_weight_def split: option.splits)
  have cut: "to_int64 (s + weight tk) = s + weight tk"
    using Cons.prems(2,3) w pos t(2) by simp
  show ?case
  proof (cases "pid tk = 1")
    case True
    then show ?thesis using t w cut rest by (subst ancestor_loop.simps) simp
  next
    case False
    with rest have "ancestor_path K (real_parent tk) xs" by simp
    moreover have "0 \<le> s + weight tk" using Cons.prems(2) w by simp
    moreover have "s + weight tk + sum_list (map (task_weight K) xs) < 2 ^ 63"
      using Cons.prems(3) w t(2) by simp
    ultimately have "ancestor_loop K (real_parent tk) (s + weight tk)
        = Some (Inr (s + weight tk + sum_list (map (task_weight K) xs)))"
      by (rule Cons.IH)
    then show ?thesis using t w cut False
      by (subst ancestor_loop.simps) (simp add: add.assoc)
  qed
qed

lemma sum_weights_bound:
  assumes "weights_ok K" and "length ts \<le> 2 ^ 32"
  shows "sum_list (map (task_weight K) ts) < 2 ^ 63"
proof -
  have each: "task_weight K t \<le> 2 ^ 31 - 1" for t
  proof (cases "tasks K t")
    case (Some tk)
    then have "weight tk < 2 ^ 31" using assms(1) unfolding weights_ok_def by blast
    with Some show ?thesis by (simp add: task_weight_def)
  qed (simp add: task_weight_def)
  have "sum_list (map (task_weight K) ts) \<le> int (length ts) * (2 ^ 31 - 1)"
  proof (induction ts)
    case Nil
    then show ?case by simp
  next
    case (Cons t ts)
    then show ?case using each [of t] by (simp add: algebra_simps)
  qed
  also have "\<dots> \<le> 2 ^ 32 * (2 ^ 31 - 1)" using assms(2) by (intro mult_right_mono) auto
  finally show ?thesis by simp
qed

text \<open>
  Parents form a forest: a rank that falls along \<open>real_parent\<close> until init. This is the
  kernel's own invariant of its process tree.
\<close>

definition parents_ranked :: "kernel \<Rightarrow> (task_ptr \<Rightarrow> nat) \<Rightarrow> bool" where
  "parents_ranked K rank \<longleftrightarrow> (\<forall>t tk. tasks K t = Some tk \<longrightarrow> pid tk \<noteq> 1 \<longrightarrow>
     real_parent tk \<in> dom (tasks K) \<and> rank (real_parent tk) < rank t)"

lemma ancestor_path_exists:
  assumes "parents_ranked K rank" and "t \<in> dom (tasks K)"
  shows "\<exists>ts. ancestor_path K t ts \<and> length ts \<le> Suc (rank t)"
  using assms(2)
proof (induction "rank t" arbitrary: t rule: less_induct)
  case less
  then obtain tk where tk: "tasks K t = Some tk" by auto
  show ?case
  proof (cases "pid tk = 1")
    case True
    then have "ancestor_path K t [t]" using tk by simp
    then show ?thesis by (intro exI [of _ "[t]"]) simp
  next
    case False
    then have p: "real_parent tk \<in> dom (tasks K)" "rank (real_parent tk) < rank t"
      using assms(1) tk by (auto simp: parents_ranked_def)
    then obtain ts where "ancestor_path K (real_parent tk) ts" "length ts \<le> Suc (rank (real_parent tk))"
      using less.hyps by blast
    then show ?thesis using tk False p by (intro exI [of _ "t # ts"]) auto
  qed
qed

section \<open>The heaviest descendant\<close>

lemma heavier_refl [simp]: "heavier K d d"
  by (simp add: heavier_def)

lemma heavier_trans: "heavier K a b \<Longrightarrow> heavier K b c \<Longrightarrow> heavier K a c"
  by (auto simp: heavier_def)

lemma is_heaviest_Un:
  assumes "is_heaviest K S d" and "is_heaviest K T e" and "heavier K d e"
  shows "is_heaviest K (S \<union> T) d"
proof -
  have "heavier K d x" if "x \<in> T" for x
    using assms(2,3) that by (auto simp: is_heaviest_def intro: heavier_trans)
  with assms(1) show ?thesis by (auto simp: is_heaviest_def)
qed

lemma is_heaviest_weight:
  "is_heaviest K S d \<Longrightarrow> tasks K d = Some tk \<Longrightarrow> x \<in> S \<Longrightarrow> task_weight K x \<le> weight tk"
  by (auto simp: is_heaviest_def heavier_def task_weight_def)

text \<open>
  The loop over the children keeps a heaviest task of everything seen so far, once it has
  one.
\<close>

lemma heaviest_loop_correct:
  assumes "\<And>c. c \<in> set cs \<Longrightarrow>
      \<exists>d. find_heaviest_descendant n K c 0 = Some (Inr (Some d)) \<and> is_heaviest K (T c) d"
    and "is_heaviest K S h" and "tasks K h = Some ht" and "hw = weight ht"
  shows "\<exists>d. heaviest_loop n K cs (Some h) hw = Some (Inr (Some d)) \<and>
      is_heaviest K (S \<union> \<Union> (T ` set cs)) d"
  using assms
proof (induction cs arbitrary: S h ht hw)
  case Nil
  then show ?case by simp
next
  case (Cons c cs)
  from Cons.prems(1) [of c] obtain d where d: "find_heaviest_descendant n K c 0 = Some (Inr (Some d))"
    and hd: "is_heaviest K (T c) d" by auto
  then obtain dt where dt: "tasks K d = Some dt" by (auto simp: is_heaviest_def)
  have keep: ?case if "is_heaviest K (S \<union> T c) h"
      "heaviest_loop n K (c # cs) (Some h) hw = heaviest_loop n K cs (Some h) hw"
    using Cons.IH [OF Cons.prems(1) that(1) Cons.prems(3,4)] that(2) by (simp add: Un_assoc)
  have take: ?case if "is_heaviest K (T c \<union> S) d"
      "heaviest_loop n K (c # cs) (Some h) hw = heaviest_loop n K cs (Some d) (weight dt)"
    using Cons.IH [OF Cons.prems(1) that(1) dt refl] that(2) by (simp add: Un_assoc Un_left_commute)
  have w: "task_weight K d = weight dt" "task_weight K h = weight ht"
      "task_pid K d = pid dt" "task_pid K h = pid ht"
    using dt Cons.prems(3) by (simp_all add: task_weight_def task_pid_def)
  show ?case
  proof (cases "heavier K h d")
    case True
    moreover from this have "is_heaviest K (S \<union> T c) h"
      by (rule is_heaviest_Un [OF Cons.prems(2) hd])
    ultimately show ?thesis
      using d dt w Cons.prems(3,4) by (intro keep) (auto simp: heavier_def)
  next
    case False
    then have "heavier K d h" by (auto simp: heavier_def)
    then have "is_heaviest K (T c \<union> S) d" by (rule is_heaviest_Un [OF hd Cons.prems(2)])
    with False show ?thesis
      using d dt w Cons.prems(3,4) by (intro take) (auto simp: heavier_def)
  qed
qed

lemma tree_height_subtree:
  "c \<in> set ts \<Longrightarrow> tree_height c < tree_height (PTree t ts)"
proof -
  assume "c \<in> set ts"
  then have "tree_height c \<le> foldr max (map tree_height ts) 0"
    by (induction ts) auto
  then show ?thesis by simp
qed

lemma root_in_tree_ptrs [simp]: "root tr \<in> set (tree_ptrs tr)"
  by (cases tr) simp

text \<open>With enough depth the search finds a heaviest task of the whole subtree.\<close>

lemma find_heaviest_correct:
  assumes "represents K tr" and "tree_height tr \<le> n"
  shows "\<exists>d. find_heaviest_descendant n K (root tr) 0 = Some (Inr (Some d)) \<and>
      is_heaviest K (set (tree_ptrs tr)) d"
  using assms
proof (induction n arbitrary: tr)
  case 0
  then show ?case by (cases tr) simp
next
  case (Suc n)
  obtain t ts where tr: "tr = PTree t ts" by (cases tr) auto
  with Suc.prems(1) obtain tk where tk: "tasks K t = Some tk" and ch: "children tk = map root ts"
    and sub: "\<And>c. c \<in> set ts \<Longrightarrow> represents K c"
    by (auto simp: list_all_iff split: option.splits)
  have small: "tree_height c \<le> n" if "c \<in> set ts" for c
    using tree_height_subtree [OF that, of t] Suc.prems(2) tr by simp
  define pick where "pick r = (\<Union>c \<in> {c \<in> set ts. root c = r}. set (tree_ptrs c))" for r
  have *: "\<exists>d. find_heaviest_descendant n K r 0 = Some (Inr (Some d)) \<and> is_heaviest K (pick r) d"
    if "r \<in> set (map root ts)" for r
  proof -
    have ind: "is_heaviest K (set (tree_ptrs c)) d"
      if "find_heaviest_descendant n K r 0 = Some (Inr (Some d))" "c \<in> set ts" "root c = r" for c d
      using Suc.IH [OF sub [OF that(2)] small [OF that(2)]] that by auto
    from that obtain c where c: "c \<in> set ts" "root c = r" by auto
    then obtain d where d: "find_heaviest_descendant n K r 0 = Some (Inr (Some d))"
      using Suc.IH [OF sub [OF c(1)] small [OF c(1)]] by auto
    then show ?thesis using ind [OF d] c by (fastforce simp: is_heaviest_def pick_def)
  qed
  have "is_heaviest K {t} t" using tk by (auto simp: is_heaviest_def)
  from heaviest_loop_correct [OF * this tk refl]
  obtain d where "heaviest_loop n K (map root ts) (Some t) (weight tk) = Some (Inr (Some d))"
    and "is_heaviest K ({t} \<union> \<Union> (pick ` set (map root ts))) d" by blast
  moreover have "{t} \<union> \<Union> (pick ` set (map root ts)) = set (tree_ptrs tr)"
    by (auto simp: tr pick_def)
  ultimately show ?case using tr tk ch by auto
qed

lemma represents_children:
  assumes "represents K (PTree t ts)"
  obtains tk where "tasks K t = Some tk" and "children tk = map root ts"
    and "\<And>c. c \<in> set ts \<Longrightarrow> represents K c"
  using assms by (auto simp: list_all_iff split: option.splits)

text \<open>The search of the caller's own children, from its first child on.\<close>

lemma search_first_child:
  assumes "represents K (PTree t (c # cs))" and "tree_height (PTree t (c # cs)) \<le> Suc n"
  obtains d dt where "is_heaviest K (set (tree_ptrs c)) d" and "tasks K d = Some dt"
    and "find_heaviest_descendant n K (root c) 0 = Some (Inr (Some d))"
    and "find_heaviest_descendant (Suc n) K t 1 =
       (if weight dt > 0 then heaviest_loop n K (map root cs) (Some d) (weight dt)
        else if weight dt = 0 then Some (Inl (UB Null_deref))
        else heaviest_loop n K (map root cs) None 0)"
proof -
  obtain tk where tk: "tasks K t = Some tk" and ch: "children tk = map root (c # cs)"
    and sub: "\<And>x. x \<in> set (c # cs) \<Longrightarrow> represents K x"
    using represents_children [OF assms(1)] by blast
  have "tree_height c \<le> n" using tree_height_subtree [of c "c # cs" t] assms(2) by simp
  with sub [of c] obtain d where d: "find_heaviest_descendant n K (root c) 0 = Some (Inr (Some d))"
    "is_heaviest K (set (tree_ptrs c)) d" using find_heaviest_correct by fastforce
  then obtain dt where dt: "tasks K d = Some dt" by (auto simp: is_heaviest_def)
  show ?thesis by (rule that [OF d(2) dt d(1)]) (simp add: tk ch d(1) dt)
qed

lemma sibling_search:
  assumes "\<And>x. x \<in> set cs \<Longrightarrow> represents K x" and "\<And>x. x \<in> set cs \<Longrightarrow> tree_height x \<le> n"
    and "is_heaviest K S d" and "tasks K d = Some dt"
  shows "\<exists>e. heaviest_loop n K (map root cs) (Some d) (weight dt) = Some (Inr (Some e)) \<and>
      is_heaviest K (S \<union> (\<Union>x \<in> set cs. set (tree_ptrs x))) e"
  using assms
proof (induction cs arbitrary: S d dt)
  case Nil
  then show ?case by simp
next
  case (Cons x xs)
  obtain e where e: "find_heaviest_descendant n K (root x) 0 = Some (Inr (Some e))"
      "is_heaviest K (set (tree_ptrs x)) e"
    using find_heaviest_correct [of K x n] Cons.prems(1,2) by auto
  from heaviest_loop_correct [of "[root x]" n K "\<lambda>_. set (tree_ptrs x)", OF _ Cons.prems(3,4) refl] e
  obtain f where f: "heaviest_loop n K [root x] (Some d) (weight dt) = Some (Inr (Some f))"
      "is_heaviest K (S \<union> set (tree_ptrs x)) f" by auto
  from f(2) obtain ft where ft: "tasks K f = Some ft" by (auto simp: is_heaviest_def)
  have step: "heaviest_loop n K (root x # map root xs) (Some d) (weight dt)
      = heaviest_loop n K (map root xs) (Some f) (weight ft)"
    using e(1) f(1) ft Cons.prems(4) by (auto split: option.splits if_splits)
  show ?case using Cons.IH [OF Cons.prems(1,2) f(2) ft] step by (auto simp: Un_assoc)
qed

lemma zero_weight_iff:
  assumes "weights_ok K" and "is_heaviest K S d" and "tasks K d = Some dt"
  shows "weight dt = 0 \<longleftrightarrow> (\<forall>x \<in> S. task_weight K x = 0)"
proof -
  have "0 \<le> task_weight K x" for x
    using assms(1) by (auto simp: weights_ok_def task_weight_def split: option.splits)
  moreover have "task_weight K d = weight dt" using assms(3) by (simp add: task_weight_def)
  moreover have "d \<in> S" using assms(2) by (simp add: is_heaviest_def)
  ultimately show ?thesis using is_heaviest_weight [OF assms(2,3)]
    by (metis order_antisym)
qed


text \<open>
  Claim C26. When every task below the caller's first child has weight 0 (the value every
  task starts with), \<open>sys_get_heaviest_descendant\<close> follows the NULL pointer
  \<open>heaviest_descendant\<close> to compare pids.
\<close>

theorem get_heaviest_descendant_null:
  assumes "represents K (PTree (current K) (c # cs))" and "weights_ok K"
    and "tree_height (PTree (current K) (c # cs)) \<le> stack"
    and "\<forall>x \<in> set (tree_ptrs c). task_weight K x = 0"
  shows "sys_get_heaviest_descendant stack K = Some (Inl (UB Null_deref))"
proof -
  obtain n where n: "stack = Suc n" using assms(3) by (cases stack) auto
  obtain tk where tk: "tasks K (current K) = Some tk" "children tk = map root (c # cs)"
    using represents_children [OF assms(1)] by blast
  obtain d dt where d: "is_heaviest K (set (tree_ptrs c)) d" "tasks K d = Some dt"
    and run: "find_heaviest_descendant (Suc n) K (current K) 1 =
       (if weight dt > 0 then heaviest_loop n K (map root cs) (Some d) (weight dt)
        else if weight dt = 0 then Some (Inl (UB Null_deref))
        else heaviest_loop n K (map root cs) None 0)"
    using search_first_child [OF assms(1) assms(3) [unfolded n]] by metis
  have "weight dt = 0" using zero_weight_iff [OF assms(2) d] assms(4) by simp
  then show ?thesis using run n tk by (simp add: sys_get_heaviest_descendant_def)
qed


text \<open>
  Called from a task whose parent chain loops without pid 1 (the idle task, its
  own parent), \<open>sys_get_ancestor_sum\<close> never returns.
\<close>

theorem get_ancestor_sum_diverges:
  assumes "tasks K (current K) = Some t" and "pid t \<noteq> 1" and "real_parent t = current K"
  shows "sys_get_ancestor_sum K = None"
proof -
  have "ancestor_loop K c s \<noteq> Some r" if "c = current K" for c s r
  proof
    assume ret: "ancestor_loop K c s = Some r"
    have "K = K \<longrightarrow> c \<noteq> current K"
    proof (rule ancestor_loop.raw_induct [where P = "\<lambda>K' c s r. K' = K \<longrightarrow> c \<noteq> current K",
          OF _ ret])
      fix f c s r K'
      assume IH: "\<And>K' c s r. f K' c s = Some r \<Longrightarrow> K' = K \<longrightarrow> c \<noteq> current K"
        and eq: "(case tasks K' c of None \<Rightarrow> Some (Inl (UB Bad_deref))
           | Some t \<Rightarrow> if pid t \<noteq> 1 then f K' (real_parent t) (to_int64 (s + weight t))
               else Some (Inr (to_int64 (s + weight t)))) = Some r"
      show "K' = K \<longrightarrow> c \<noteq> current K" using eq assms by (auto dest: IH)
    qed
    with that show False by simp
  qed
  then show ?thesis
    by (cases "ancestor_loop K (current K) 0") (simp_all add: sys_get_ancestor_sum_def)
qed

section \<open>Runs of system calls\<close>

text \<open>
  One step: the scheduler switches to another task, or the current task makes one of the
  calls that write (the argument of \<open>sys_set_weight\<close> is a C int). The tree itself is only
  changed by the kernel's own fork and exit, which are not part of these files.
\<close>

inductive kstep :: "kernel \<Rightarrow> kernel \<Rightarrow> bool" where
  switch: "t \<in> dom (tasks K) \<Longrightarrow> kstep K (K\<lparr>current := t\<rparr>)"
| hello: "kstep K (fst (sys_hello K))"
| set_weight: "w < 2 ^ 31 \<Longrightarrow> sys_set_weight w K = Inr (K', r) \<Longrightarrow> kstep K K'"

inductive_cases kstepE: "kstep K K'"

lemma set_weight_cases:
  assumes "sys_set_weight w K = Inr (K', r)"
  shows "(w < 0 \<and> K' = K \<and> r = - EINVAL) \<or>
     (0 \<le> w \<and> r = 0 \<and> (\<exists>t. tasks K (current K) = Some t \<and>
        K' = K\<lparr>tasks := (tasks K)(current K \<mapsto> t\<lparr>weight := w\<rparr>)\<rparr>))"
  using assms by (auto simp: sys_set_weight_def result_simps split: if_splits)

lemma kstep_weights_ok:
  assumes "kstep K K'" and "weights_ok K"
  shows "weights_ok K'"
  using assms
proof (cases rule: kstep.cases)
  case (set_weight w r)
  from set_weight_cases [OF set_weight(2)] show ?thesis
    using assms(2) set_weight(1) by (auto simp: weights_ok_def split: if_splits)
qed (auto simp: weights_ok_def sys_hello_def)

lemma kstep_tree:
  assumes "kstep K K'"
  shows "map_option (\<lambda>t. (pid t, real_parent t, children t)) \<circ> tasks K'
       = map_option (\<lambda>t. (pid t, real_parent t, children t)) \<circ> tasks K"
  using assms
proof (cases rule: kstep.cases)
  case (set_weight w r)
  from set_weight_cases [OF set_weight(2)] show ?thesis by (auto simp: fun_eq_iff)
qed (simp_all add: sys_hello_def)

text \<open>
  Claim C24. However the tasks interleave their calls, every weight stays a non-negative
  C int and the process tree is untouched.
\<close>

theorem weights_stay_ok:
  assumes "kstep\<^sup>*\<^sup>* K K'" and "weights_ok K"
  shows "weights_ok K' \<and>
    map_option (\<lambda>t. (pid t, real_parent t, children t)) \<circ> tasks K'
      = map_option (\<lambda>t. (pid t, real_parent t, children t)) \<circ> tasks K"
  using assms
  by (induction rule: rtranclp_induct) (simp_all add: kstep_weights_ok kstep_tree)

text \<open>
  A weight that \<open>sys_set_weight\<close> accepts is what \<open>sys_get_weight\<close> returns next;
  a negative one is refused with \<open>-EINVAL\<close> and changes nothing.
\<close>

theorem set_get_weight:
  assumes "current K \<in> dom (tasks K)"
  shows "\<exists>K' r. sys_set_weight w K = Inr (K', r) \<and>
     (if w < 0 then r = - EINVAL \<and> K' = K else r = 0 \<and> sys_get_weight K' = Inr w)"
  using assms by (auto simp: sys_set_weight_def sys_get_weight_def result_simps deref_def)

section \<open>Witnesses\<close>

text \<open>A small process tree: init, the caller, and three tasks below the caller.\<close>

definition demo_kernel :: "int \<Rightarrow> kernel" where
  "demo_kernel w = \<lparr>tasks = [
      1 \<mapsto> \<lparr>pid = 1, weight = 4, real_parent = 1, children = [2]\<rparr>,
      2 \<mapsto> \<lparr>pid = 10, weight = 3, real_parent = 1, children = [3, 4]\<rparr>,
      3 \<mapsto> \<lparr>pid = 12, weight = w, real_parent = 2, children = [5]\<rparr>,
      4 \<mapsto> \<lparr>pid = 11, weight = 7, real_parent = 2, children = []\<rparr>,
      5 \<mapsto> \<lparr>pid = 13, weight = w, real_parent = 3, children = []\<rparr>],
    current = 2, klog = []\<rparr>"

definition demo_rank :: "task_ptr \<Rightarrow> nat" where
  "demo_rank t = (if t = 1 then 0 else if t = 2 then 1 else if t = 5 then 3 else 2)"

lemma demo_facts:
  "represents (demo_kernel w) (PTree 2 [PTree 3 [PTree 5 []], PTree 4 []])"
  "0 \<le> w \<Longrightarrow> w < 2 ^ 31 \<Longrightarrow> weights_ok (demo_kernel w)"
  "parents_ranked (demo_kernel w) demo_rank"
  "current (demo_kernel w) = 2"
  "task_weight (demo_kernel w) 3 = w" "task_weight (demo_kernel w) 5 = w"
  "2 \<in> dom (tasks (demo_kernel w))"
  by (auto simp: demo_kernel_def demo_rank_def weights_ok_def parents_ranked_def task_weight_def)


theorem get_heaviest_descendant_null_witness:
  "sys_get_heaviest_descendant 5 (demo_kernel 0) = Some (Inl (UB Null_deref))"
  using get_heaviest_descendant_null
    [of "demo_kernel 0" "PTree 3 [PTree 5 []]" "[PTree 4 []]" 5] demo_facts [of 0]
  by simp


theorem get_ancestor_sum_diverges_witness: "sys_get_ancestor_sum (boot 0) = None"
  by (rule get_ancestor_sum_diverges [where t = "INIT_TASK 0"]) (simp_all add: boot_def INIT_TASK_def)

lemma boot_weights_ok: "weights_ok (boot tsk)"
  by (simp add: weights_ok_def boot_def INIT_TASK_def)

theorem weights_stay_ok_witness: "weights_ok (fst (sys_hello (boot 0)))"
  using weights_stay_ok [OF r_into_rtranclp [of kstep, OF hello [of "boot 0"]] boot_weights_ok] by blast

theorem set_get_weight_witness:
  "\<exists>K' r. sys_set_weight 9 (demo_kernel 7) = Inr (K', r) \<and> r = 0 \<and> sys_get_weight K' = Inr 9"
  using set_get_weight [of "demo_kernel 7" 9] demo_facts [of 7] by simp

end
