(* ===== verification/ConnQueue.thy ===== *)
theory ConnQueue
  imports Prelude
begin

text \<open>
  The connection queue of the web server (hw3/wet/queue.h and queue.c): a singly linked list
  in an explicit heap. The type \<open>'d\<close> stands for the C type \<open>double\<close>, of which the queue only
  uses subtraction. What \<open>malloc\<close> returned is an argument of \<open>createQueue\<close> and \<open>enqueue\<close>;
  that a returned block is not in use already is a named premise.
\<close>

section \<open>State\<close>

type_synonym addr = nat

record 'd Node =
  data :: int
  arrival_time :: 'd
  next_node :: "addr option"

record Queue =
  front :: "addr option"
  rear :: "addr option"
  queue_size :: int

record 'd qstate =
  heap :: "addr \<rightharpoonup> 'd Node"
  queue :: Queue

section \<open>Operations\<close>

definition createQueue :: "addr option \<Rightarrow> (addr \<rightharpoonup> 'd Node) \<Rightarrow> 'd qstate res" where
  "createQueue mem h =
     (case mem of None \<Rightarrow> Inl (UB Null_deref)
      | Some _ \<Rightarrow> Inr \<lparr>heap = h, queue = \<lparr>front = None, rear = None, queue_size = 0\<rparr>\<rparr>)"

definition isEmpty :: "Queue \<Rightarrow> bool" where
  "isEmpty q \<longleftrightarrow> queue_size q = 0"

definition enqueue :: "addr option \<Rightarrow> int \<Rightarrow> 'd \<Rightarrow> 'd qstate \<Rightarrow> 'd qstate res" where
  "enqueue new_node d t s =
     (case new_node of None \<Rightarrow> Inl (UB Null_deref)
      | Some a \<Rightarrow>
          let h = (heap s)(a \<mapsto> \<lparr>data = d, arrival_time = t, next_node = None\<rparr>); q = queue s in
          rbind (if isEmpty q
                 then Inr (s\<lparr>heap := h, queue := q\<lparr>front := Some a, rear := Some a\<rparr>\<rparr>)
                 else rbind (deref h (rear q)) (\<lambda>r.
                   Inr (s\<lparr>heap := h(the (rear q) \<mapsto> r\<lparr>next_node := Some a\<rparr>),
                          queue := q\<lparr>rear := Some a\<rparr>\<rparr>))) (\<lambda>s'.
          rbind (int_inc (queue_size (queue s'))) (\<lambda>n.
          Inr (s'\<lparr>queue := (queue s')\<lparr>queue_size := n\<rparr>\<rparr>))))"

text \<open>
  The two out-parameters may be NULL; \<open>want_a\<close> and \<open>want_d\<close> say whether they are not. The
  result holds what was written through them. \<open>now\<close> is what \<open>Time_GetSeconds\<close> returned.
\<close>

definition dequeue ::
    "bool \<Rightarrow> bool \<Rightarrow> 'd::minus \<Rightarrow> 'd qstate \<Rightarrow> ('d qstate \<times> int \<times> 'd option \<times> 'd option) res" where
  "dequeue want_a want_d now s =
     (let q = queue s in
      if isEmpty q then Inr (s, -1, None, None)
      else rbind (deref (heap s) (front q)) (\<lambda>temp.
        let q1 = q\<lparr>front := next_node temp\<rparr>;
            q2 = (if front q1 = None then q1\<lparr>rear := None\<rparr> else q1) in
        Inr (s\<lparr>heap := (heap s)(the (front q) := None), queue := q2\<lparr>queue_size := queue_size q2 - 1\<rparr>\<rparr>,
             data temp,
             (if want_a then Some (arrival_time temp) else None),
             (if want_d then Some (now - arrival_time temp) else None))))"

text \<open>
  The walk to the node before position \<open>i\<close>; \<open>None\<close> is a walk that never ends (an \<open>i\<close>
  below 1 on a cyclic list).
\<close>

partial_function (option) walk_to ::
    "(addr \<rightharpoonup> 'd Node) \<Rightarrow> addr option \<Rightarrow> int \<Rightarrow> int \<Rightarrow> addr option res option" where
  "walk_to h temp cur target =
     (if cur \<noteq> target
      then (case deref h temp of Inl e \<Rightarrow> Some (Inl e)
            | Inr n \<Rightarrow> walk_to h (next_node n) (cur + 1) target)
      else Some (Inr temp))"

definition unlink_after :: "addr option \<Rightarrow> int \<Rightarrow> 'd qstate \<Rightarrow> ('d qstate \<times> int) res" where
  "unlink_after temp i s =
     (let q = queue s in
      rbind (deref (heap s) temp) (\<lambda>tn.
      rbind (deref (heap s) (next_node tn)) (\<lambda>node_to_delete.
        let h1 = (heap s)(the temp \<mapsto> tn\<lparr>next_node := next_node node_to_delete\<rparr>);
            q1 = (if i = queue_size q then q\<lparr>rear := temp\<rparr> else q) in
        Inr (s\<lparr>heap := h1(the (next_node tn) := None), queue := q1\<lparr>queue_size := queue_size q1 - 1\<rparr>\<rparr>,
             data node_to_delete))))"

definition dequeue_i :: "int \<Rightarrow> 'd qstate \<Rightarrow> ('d qstate \<times> int) res option" where
  "dequeue_i i s =
     (let q = queue s in
      if i > queue_size q then Some (Inr (s, -1))
      else if i = 1 then
        Some (rbind (deref (heap s) (front q)) (\<lambda>n.
          let q1 = q\<lparr>front := next_node n\<rparr>;
              q2 = (if queue_size q1 = 1 then q1\<lparr>rear := None\<rparr> else q1) in
          Inr (s\<lparr>queue := q2\<lparr>queue_size := queue_size q2 - 1\<rparr>\<rparr>, data n)))
      else map_option (\<lambda>r. rbind r (\<lambda>temp. unlink_after temp i s)) (walk_to (heap s) (front q) 1 (i - 1)))"

section \<open>What a queue state represents\<close>

definition nxt :: "(addr \<rightharpoonup> 'd Node) \<Rightarrow> addr \<rightharpoonup> addr option" where
  "nxt h a = map_option next_node (h a)"

definition payload :: "(addr \<rightharpoonup> 'd Node) \<Rightarrow> addr \<Rightarrow> (int \<times> 'd) option" where
  "payload h a = map_option (\<lambda>n. (data n, arrival_time n)) (h a)"

definition qrep_at :: "'d qstate \<Rightarrow> addr list \<Rightarrow> (int \<times> 'd) list \<Rightarrow> bool" where
  "qrep_at s as xs \<longleftrightarrow>
     lseg (nxt (heap s)) (front (queue s)) as None \<and> distinct as \<and>
     map (payload (heap s)) as = map Some xs \<and>
     rear (queue s) = (if as = [] then None else Some (last as)) \<and>
     queue_size (queue s) = int (length xs)"

definition qrep :: "'d qstate \<Rightarrow> (int \<times> 'd) list \<Rightarrow> bool" where
  "qrep s xs \<longleftrightarrow> (\<exists>as. qrep_at s as xs)"

lemma qrep_at_length: "qrep_at s as xs \<Longrightarrow> length as = length xs"
  unfolding qrep_at_def by (metis length_map)

lemma qrep_size: "qrep s xs \<Longrightarrow> queue_size (queue s) = int (length xs)"
  by (auto simp: qrep_def qrep_at_def)

lemma qrep_isEmpty: "qrep s xs \<Longrightarrow> isEmpty (queue s) \<longleftrightarrow> xs = []"
  by (simp add: isEmpty_def qrep_size)

lemma nxt_upd [simp]:
  "nxt (h(a \<mapsto> n)) = (nxt h)(a \<mapsto> next_node n)" "nxt (h(a := None)) = (nxt h)(a := None)"
  by (auto simp: nxt_def fun_eq_iff)

lemma payload_upd [simp]:
  "payload (h(a \<mapsto> n)) = (payload h)(a \<mapsto> (data n, arrival_time n))"
  "payload (h(a := None)) = (payload h)(a := None)"
  by (auto simp: payload_def fun_eq_iff)

lemma map_upd_other: "a \<notin> set as \<Longrightarrow> map (f(a := v)) as = map f as"
  by (induction as) auto

lemma lseg_upd_other: "a \<notin> set as \<Longrightarrow> lseg (f(a := v)) p as q = lseg f p as q"
  by (rule lseg_cong) auto

lemma nxt_Some_iff: "nxt h a = Some p \<longleftrightarrow> (\<exists>n. h a = Some n \<and> next_node n = p)"
  by (auto simp: nxt_def)

lemma payload_eq_node:
  "payload h a = Some (d, t) \<longleftrightarrow> (\<exists>n. h a = Some n \<and> data n = d \<and> arrival_time n = t)"
  by (auto simp: payload_def)

lemma createQueue_rep: "\<exists>s. createQueue (Some m) h = Inr s \<and> heap s = h \<and> qrep s []"
  by (auto simp: createQueue_def qrep_def qrep_at_def)

lemma enqueue_rep_at:
  assumes "qrep_at s as xs" and "heap s a = None" and "int (length xs) < 2 ^ 31 - 1"
  shows "\<exists>s'. enqueue (Some a) d t s = Inr s' \<and> qrep_at s' (as @ [a]) (xs @ [(d, t)])"
proof (cases as rule: rev_cases)
  case Nil
  with assms show ?thesis
    by (auto simp: enqueue_def Let_def isEmpty_def int_inc_def qrep_at_def)
next
  case (snoc bs b)
  have as: "distinct as" "lseg (nxt (heap s)) (front (queue s)) as None"
      "rear (queue s) = Some b" "map (payload (heap s)) as = map Some xs"
      "queue_size (queue s) = int (length xs)" "xs \<noteq> []"
    using assms(1) snoc by (auto simp: qrep_at_def)
  have a: "a \<notin> set as" using lseg_dom [OF as(2)] assms(2) by (auto simp: nxt_def)
  obtain r where r: "heap s b = Some r" "payload (heap s) b = Some (data r, arrival_time r)"
    using as(2) snoc by (auto simp: nxt_Some_iff payload_def)
  have nb: "b \<notin> set bs" "a \<noteq> b" "a \<notin> set bs" "distinct bs" using as(1) a snoc by auto
  have seg: "lseg (nxt (heap s)) (front (queue s)) bs (Some b)" using as(2) snoc by auto
  have pay: "map (payload (heap s)) bs @ [Some (data r, arrival_time r)] = map Some xs"
    using as(4) snoc r(2) by simp
  show ?thesis
    using as(3,5,6) r nb seg assms(3) snoc pay
    by (auto simp: enqueue_def Let_def isEmpty_def int_inc_def qrep_at_def deref_def
        lseg_upd_other map_upd_other)
qed

lemma dequeue_rep_at:
  assumes "qrep_at s (a # as) ((v, t) # xs)"
  shows "\<exists>s'. dequeue wa wd now s =
      Inr (s', v, (if wa then Some t else None), (if wd then Some (now - t) else None)) \<and>
    qrep_at s' as xs \<and> heap s' = (heap s)(a := None)"
proof -
  obtain n where n: "heap s a = Some n" "data n = v" "arrival_time n = t"
    using assms by (auto simp: qrep_at_def payload_eq_node)
  have "front (queue s) = Some a" "lseg (nxt (heap s)) (next_node n) as None" "a \<notin> set as"
    using assms n(1) by (auto simp: qrep_at_def nxt_Some_iff)
  moreover have "next_node n = None \<longleftrightarrow> as = []"
    using calculation(2) by (cases as) auto
  ultimately show ?thesis
    using assms n
    by (auto simp: dequeue_def Let_def isEmpty_def qrep_at_def lseg_upd_other map_upd_other)
qed

lemma dequeue_empty: "qrep s [] \<Longrightarrow> dequeue wa wd now s = Inr (s, -1, None, None)"
  by (simp add: dequeue_def Let_def qrep_isEmpty)

lemma walk_to_nth:
  assumes "lseg (nxt h) p as q" and "k < length as"
  shows "walk_to h p c (c + int k) = Some (Inr (Some (as ! k)))"
  using assms
proof (induction k arbitrary: p as c)
  case 0
  then show ?case by (subst walk_to.simps) (cases as, auto)
next
  case (Suc k)
  then obtain a bs where as: "as = a # bs" by (cases as) auto
  with Suc.prems(1) obtain n where n: "p = Some a" "h a = Some n" "lseg (nxt h) (next_node n) bs q"
    by (auto simp: nxt_Some_iff)
  have "walk_to h (next_node n) (c + 1) (c + 1 + int k) = Some (Inr (Some (bs ! k)))"
    using Suc.IH [OF n(3)] Suc.prems(2) as by simp
  then show ?case using n as by (subst walk_to.simps) (simp add: add.assoc)
qed

lemma unlink_after_rep_at:
  assumes "qrep_at s (as @ b # c # bs) xs" and "i = int (length as) + 2"
  shows "\<exists>s'. unlink_after (Some b) i s = Inr (s', fst (xs ! Suc (length as))) \<and>
    qrep_at s' (as @ b # bs) (take (Suc (length as)) xs @ drop (Suc (Suc (length as))) xs)"
proof -
  let ?k = "length as"
  have len: "length xs = Suc (Suc (?k + length bs))"
    using qrep_at_length [OF assms(1)] by simp
  then obtain ys y z zs where xs: "xs = ys @ y # z # zs" "length ys = ?k" "length zs = length bs"
    by (rule split_at_two)
  have pay: "map (payload (heap s)) as = map Some ys" "payload (heap s) b = Some y"
      "payload (heap s) c = Some z" "map (payload (heap s)) bs = map Some zs"
    using assms(1) xs by (auto simp: qrep_at_def)
  have d: "distinct (as @ b # c # bs)" "rear (queue s) = Some (last (c # bs))"
      "queue_size (queue s) = int (length xs)"
    using assms(1) by (auto simp: qrep_at_def)
  obtain bn cn where n: "heap s b = Some bn" "heap s c = Some cn" "next_node bn = Some c"
      and seg: "lseg (nxt (heap s)) (front (queue s)) as (Some b)" "lseg (nxt (heap s)) (next_node cn) bs None"
    using assms(1) by (auto simp: qrep_at_def nxt_Some_iff)
  have at_end: "i = queue_size (queue s) \<longleftrightarrow> bs = []" using assms(2) d(3) len by auto
  have data: "data cn = fst z" "(data bn, arrival_time bn) = y"
    using pay(2,3) n by (auto simp: payload_def)
  show ?thesis using n d seg pay data xs assms(2) at_end
    by (auto simp: unlink_after_def Let_def qrep_at_def lseg_upd_other map_upd_other nth_append)
qed

lemma dequeue_i_first:
  assumes "qrep_at s (a # as) ((v, t) # xs)"
  shows "\<exists>s'. dequeue_i 1 s = Some (Inr (s', v)) \<and> qrep_at s' as xs \<and> heap s' = heap s"
proof -
  obtain n where n: "heap s a = Some n" "data n = v"
    using assms by (auto simp: qrep_at_def payload_eq_node)
  have "front (queue s) = Some a" "lseg (nxt (heap s)) (next_node n) as None"
    using assms n(1) by (auto simp: qrep_at_def nxt_Some_iff)
  then show ?thesis using assms n qrep_at_length [OF assms]
    by (auto simp: dequeue_i_def Let_def qrep_at_def)
qed

lemma dequeue_i_rep_at:
  assumes rep: "qrep_at s as xs" and "1 \<le> i" and "i \<le> int (length xs)"
  shows "\<exists>s' as'. dequeue_i i s = Some (Inr (s', fst (xs ! (nat i - 1)))) \<and>
    qrep_at s' as' (take (nat i - 1) xs @ drop (nat i) xs)"
proof (cases "i = 1")
  case True
  with assms(3) obtain v t ys where xs: "xs = (v, t) # ys" by (cases xs) auto
  then obtain b bs where "as = b # bs" using qrep_at_length [OF rep] by (cases as) auto
  with rep xs dequeue_i_first show ?thesis using True by fastforce
next
  case False
  define k where "k = nat i - 2"
  have i: "i = int k + 2" "nat i = Suc (Suc k)" using False assms(2) by (auto simp: k_def)
  have len: "length as = length xs" by (rule qrep_at_length [OF rep])
  have "length as = Suc (Suc (k + (length xs - Suc (Suc k))))" using len i assms(3) by simp
  then obtain ys b c bs where as: "as = ys @ b # c # bs" "length ys = k"
    by (rule split_at_two)
  have seg: "lseg (nxt (heap s)) (front (queue s)) as None"
    and q: "queue_size (queue s) = int (length xs)"
    using rep by (auto simp: qrep_at_def)
  have walk: "walk_to (heap s) (front (queue s)) 1 (1 + int k) = Some (Inr (Some b))"
    using walk_to_nth [OF seg, of k 1] as by (simp add: nth_append)
  obtain s' where s': "unlink_after (Some b) i s = Inr (s', fst (xs ! Suc k))"
      "qrep_at s' (ys @ b # bs) (take (Suc k) xs @ drop (Suc (Suc k)) xs)"
    using unlink_after_rep_at [of s ys b c bs xs i] rep as i by auto
  have "i - 1 = 1 + int k" "\<not> i > queue_size (queue s)" using i q assms(3) by simp_all
  then have "dequeue_i i s = Some (Inr (s', fst (xs ! Suc k)))"
    using walk s'(1) False by (simp add: dequeue_i_def Let_def)
  with s'(2) show ?thesis using i by auto
qed

section \<open>The interface the server relies on\<close>

text \<open>A script of queue operations, its outputs, and the list machine that specifies it.\<close>

datatype ('p, 'd) qop = Enq 'p int 'd | Deq bool bool 'd | Deq_i int

datatype 'd qout = Stored | Got int "'d option" "'d option" | Got_i int

fun lstep :: "(int \<times> 'd::minus) list \<Rightarrow> ('p, 'd) qop \<Rightarrow> (int \<times> 'd) list \<times> 'd qout" where
  "lstep xs (Enq p v t) = (xs @ [(v, t)], Stored)"
| "lstep [] (Deq wa wd now) = ([], Got (-1) None None)"
| "lstep ((v, t) # xs) (Deq wa wd now) =
     (xs, Got v (if wa then Some t else None) (if wd then Some (now - t) else None))"
| "lstep xs (Deq_i i) =
     (if i > int (length xs) then (xs, Got_i (-1))
      else (take (nat i - 1) xs @ drop (nat i) xs, Got_i (fst (xs ! (nat i - 1)))))"

fun lrun :: "(int \<times> 'd::minus) list \<Rightarrow> ('p, 'd) qop list \<Rightarrow> (int \<times> 'd) list \<times> 'd qout list" where
  "lrun xs [] = (xs, [])"
| "lrun xs (op # ops) =
     (let (xs', out) = lstep xs op; (xs'', outs) = lrun xs' ops in (xs'', out # outs))"

type_synonym ('s, 'p, 'd) enq_op = "'p \<Rightarrow> int \<Rightarrow> 'd \<Rightarrow> 's \<Rightarrow> 's res"
type_synonym ('s, 'd) deq_op = "bool \<Rightarrow> bool \<Rightarrow> 'd \<Rightarrow> 's \<Rightarrow> ('s \<times> int \<times> 'd option \<times> 'd option) res"
type_synonym 's deq_i_op = "int \<Rightarrow> 's \<Rightarrow> ('s \<times> int) res option"

fun qstep ::
    "('s, 'p, 'd) enq_op \<Rightarrow> ('s, 'd) deq_op \<Rightarrow> 's deq_i_op \<Rightarrow> 's \<Rightarrow> ('p, 'd) qop \<Rightarrow> ('s \<times> 'd qout) res option" where
  "qstep enq deq deq_i s (Enq p v t) = Some (rbind (enq p v t s) (\<lambda>s'. Inr (s', Stored)))"
| "qstep enq deq deq_i s (Deq wa wd now) =
     Some (rbind (deq wa wd now s) (\<lambda>(s', v, a, d). Inr (s', Got v a d)))"
| "qstep enq deq deq_i s (Deq_i i) =
     map_option (\<lambda>r. rbind r (\<lambda>(s', v). Inr (s', Got_i v))) (deq_i i s)"

fun qrun ::
    "('s, 'p, 'd) enq_op \<Rightarrow> ('s, 'd) deq_op \<Rightarrow> 's deq_i_op \<Rightarrow> 's \<Rightarrow> ('p, 'd) qop list \<Rightarrow>
     ('s \<times> 'd qout list) res option" where
  "qrun enq deq deq_i s [] = Some (Inr (s, []))"
| "qrun enq deq deq_i s (op # ops) =
     (case qstep enq deq deq_i s op of
        Some (Inr (s', out)) \<Rightarrow>
          map_option (\<lambda>r. rbind r (\<lambda>(s'', outs). Inr (s'', out # outs))) (qrun enq deq deq_i s' ops)
      | Some (Inl e) \<Rightarrow> Some (Inl e)
      | None \<Rightarrow> None)"

text \<open>
  What the environment owes the queue along a run: \<open>malloc\<close> hands out blocks that are not
  in use, and positions start at 1.
\<close>

fun op_ok :: "('s \<Rightarrow> 'p \<Rightarrow> bool) \<Rightarrow> 's \<Rightarrow> ('p, 'd) qop \<Rightarrow> bool" where
  "op_ok fresh s (Enq p v t) = fresh s p"
| "op_ok fresh s (Deq wa wd now) = True"
| "op_ok fresh s (Deq_i i) = (1 \<le> i)"

fun trace_ok ::
    "('s \<Rightarrow> 'p \<Rightarrow> bool) \<Rightarrow> ('s, 'p, 'd) enq_op \<Rightarrow> ('s, 'd) deq_op \<Rightarrow> 's deq_i_op \<Rightarrow> 's \<Rightarrow>
     ('p, 'd) qop list \<Rightarrow> bool" where
  "trace_ok fresh enq deq deq_i s [] = True"
| "trace_ok fresh enq deq deq_i s (op # ops) = (op_ok fresh s op \<and>
     (case qstep enq deq deq_i s op of
        Some (Inr (s', out)) \<Rightarrow> trace_ok fresh enq deq deq_i s' ops
      | _ \<Rightarrow> True))"

locale conn_queue =
  fixes rep :: "'s \<Rightarrow> (int \<times> 'd::minus) list \<Rightarrow> bool"
    and fresh :: "'s \<Rightarrow> 'p \<Rightarrow> bool"
    and enq :: "('s, 'p, 'd) enq_op"
    and deq :: "('s, 'd) deq_op"
    and deq_i :: "'s deq_i_op"
  assumes enq_law: "rep s xs \<Longrightarrow> fresh s p \<Longrightarrow> int (length xs) < 2 ^ 31 - 1 \<Longrightarrow>
        \<exists>s'. enq p v t s = Inr s' \<and> rep s' (xs @ [(v, t)])"
    and deq_law: "rep s ((v, t) # xs) \<Longrightarrow>
        \<exists>s'. deq wa wd now s =
          Inr (s', v, (if wa then Some t else None), (if wd then Some (now - t) else None)) \<and> rep s' xs"
    and deq_empty_law: "rep s [] \<Longrightarrow> deq wa wd now s = Inr (s, -1, None, None)"
    and deq_i_law: "rep s xs \<Longrightarrow> 1 \<le> i \<Longrightarrow> i \<le> int (length xs) \<Longrightarrow>
        \<exists>s'. deq_i i s = Some (Inr (s', fst (xs ! (nat i - 1)))) \<and>
          rep s' (take (nat i - 1) xs @ drop (nat i) xs)"
    and deq_i_beyond_law: "rep s xs \<Longrightarrow> i > int (length xs) \<Longrightarrow> deq_i i s = Some (Inr (s, -1))"
begin

lemma step_refines:
  assumes "rep s xs" and "op_ok fresh s op" and "int (length xs) < 2 ^ 31 - 1"
  shows "\<exists>s'. qstep enq deq deq_i s op = Some (Inr (s', snd (lstep xs op))) \<and> rep s' (fst (lstep xs op))"
proof (cases op)
  case (Enq p v t)
  with enq_law [OF assms(1) _ assms(3), of p v t] assms(2) show ?thesis by auto
next
  case (Deq wa wd now)
  show ?thesis
  proof (cases xs)
    case Nil
    then show ?thesis using Deq assms(1) deq_empty_law by simp
  next
    case (Cons x ys)
    then show ?thesis using Deq assms(1) deq_law [of s "fst x" "snd x" ys wa wd now]
      by (cases x) auto
  qed
next
  case (Deq_i i)
  show ?thesis
  proof (cases "i > int (length xs)")
    case True
    then show ?thesis using Deq_i assms(1) deq_i_beyond_law by simp
  next
    case False
    then show ?thesis using Deq_i assms(1,2) deq_i_law [of s xs i] by auto
  qed
qed

lemma lstep_length: "length (fst (lstep xs op)) \<le> Suc (length xs)"
  by (cases "(xs, op)" rule: lstep.cases) auto

lemma run_refines:
  assumes "rep s xs" and "trace_ok fresh enq deq deq_i s ops"
    and "int (length xs + length ops) < 2 ^ 31"
  shows "\<exists>s'. qrun enq deq deq_i s ops = Some (Inr (s', snd (lrun xs ops))) \<and> rep s' (fst (lrun xs ops))"
  using assms
proof (induction ops arbitrary: s xs)
  case Nil
  then show ?case by simp
next
  case (Cons op ops)
  from step_refines [of s xs op] Cons.prems obtain s' where
    s': "qstep enq deq deq_i s op = Some (Inr (s', snd (lstep xs op)))" "rep s' (fst (lstep xs op))"
    by auto
  moreover have "trace_ok fresh enq deq deq_i s' ops" using Cons.prems(2) s'(1) by simp
  moreover have "int (length (fst (lstep xs op)) + length ops) < 2 ^ 31"
    using Cons.prems(3) lstep_length [of xs op] by simp
  ultimately show ?case using Cons.IH by (fastforce simp: case_prod_unfold Let_def)
qed

end

definition fresh_block :: "'d qstate \<Rightarrow> addr option \<Rightarrow> bool" where
  "fresh_block s p \<longleftrightarrow> (\<exists>a. p = Some a \<and> heap s a = None)"

interpretation cq: conn_queue qrep fresh_block enqueue dequeue dequeue_i
proof (unfold_locales, goal_cases)
  case (1 s xs p v t)
  then obtain as a where "qrep_at s as xs" "p = Some a" "heap s a = None"
    by (auto simp: qrep_def fresh_block_def)
  with 1(3) enqueue_rep_at [of s as xs a v t] show ?case by (auto simp: qrep_def)
next
  case (2 s v t xs wa wd now)
  then obtain as where as: "qrep_at s as ((v, t) # xs)" by (auto simp: qrep_def)
  then obtain b bs where "as = b # bs" using qrep_at_length by (cases as) fastforce+
  with as show ?case using dequeue_rep_at [of s b bs v t xs wa wd now] by (auto simp: qrep_def)
next
  case (3 s wa wd now)
  then show ?case by (rule dequeue_empty)
next
  case (4 s xs i)
  then show ?case using dequeue_i_rep_at by (fastforce simp: qrep_def)
next
  case (5 s xs i)
  then show ?case by (simp add: dequeue_i_def Let_def qrep_size)
qed

section \<open>Properties\<close>

text \<open>
  Claim C10. Any script of enqueue, dequeue and dequeue-by-position calls on the heap returns
  exactly what a list would return, never touches memory it does not own, always ends, and
  leaves the heap representing the list's final contents.
\<close>

theorem queue_refines_list:
  assumes "qrep s xs" and "trace_ok fresh_block enqueue dequeue dequeue_i s ops"
    and "int (length xs + length ops) < 2 ^ 31"
  shows "\<exists>s'. qrun enqueue dequeue dequeue_i s ops = Some (Inr (s', snd (lrun xs ops))) \<and>
      qrep s' (fst (lrun xs ops))"
  using assms by (rule cq.run_refines)

definition demo_queue :: "int qstate" where
  "demo_queue = \<lparr>heap = Map.empty, queue = \<lparr>front = None, rear = None, queue_size = 0\<rparr>\<rparr>"

definition demo_ops :: "(addr option, int) qop list" where
  "demo_ops = [Enq (Some 8) 4 100, Enq (Some 9) 5 101, Enq (Some 7) 6 102, Deq_i 2,
     Deq True True 110, Enq (Some 9) 7 103, Deq False False 0, Deq True False 0, Deq True True 0]"

lemma demo_queue_rep: "qrep demo_queue []"
  by (simp add: qrep_def qrep_at_def demo_queue_def)

lemma demo_ops_ok: "trace_ok fresh_block enqueue dequeue dequeue_i demo_queue demo_ops"
  by (simp add: demo_ops_def demo_queue_def fresh_block_def enqueue_def dequeue_def dequeue_i_def
      isEmpty_def int_inc_def Let_def walk_to.simps unlink_after_def deref_def)

theorem queue_refines_list_witness:
  "\<exists>s'. qrun enqueue dequeue dequeue_i demo_queue demo_ops =
     Some (Inr (s', [Stored, Stored, Stored, Got_i 5, Got 4 (Some 100) (Some 10), Stored,
       Got 6 None None, Got 7 (Some 103) None, Got (-1) None None])) \<and> qrep s' []"
  using queue_refines_list [OF demo_queue_rep demo_ops_ok]
  by (simp add: demo_ops_def numeral_2_eq_2)

text \<open>
  \<open>dequeue_i\<close> at position 1 unlinks the first node without freeing it: after the
  call no pointer of the queue leads to its block, and the block is still allocated.
\<close>

theorem dequeue_i_first_leaks:
  assumes "qrep_at s (a # as) (x # xs)"
  shows "\<exists>s' n. dequeue_i 1 s = Some (Inr (s', fst x)) \<and> qrep_at s' as xs \<and>
      a \<notin> set as \<and> heap s' a = Some n"
proof -
  obtain s' where s': "dequeue_i 1 s = Some (Inr (s', fst x))" "qrep_at s' as xs" "heap s' = heap s"
    using dequeue_i_first [of s a as "fst x" "snd x" xs] assms by auto
  moreover have "a \<notin> set as" "heap s a \<noteq> None"
    using assms by (auto simp: qrep_at_def nxt_def)
  ultimately show ?thesis by auto
qed

theorem dequeue_i_first_leaks_witness:
  "\<exists>s' n. dequeue_i 1 \<lparr>heap = [3 \<mapsto> \<lparr>data = 5, arrival_time = (1::int), next_node = None\<rparr>],
       queue = \<lparr>front = Some 3, rear = Some 3, queue_size = 1\<rparr>\<rparr> = Some (Inr (s', 5)) \<and> heap s' 3 = Some n"
  using dequeue_i_first_leaks
    [of "\<lparr>heap = [3 \<mapsto> \<lparr>data = 5, arrival_time = (1::int), next_node = None\<rparr>],
       queue = \<lparr>front = Some 3, rear = Some 3, queue_size = 1\<rparr>\<rparr>" 3 "[]" "(5, 1)" "[]"]
  by (auto simp: qrep_at_def nxt_def payload_def)

end
