(* ===== verification/SysWrap.thy ===== *)
theory SysWrap
  imports Prelude
begin

text \<open>
  The error-checking wrappers of hw3/wet/segel.c: each makes one system or library call and
  ends the process when it fails. The call itself is an argument (\<open>'a \<Rightarrow> int \<times> string\<close>: its
  return value and, for a failure, the text \<open>strerror (errno)\<close>); what a call writes through
  a pointer is a further component of its result.
\<close>

section \<open>Error functions\<close>

definition unix_error :: "string \<Rightarrow> string \<Rightarrow> 'a res" where
  "unix_error msg err = Inl (Exit 0 (msg @ '': '' @ err @ [LF]))"

definition posix_error :: "(int \<Rightarrow> string) \<Rightarrow> int \<Rightarrow> string \<Rightarrow> 'a res" where
  "posix_error strerror code msg = Inl (Exit 0 (msg @ '': '' @ strerror code @ [LF]))"

definition dns_error :: "string \<Rightarrow> int \<Rightarrow> 'a res" where
  "dns_error msg h_errno = Inl (Exit 0 (msg @ '': DNS error '' @ show_int h_errno @ [LF]))"

definition app_error :: "string \<Rightarrow> 'a res" where
  "app_error msg = Inl (Exit 0 (msg @ [LF]))"

section \<open>Processes and environment\<close>

definition Gethostname :: "(nat \<Rightarrow> int \<times> string \<times> string) \<Rightarrow> nat \<Rightarrow> (int \<times> string) res" where
  "Gethostname gethostname len =
     (let (rc, name, err) = gethostname len in
      if rc < 0 then unix_error ''Setenv error'' err else Inr (rc, name))"

definition Setenv :: "(string \<Rightarrow> string \<Rightarrow> int \<Rightarrow> int \<times> string) \<Rightarrow> string \<Rightarrow> string \<Rightarrow> int \<Rightarrow> int res" where
  "Setenv setenv name val overwrite =
     (let (rc, err) = setenv name val overwrite in
      if rc < 0 then unix_error ''Setenv error'' err else Inr rc)"

definition Fork :: "int \<times> string \<Rightarrow> int res" where
  "Fork fork = (let (pid, err) = fork in if pid < 0 then unix_error ''Fork error'' err else Inr pid)"

definition Execve ::
    "(string \<Rightarrow> string list \<Rightarrow> string list \<Rightarrow> int \<times> string) \<Rightarrow> string \<Rightarrow> string list \<Rightarrow> string list \<Rightarrow> unit res" where
  "Execve execve filename argv envp =
     (let (rc, err) = execve filename argv envp in
      if rc < 0 then unix_error ''Execve error'' err else Inr ())"

definition Wait :: "int \<times> int \<times> string \<Rightarrow> (int \<times> int) res" where
  "Wait wait = (let (pid, status, err) = wait in
     if pid < 0 then unix_error ''Wait error'' err else Inr (pid, status))"

definition WaitPid :: "(int \<Rightarrow> int \<Rightarrow> int \<times> int \<times> string) \<Rightarrow> int \<Rightarrow> int \<Rightarrow> (int \<times> int) res" where
  "WaitPid waitpid pid options = (let (pid', status, err) = waitpid pid options in
     if pid' < 0 then unix_error ''Wait error'' err else Inr (pid', status))"

section \<open>Files\<close>

definition Open :: "(string \<Rightarrow> int \<Rightarrow> int \<Rightarrow> int \<times> string) \<Rightarrow> string \<Rightarrow> int \<Rightarrow> int \<Rightarrow> int res" where
  "Open open_call pathname flags mode = (let (rc, err) = open_call pathname flags mode in
     if rc < 0 then unix_error ''Open error'' err else Inr rc)"

definition Read :: "(int \<Rightarrow> nat \<Rightarrow> int \<times> string \<times> string) \<Rightarrow> int \<Rightarrow> nat \<Rightarrow> (int \<times> string) res" where
  "Read read fd cnt = (let (rc, buf, err) = read fd cnt in
     if rc < 0 then unix_error ''Read error'' err else Inr (rc, buf))"

definition Write :: "(int \<Rightarrow> string \<Rightarrow> int \<times> string) \<Rightarrow> int \<Rightarrow> string \<Rightarrow> int res" where
  "Write write fd buf = (let (rc, err) = write fd buf in
     if rc < 0 then unix_error ''Write error'' err else Inr rc)"

definition Lseek :: "(int \<Rightarrow> int \<Rightarrow> int \<Rightarrow> int \<times> string) \<Rightarrow> int \<Rightarrow> int \<Rightarrow> int \<Rightarrow> int res" where
  "Lseek lseek fildes offset whence = (let (rc, err) = lseek fildes offset whence in
     if rc < 0 then unix_error ''Lseek error'' err else Inr rc)"

definition Close :: "(int \<Rightarrow> int \<times> string) \<Rightarrow> int \<Rightarrow> unit res" where
  "Close close_call fd = (let (rc, err) = close_call fd in
     if rc < 0 then unix_error ''Close error'' err else Inr ())"

definition Select :: "(int \<Rightarrow> 'fds \<Rightarrow> 'fds \<Rightarrow> 'fds \<Rightarrow> 'tv \<Rightarrow> int \<times> string) \<Rightarrow>
    int \<Rightarrow> 'fds \<Rightarrow> 'fds \<Rightarrow> 'fds \<Rightarrow> 'tv \<Rightarrow> int res" where
  "Select select n readfds writefds exceptfds timeout =
     (let (rc, err) = select n readfds writefds exceptfds timeout in
      if rc < 0 then unix_error ''Select error'' err else Inr rc)"

definition Dup2 :: "(int \<Rightarrow> int \<Rightarrow> int \<times> string) \<Rightarrow> int \<Rightarrow> int \<Rightarrow> int res" where
  "Dup2 dup2 fd1 fd2 = (let (rc, err) = dup2 fd1 fd2 in
     if rc < 0 then unix_error ''Dup2 error'' err else Inr rc)"

definition Stat :: "(string \<Rightarrow> int \<times> 'st \<times> string) \<Rightarrow> string \<Rightarrow> 'st res" where
  "Stat stat filename = (let (rc, buf, err) = stat filename in
     if rc < 0 then unix_error ''Stat error'' err else Inr buf)"

definition Fstat :: "(int \<Rightarrow> int \<times> 'st \<times> string) \<Rightarrow> int \<Rightarrow> 'st res" where
  "Fstat fstat fd = (let (rc, buf, err) = fstat fd in
     if rc < 0 then unix_error ''Fstat error'' err else Inr buf)"

text \<open>\<open>MAP_FAILED\<close>, \<open>(void *) -1\<close>, is the return value -1.\<close>

definition Mmap :: "(int \<Rightarrow> nat \<Rightarrow> int \<Rightarrow> int \<Rightarrow> int \<Rightarrow> int \<Rightarrow> int \<times> string) \<Rightarrow>
    int \<Rightarrow> nat \<Rightarrow> int \<Rightarrow> int \<Rightarrow> int \<Rightarrow> int \<Rightarrow> int res" where
  "Mmap mmap addr len prot flags fd offset =
     (let (p, err) = mmap addr len prot flags fd offset in
      if p = -1 then unix_error ''mmap error'' err else Inr p)"

definition Munmap :: "(int \<Rightarrow> nat \<Rightarrow> int \<times> string) \<Rightarrow> int \<Rightarrow> nat \<Rightarrow> unit res" where
  "Munmap munmap start len = (let (rc, err) = munmap start len in
     if rc < 0 then unix_error ''munmap error'' err else Inr ())"

section \<open>Sockets\<close>

record sockaddr_in =
  sin_family :: int
  sin_port :: nat
  s_addr :: nat

definition AF_INET :: int where "AF_INET = 2"
definition SOCK_STREAM :: int where "SOCK_STREAM = 1"
definition SOL_SOCKET :: int where "SOL_SOCKET = 1"
definition SO_REUSEADDR :: int where "SO_REUSEADDR = 2"
definition INADDR_ANY :: nat where "INADDR_ANY = 0"
definition LISTENQ :: int where "LISTENQ = 1024"

text \<open>Host to network byte order on a little-endian machine.\<close>

definition htons :: "int \<Rightarrow> nat" where
  "htons p = (let v = nat (p mod 65536) in (v mod 256) * 256 + v div 256)"

definition htonl :: "nat \<Rightarrow> nat" where
  "htonl v = ((v mod 256) * 256 + v div 256 mod 256) * 65536
     + (v div 65536 mod 256) * 256 + v div 16777216 mod 256"

record sockets =
  socket :: "int \<Rightarrow> int \<Rightarrow> int \<Rightarrow> int \<times> string"
  setsockopt :: "int \<Rightarrow> int \<Rightarrow> int \<Rightarrow> int \<Rightarrow> int \<times> string"
  bind_call :: "int \<Rightarrow> sockaddr_in \<Rightarrow> int \<times> string"
  listen :: "int \<Rightarrow> int \<Rightarrow> int \<times> string"
  accept :: "int \<Rightarrow> int \<times> sockaddr_in \<times> string"
  connect :: "int \<Rightarrow> sockaddr_in \<Rightarrow> int \<times> string"
  gethostbyname :: "string \<Rightarrow> nat option"
  gethostbyaddr :: "nat \<Rightarrow> string option"
  h_errno :: int

definition Socket :: "sockets \<Rightarrow> int \<Rightarrow> int \<Rightarrow> int \<Rightarrow> int res" where
  "Socket net domain ty protocol = (let (rc, err) = socket net domain ty protocol in
     if rc < 0 then unix_error ''Socket error'' err else Inr rc)"

definition Setsockopt :: "sockets \<Rightarrow> int \<Rightarrow> int \<Rightarrow> int \<Rightarrow> int \<Rightarrow> unit res" where
  "Setsockopt net s level optname optval = (let (rc, err) = setsockopt net s level optname optval in
     if rc < 0 then unix_error ''Setsockopt error'' err else Inr ())"

definition Bind :: "sockets \<Rightarrow> int \<Rightarrow> sockaddr_in \<Rightarrow> unit res" where
  "Bind net sockfd my_addr = (let (rc, err) = bind_call net sockfd my_addr in
     if rc < 0 then unix_error ''Bind error'' err else Inr ())"

definition Listen :: "sockets \<Rightarrow> int \<Rightarrow> int \<Rightarrow> unit res" where
  "Listen net s backlog = (let (rc, err) = listen net s backlog in
     if rc < 0 then unix_error ''Listen error'' err else Inr ())"

definition Accept :: "sockets \<Rightarrow> int \<Rightarrow> (int \<times> sockaddr_in) res" where
  "Accept net s = (let (rc, addr, err) = accept net s in
     if rc < 0 then unix_error ''Accept error'' err else Inr (rc, addr))"

definition Connect :: "sockets \<Rightarrow> int \<Rightarrow> sockaddr_in \<Rightarrow> unit res" where
  "Connect net sockfd serv_addr = (let (rc, err) = connect net sockfd serv_addr in
     if rc < 0 then unix_error ''Connect error'' err else Inr ())"

definition Gethostbyname :: "sockets \<Rightarrow> string \<Rightarrow> nat res" where
  "Gethostbyname net name = (case gethostbyname net name of
     None \<Rightarrow> dns_error ''Gethostbyname error'' (h_errno net) | Some p \<Rightarrow> Inr p)"

definition Gethostbyaddr :: "sockets \<Rightarrow> nat \<Rightarrow> string res" where
  "Gethostbyaddr net addr = (case gethostbyaddr net addr of
     None \<Rightarrow> dns_error ''Gethostbyaddr error'' (h_errno net) | Some p \<Rightarrow> Inr p)"

text \<open>
  The two helpers return a code, and the text \<open>strerror\<close> has for the call that failed.
\<close>

definition open_clientfd :: "sockets \<Rightarrow> string \<Rightarrow> int \<Rightarrow> int \<times> string" where
  "open_clientfd net hostname port =
     (let (clientfd, err) = socket net AF_INET SOCK_STREAM 0 in
      if clientfd < 0 then (-1, err)
      else (case gethostbyname net hostname of
         None \<Rightarrow> (-2, [])
       | Some h_addr \<Rightarrow>
           let serveraddr = \<lparr>sin_family = AF_INET, sin_port = htons port, s_addr = h_addr\<rparr>;
               (rc, err) = connect net clientfd serveraddr in
           if rc < 0 then (-1, err) else (clientfd, [])))"

definition open_listenfd :: "sockets \<Rightarrow> int \<Rightarrow> int \<times> string" where
  "open_listenfd net port =
     (let (listenfd, err) = socket net AF_INET SOCK_STREAM 0 in
      if listenfd < 0 then (-1, err)
      else let (rc, err) = setsockopt net listenfd SOL_SOCKET SO_REUSEADDR 1 in
      if rc < 0 then (-1, err)
      else let serveraddr = \<lparr>sin_family = AF_INET, sin_port = htons (port mod 65536), s_addr = htonl INADDR_ANY\<rparr>;
               (rc, err) = bind_call net listenfd serveraddr in
      if rc < 0 then (-1, err)
      else let (rc, err) = listen net listenfd LISTENQ in
      if rc < 0 then (-1, err)
      else (listenfd, []))"

definition Open_clientfd :: "sockets \<Rightarrow> string \<Rightarrow> int \<Rightarrow> int res" where
  "Open_clientfd net hostname port =
     (let (rc, err) = open_clientfd net hostname port in
      if rc < 0 then
        (if rc = -1 then unix_error ''Open_clientfd Unix error'' err
         else dns_error ''Open_clientfd DNS error'' (h_errno net))
      else Inr rc)"

definition Open_listenfd :: "sockets \<Rightarrow> int \<Rightarrow> int res" where
  "Open_listenfd net port =
     (let (rc, err) = open_listenfd net port in
      if rc < 0 then unix_error ''Open_listenfd error'' err else Inr rc)"

text \<open>
  \<open>Time_GetSeconds\<close>: \<open>of_sec\<close> converts to a double, \<open>add\<close> and \<open>div1e6\<close> are the double
  operations; \<open>timeval\<close> is what \<open>gettimeofday\<close> stored.
\<close>

definition Time_GetSeconds :: "(int \<Rightarrow> 'd) \<Rightarrow> ('d \<Rightarrow> 'd \<Rightarrow> 'd) \<Rightarrow> ('d \<Rightarrow> 'd) \<Rightarrow> int \<times> int \<Rightarrow> 'd" where
  "Time_GetSeconds of_sec add div1e6 timeval =
     (let (tv_sec, tv_usec) = timeval in add (of_sec tv_sec) (div1e6 (of_sec tv_usec)))"

section \<open>The contract of a wrapper\<close>

text \<open>
  A wrapper around a call with result \<open>raw\<close>: it returns exactly when the call did not fail,
  and otherwise ends the process with status 0 and the wrapper's own message.
\<close>

locale checked_call =
  fixes call :: "'a \<Rightarrow> 'r res"
    and raw :: "'a \<Rightarrow> int \<times> string"
    and val :: "'a \<Rightarrow> 'r"
    and msg :: string
  assumes call_law: "call x = (if fst (raw x) < 0 then unix_error msg (snd (raw x)) else Inr (val x))"
begin

lemma returns_iff: "(\<exists>v. call x = Inr v) \<longleftrightarrow> 0 \<le> fst (raw x)"
  by (auto simp: call_law unix_error_def)

lemma returned: "call x = Inr v \<Longrightarrow> 0 \<le> fst (raw x) \<and> v = val x"
  by (auto simp: call_law unix_error_def split: if_splits)

lemma stopped: "call x = Inl e \<Longrightarrow> fst (raw x) < 0 \<and> e = Exit 0 (msg @ '': '' @ snd (raw x) @ [LF])"
  by (auto simp: call_law unix_error_def split: if_splits)

end

interpretation close: checked_call "Close c" "c" "\<lambda>_. ()" "''Close error''" for c
  by unfold_locales (auto simp: Close_def case_prod_unfold Let_def)

interpretation fork: checked_call Fork id fst "''Fork error''"
  by unfold_locales (auto simp: Fork_def case_prod_unfold Let_def)

interpretation opens: checked_call
    "\<lambda>(p, f, m). Open c p f m" "\<lambda>(p, f, m). c p f m" "\<lambda>(p, f, m). fst (c p f m)" "''Open error''" for c
  by unfold_locales (auto simp: Open_def case_prod_unfold Let_def)

interpretation listenfd: checked_call
    "Open_listenfd net" "open_listenfd net" "\<lambda>p. fst (open_listenfd net p)" "''Open_listenfd error''" for net
  by unfold_locales (auto simp: Open_listenfd_def case_prod_unfold Let_def)

text \<open>
  Claim C25. \<open>Open_listenfd\<close> returns a descriptor exactly when the socket was created, made
  reusable, bound to the port modulo \<open>2 ^ 16\<close> on every address, and put in the listening
  state, and it returns that socket's own descriptor.
\<close>

theorem Open_listenfd_correct:
  "Open_listenfd net port = Inr fd \<longleftrightarrow>
     fd = fst (socket net AF_INET SOCK_STREAM 0) \<and> 0 \<le> fd \<and>
     0 \<le> fst (setsockopt net fd SOL_SOCKET SO_REUSEADDR 1) \<and>
     0 \<le> fst (bind_call net fd \<lparr>sin_family = AF_INET, sin_port = htons port, s_addr = 0\<rparr>) \<and>
     0 \<le> fst (listen net fd LISTENQ)"
proof -
  have p: "htons (port mod 65536) = htons port" "htonl INADDR_ANY = 0"
    by (simp_all add: htons_def htonl_def INADDR_ANY_def)
  have "Open_listenfd net port = Inr fd \<longleftrightarrow> 0 \<le> fst (open_listenfd net port) \<and> fd = fst (open_listenfd net port)"
    using listenfd.returned listenfd.returns_iff by (metis sum.inject(2))
  then show ?thesis
    by (auto simp: open_listenfd_def case_prod_unfold Let_def p)
qed

end
