(* ===== verification/Rio.thy ===== *)
theory Rio
  imports SysWrap
begin

text \<open>
  The robust I/O package of hw3/wet/segel.c. The descriptor is a script of what the kernel's
  \<open>read\<close> and \<open>write\<close> calls will do: any mixture of short transfers, interruptions and
  errors, in any order; an exhausted input script is the end of the file, an exhausted output
  script accepts everything.
\<close>

section \<open>The descriptor\<close>

definition EINTR :: int where "EINTR = 4"

datatype read_ev = Data string | Read_err int

datatype rd = Bytes string | Rd_err int

fun os_read :: "nat \<Rightarrow> read_ev list \<Rightarrow> rd \<times> read_ev list" where
  "os_read n [] = (Bytes [], [])"
| "os_read n (Data bs # evs) =
     (Bytes (take n bs), if length bs \<le> n then evs else Data (drop n bs) # evs)"
| "os_read n (Read_err e # evs) = (Rd_err e, evs)"

datatype write_ev = Takes nat | Write_err int

text \<open>The number of bytes written (or -1), the value of \<open>errno\<close> afterwards, the rest.\<close>

fun os_write :: "nat \<Rightarrow> int \<Rightarrow> write_ev list \<Rightarrow> int \<times> int \<times> write_ev list" where
  "os_write n errno [] = (int n, errno, [])"
| "os_write n errno (Takes k # evs) = (int (min k n), errno, evs)"
| "os_write n errno (Write_err e # evs) = (-1, e, evs)"

lemma os_read_length: "os_read n evs = (r, evs') \<Longrightarrow> length evs' \<le> length evs"
  by (cases "(n, evs)" rule: os_read.cases) (auto split: if_splits)

lemma os_read_err_length: "os_read n evs = (Rd_err e, evs') \<Longrightarrow> length evs' < length evs"
  by (cases "(n, evs)" rule: os_read.cases) auto

lemma os_read_bytes: "os_read n evs = (Bytes bs, evs') \<Longrightarrow> length bs \<le> n"
  by (cases "(n, evs)" rule: os_read.cases) auto

section \<open>Unbuffered input and output\<close>

text \<open>
  The loop of \<open>rio_readn\<close>; the result is its return value, the bytes stored so far and the
  rest of the script.
\<close>

function rio_readn_loop :: "nat \<Rightarrow> nat \<Rightarrow> string \<Rightarrow> read_ev list \<Rightarrow> int \<times> string \<times> read_ev list" where
  "rio_readn_loop n nleft buf evs =
     (if nleft > 0 then
        (case os_read nleft evs of
           (Rd_err e, evs') \<Rightarrow>
             if e = EINTR then rio_readn_loop n nleft buf evs' else (-1, buf, evs')
         | (Bytes bs, evs') \<Rightarrow>
             if bs = [] then (int (n - nleft), buf, evs')
             else rio_readn_loop n (nleft - length bs) (buf @ bs) evs')
      else (int (n - nleft), buf, evs))"
  by pat_completeness auto
termination
proof (relation "measure (\<lambda>(n, nleft, buf, evs). nleft + length evs)", goal_cases)
  case 1
  then show ?case by simp
next
  case (2 n nleft buf evs x y bs)
  then have "length y \<le> length evs" using os_read_length [of nleft evs x y] by simp
  with 2 show ?case by (cases bs) auto
next
  case (3 n nleft buf evs x y e)
  then have "length y < length evs" using os_read_err_length [of nleft evs e y] by simp
  then show ?case by simp
qed

declare rio_readn_loop.simps [simp del]

definition rio_readn :: "nat \<Rightarrow> read_ev list \<Rightarrow> int \<times> string \<times> read_ev list" where
  "rio_readn n evs = rio_readn_loop n n [] evs"

text \<open>
  The loop of \<open>rio_writen\<close>: the bytes accepted so far, then those still to be written. A
  return of 0 from \<open>write\<close> is judged by the \<open>errno\<close> left from before.
\<close>

function rio_writen_loop ::
    "nat \<Rightarrow> string \<Rightarrow> string \<Rightarrow> int \<Rightarrow> write_ev list \<Rightarrow> int \<times> string \<times> write_ev list" where
  "rio_writen_loop n out left errno evs =
     (if left \<noteq> [] then
        (let (nwritten, errno', evs') = os_write (length left) errno evs in
         if nwritten \<le> 0 then
           (if errno' = EINTR then rio_writen_loop n out left errno' evs' else (-1, out, evs'))
         else rio_writen_loop n (out @ take (nat nwritten) left) (drop (nat nwritten) left) errno' evs')
      else (int n, out, evs))"
  by pat_completeness auto
termination
proof (relation "measure (\<lambda>(n, out, left, errno, evs). length left + length evs)", goal_cases)
  case 1
  then show ?case by simp
next
  case (2 n out left errno evs x nwritten y errno' evs')
  then show ?case by (cases "(length left, errno, evs)" rule: os_write.cases) auto
next
  case (3 n out left errno evs x nwritten y errno' evs')
  then show ?case by (cases "(length left, errno, evs)" rule: os_write.cases) auto
qed

declare rio_writen_loop.simps [simp del]

definition rio_writen :: "string \<Rightarrow> int \<Rightarrow> write_ev list \<Rightarrow> int \<times> string \<times> write_ev list" where
  "rio_writen usrbuf errno evs = rio_writen_loop (length usrbuf) [] usrbuf errno evs"

section \<open>Buffered input\<close>

definition RIO_BUFSIZE :: nat where "RIO_BUFSIZE = 8192"

record rio_t =
  rio_fd :: int
  rio_cnt :: int
  rio_bufptr :: nat
  rio_buf :: string

definition rio_readinitb :: "int \<Rightarrow> string \<Rightarrow> rio_t" where
  "rio_readinitb fd junk = \<lparr>rio_fd = fd, rio_cnt = 0, rio_bufptr = 0, rio_buf = junk\<rparr>"

text \<open>
  The refill loop of \<open>rio_read\<close>: \<open>Some\<close> of an early return value (with \<open>errno\<close> where it is
  -1), or \<open>None\<close> once the buffer holds unread bytes.
\<close>

function rio_refill :: "rio_t \<Rightarrow> read_ev list \<Rightarrow> (int \<times> int) option \<times> rio_t \<times> read_ev list" where
  "rio_refill rp evs =
     (if rio_cnt rp \<le> 0 then
        (case os_read RIO_BUFSIZE evs of
           (Rd_err e, evs') \<Rightarrow>
             let rp' = rp\<lparr>rio_cnt := -1\<rparr> in
             if e \<noteq> EINTR then (Some (-1, e), rp', evs') else rio_refill rp' evs'
         | (Bytes bs, evs') \<Rightarrow>
             if bs = [] then (Some (0, 0), rp\<lparr>rio_cnt := 0\<rparr>, evs')
             else (None, rp\<lparr>rio_cnt := int (length bs), rio_bufptr := 0, rio_buf := bs\<rparr>, evs'))
      else (None, rp, evs))"
  by pat_completeness auto
termination
  by (relation "measure (\<lambda>(rp, evs). length evs)")
     (auto dest!: sym [of "(_, _)"] dest: os_read_err_length)

declare rio_refill.simps [simp del]

definition rio_read :: "rio_t \<Rightarrow> nat \<Rightarrow> read_ev list \<Rightarrow> int \<times> int \<times> string \<times> rio_t \<times> read_ev list" where
  "rio_read rp n evs =
     (case rio_refill rp evs of
        (Some (rc, errno), rp', evs') \<Rightarrow> (rc, errno, [], rp', evs')
      | (None, rp', evs') \<Rightarrow>
          let cnt = (if rio_cnt rp' < int n then nat (rio_cnt rp') else n) in
          (int cnt, 0, take cnt (drop (rio_bufptr rp') (rio_buf rp')),
           rp'\<lparr>rio_bufptr := rio_bufptr rp' + cnt, rio_cnt := rio_cnt rp' - int cnt\<rparr>, evs'))"

text \<open>
  The loop of \<open>rio_readlineb\<close>. The second component is the text now in the user's buffer,
  when the function terminated it; \<open>None\<close> when it returned without storing the final zero.
\<close>

function rio_readlineb_loop ::
    "nat \<Rightarrow> nat \<Rightarrow> string \<Rightarrow> rio_t \<Rightarrow> read_ev list \<Rightarrow> int \<times> string option \<times> rio_t \<times> read_ev list" where
  "rio_readlineb_loop n maxlen buf rp evs =
     (if n < maxlen then
        (let (rc, errno, c, rp', evs') = rio_read rp 1 evs in
         if rc = 1 then
           (if c = [LF] then (int n, Some (buf @ c), rp', evs')
            else rio_readlineb_loop (Suc n) maxlen (buf @ c) rp' evs')
         else if rc = 0 then
           (if n = 1 then (0, None, rp', evs') else (int n, Some buf, rp', evs'))
         else (-1, None, rp', evs'))
      else (int n, Some buf, rp, evs))"
  by pat_completeness auto
termination
  by (relation "measure (\<lambda>(n, maxlen, buf, rp, evs). maxlen - n)") auto

declare rio_readlineb_loop.simps [simp del]

definition rio_readlineb :: "rio_t \<Rightarrow> nat \<Rightarrow> read_ev list \<Rightarrow> int \<times> string option \<times> rio_t \<times> read_ev list" where
  "rio_readlineb rp maxlen evs = rio_readlineb_loop 1 maxlen [] rp evs"

lemma rio_refill_length:
  "rio_refill rp evs = (r, rp', evs') \<Longrightarrow> length evs' \<le> length evs \<and>
     (\<forall>e. r = Some (-1, e) \<longrightarrow> length evs' < length evs)"
proof (induction rp evs rule: rio_refill.induct)
  case (1 rp evs)
  obtain x evs1 where x: "os_read RIO_BUFSIZE evs = (x, evs1)" by fastforce
  have l: "length evs1 \<le> length evs" using os_read_length [OF x] .
  show ?case
  proof (cases "rio_cnt rp \<le> 0")
    case False
    then show ?thesis using 1(2) by (auto simp: rio_refill.simps [of rp evs])
  next
    case True
    show ?thesis
    proof (cases x)
      case (Bytes bs)
      then show ?thesis using 1(2) x True l by (auto simp: rio_refill.simps [of rp evs] split: if_splits)
    next
      case (Rd_err e)
      have "length evs1 < length evs" using os_read_err_length x Rd_err by simp
      moreover have "e = EINTR \<Longrightarrow> rio_refill (rp\<lparr>rio_cnt := -1\<rparr>) evs1 = (r, rp', evs') \<Longrightarrow>
          length evs' \<le> length evs1 \<and> (\<forall>e. r = Some (-1, e) \<longrightarrow> length evs' < length evs1)"
        using 1(1) [OF True x [symmetric] Rd_err refl] by simp
      ultimately show ?thesis using 1(2) x True Rd_err
        by (auto simp: rio_refill.simps [of rp evs] Let_def split: if_splits)
    qed
  qed
qed

lemma rio_read_length:
  assumes "rio_read rp n evs = (rc, errno, bs, rp', evs')"
  shows "length evs' \<le> length evs" and "rc < 0 \<Longrightarrow> length evs' < length evs"
proof -
  obtain r rp1 evs1 where r: "rio_refill rp evs = (r, rp1, evs1)" by (metis prod_cases3)
  have e: "evs' = evs1" using assms r by (auto simp: rio_read_def Let_def split: option.splits)
  show "length evs' \<le> length evs" using rio_refill_length [OF r] e by simp
  assume "rc < 0"
  then have "r = Some (-1, errno) \<or> (\<exists>q. r = Some (rc, q))"
    using assms r by (auto simp: rio_read_def Let_def split: option.splits)
  moreover have "\<And>q q'. r = Some (q, q') \<Longrightarrow> q = 0 \<or> q = -1"
    using r by (induction rp evs rule: rio_refill.induct)
      (auto simp: rio_refill.simps Let_def split: if_splits rd.splits prod.splits)
  ultimately show "length evs' < length evs" using rio_refill_length [OF r] e \<open>rc < 0\<close> by fastforce
qed

function rio_readnb_loop ::
    "nat \<Rightarrow> nat \<Rightarrow> string \<Rightarrow> rio_t \<Rightarrow> read_ev list \<Rightarrow> int \<times> string \<times> rio_t \<times> read_ev list" where
  "rio_readnb_loop n nleft buf rp evs =
     (if nleft > 0 then
        (let (nread, errno, bs, rp', evs') = rio_read rp nleft evs in
         if nread < 0 then
           (if errno = EINTR then rio_readnb_loop n nleft buf rp' evs' else (-1, buf, rp', evs'))
         else if nread = 0 then (int (n - nleft), buf, rp', evs')
         else rio_readnb_loop n (nleft - nat nread) (buf @ bs) rp' evs')
      else (int (n - nleft), buf, rp, evs))"
  by pat_completeness auto
termination
proof (relation "measure (\<lambda>(n, nleft, buf, rp, evs). nleft + length evs)", goal_cases)
  case 1
  then show ?case by simp
next
  case (2 n nleft buf rp evs x nread y errno z bs u rp' evs')
  then have "rio_read rp nleft evs = (nread, errno, bs, rp', evs')" by simp
  from rio_read_length(2) [OF this] 2 show ?case by auto
next
  case (3 n nleft buf rp evs x nread y errno z bs u rp' evs')
  then have "rio_read rp nleft evs = (nread, errno, bs, rp', evs')" by simp
  from rio_read_length(1) [OF this] 3 show ?case by auto
qed

declare rio_readnb_loop.simps [simp del]

definition rio_readnb :: "rio_t \<Rightarrow> nat \<Rightarrow> read_ev list \<Rightarrow> int \<times> string \<times> rio_t \<times> read_ev list" where
  "rio_readnb rp n evs = rio_readnb_loop n n [] rp evs"

section \<open>Checked wrappers\<close>

definition Rio_readn :: "string \<Rightarrow> nat \<Rightarrow> read_ev list \<Rightarrow> (int \<times> string \<times> read_ev list) res" where
  "Rio_readn err nbytes evs = (let (n, buf, evs') = rio_readn nbytes evs in
     if n < 0 then unix_error ''Rio_readn error'' err else Inr (n, buf, evs'))"

definition Rio_writen :: "string \<Rightarrow> string \<Rightarrow> int \<Rightarrow> write_ev list \<Rightarrow> (string \<times> write_ev list) res" where
  "Rio_writen err usrbuf errno evs = (let (rc, out, evs') = rio_writen usrbuf errno evs in
     if rc \<noteq> int (length usrbuf) then unix_error ''Rio_writen error'' err else Inr (out, evs'))"

definition Rio_readinitb :: "int \<Rightarrow> string \<Rightarrow> rio_t" where
  "Rio_readinitb fd junk = rio_readinitb fd junk"

definition Rio_readnb :: "string \<Rightarrow> rio_t \<Rightarrow> nat \<Rightarrow> read_ev list \<Rightarrow> (int \<times> string \<times> rio_t \<times> read_ev list) res" where
  "Rio_readnb err rp n evs = (let (rc, buf, rp', evs') = rio_readnb rp n evs in
     if rc < 0 then unix_error ''Rio_readnb error'' err else Inr (rc, buf, rp', evs'))"

definition Rio_readlineb ::
    "string \<Rightarrow> rio_t \<Rightarrow> nat \<Rightarrow> read_ev list \<Rightarrow> (int \<times> string option \<times> rio_t \<times> read_ev list) res" where
  "Rio_readlineb err rp maxlen evs = (let (rc, buf, rp', evs') = rio_readlineb rp maxlen evs in
     if rc < 0 then unix_error ''Rio_readlineb error'' err else Inr (rc, buf, rp', evs'))"

section \<open>The byte stream behind a script\<close>

text \<open>
  A script without a hard error: data chunks and interruptions only. Its stream is what a
  reader can get in all; \<open>avail\<close> adds what the internal buffer still holds.
\<close>

fun steady_ev :: "read_ev \<Rightarrow> bool" where
  "steady_ev (Data bs) = (bs \<noteq> [])"
| "steady_ev (Read_err e) = (e = EINTR)"

definition steady :: "read_ev list \<Rightarrow> bool" where
  "steady evs \<longleftrightarrow> list_all steady_ev evs"

fun bytes_of :: "read_ev list \<Rightarrow> string" where
  "bytes_of [] = []"
| "bytes_of (Data bs # evs) = bs @ bytes_of evs"
| "bytes_of (Read_err e # evs) = bytes_of evs"

definition rio_ok :: "rio_t \<Rightarrow> bool" where
  "rio_ok rp \<longleftrightarrow> (0 < rio_cnt rp \<longrightarrow> rio_cnt rp = int (length (drop (rio_bufptr rp) (rio_buf rp))))"

definition avail :: "rio_t \<Rightarrow> read_ev list \<Rightarrow> string" where
  "avail rp evs = (if 0 < rio_cnt rp then drop (rio_bufptr rp) (rio_buf rp) else []) @ bytes_of evs"

lemma steady_simps [simp]:
  "steady []" "steady (Data bs # evs) \<longleftrightarrow> bs \<noteq> [] \<and> steady evs"
  "steady (Read_err e # evs) \<longleftrightarrow> e = EINTR \<and> steady evs"
  by (simp_all add: steady_def)

lemma rio_readinitb_stream [simp]:
  "rio_ok (rio_readinitb d junk)" "avail (rio_readinitb d junk) evs = bytes_of evs"
  by (simp_all add: rio_readinitb_def rio_ok_def avail_def)

lemma os_read_steady:
  assumes "steady evs" and "0 < n"
  shows "\<exists>evs'. steady evs' \<and> length evs' \<le> length evs \<and>
     ((evs = [] \<and> os_read n evs = (Bytes [], evs') \<and> evs' = []) \<or>
      (os_read n evs = (Rd_err EINTR, evs') \<and> bytes_of evs' = bytes_of evs) \<or>
      (\<exists>bs. bs \<noteq> [] \<and> length bs \<le> n \<and> os_read n evs = (Bytes bs, evs') \<and> bytes_of evs = bs @ bytes_of evs'))"
  using assms by (cases "(n, evs)" rule: os_read.cases) auto

lemma rio_refill_steady:
  assumes "steady evs" and "rio_ok rp"
  shows "\<exists>rp' evs'. steady evs' \<and> rio_ok rp' \<and> avail rp' evs' = avail rp evs \<and>
     rio_refill rp evs = (if avail rp evs = [] then Some (0, 0) else None, rp', evs') \<and>
     (avail rp evs \<noteq> [] \<longrightarrow> 0 < rio_cnt rp')"
  using assms
proof (induction rp evs rule: rio_refill.induct)
  case (1 rp evs)
  show ?case
  proof (cases "rio_cnt rp \<le> 0")
    case False
    then have "avail rp evs \<noteq> []" using "1.prems"(2) by (auto simp: avail_def rio_ok_def)
    with False show ?thesis using "1.prems" by (auto simp: rio_refill.simps [of rp evs])
  next
    case True
    obtain x evs1 where x: "os_read RIO_BUFSIZE evs = (x, evs1)" by fastforce
    from os_read_steady [OF "1.prems"(1), of RIO_BUFSIZE] x
    consider (eof) "evs = []" "x = Bytes []" "evs1 = []" |
      (intr) "x = Rd_err EINTR" "bytes_of evs1 = bytes_of evs" "steady evs1" |
      (some) bs where "x = Bytes bs" "bs \<noteq> []" "bytes_of evs = bs @ bytes_of evs1" "steady evs1"
      by (auto simp: RIO_BUFSIZE_def)
    then show ?thesis
    proof cases
      case eof
      have run: "rio_refill rp evs = (Some (0, 0), rp\<lparr>rio_cnt := 0\<rparr>, [])"
        using True x eof by (subst rio_refill.simps) simp
      show ?thesis unfolding run using eof True by (auto simp: avail_def rio_ok_def)
    next
      case intr
      have "rio_ok (rp\<lparr>rio_cnt := -1\<rparr>)" by (simp add: rio_ok_def)
      from "1.IH" [OF True x [symmetric] intr(1) refl _ intr(3) this] show ?thesis
        using True x intr by (auto simp: rio_refill.simps [of rp evs] Let_def avail_def)
    next
      case some
      then show ?thesis using True x
        by (auto simp: rio_refill.simps [of rp evs] avail_def rio_ok_def)
    qed
  qed
qed

lemma rio_read_steady:
  assumes "steady evs" and "rio_ok rp" and "0 < n"
  shows "\<exists>bs rp' evs'. rio_read rp n evs = (int (length bs), 0, bs, rp', evs') \<and>
     steady evs' \<and> rio_ok rp' \<and> avail rp evs = bs @ avail rp' evs' \<and> length bs \<le> n \<and>
     (bs = [] \<longleftrightarrow> avail rp evs = [])"
proof -
  obtain rp1 evs1 where r: "steady evs1" "rio_ok rp1" "avail rp1 evs1 = avail rp evs"
      "rio_refill rp evs = (if avail rp evs = [] then Some (0, 0) else None, rp1, evs1)"
      "avail rp evs \<noteq> [] \<longrightarrow> 0 < rio_cnt rp1"
    using rio_refill_steady [OF assms(1,2)] by blast
  show ?thesis
  proof (cases "avail rp evs = []")
    case True
    then show ?thesis using r by (auto simp: rio_read_def)
  next
    case False
    let ?u = "drop (rio_bufptr rp1) (rio_buf rp1)"
    let ?k = "if rio_cnt rp1 < int n then nat (rio_cnt rp1) else n"
    have u: "rio_cnt rp1 = int (length ?u)" using r False by (auto simp: rio_ok_def)
    have k: "?k = min n (length ?u)" using u by auto
    have pos: "0 < length ?u" using r(5) False u by linarith
    have "rio_read rp n evs = (int ?k, 0, take ?k ?u,
        rp1\<lparr>rio_bufptr := rio_bufptr rp1 + ?k, rio_cnt := rio_cnt rp1 - int ?k\<rparr>, evs1)"
      using r(4) False by (simp add: rio_read_def Let_def)
    moreover have "avail (rp1\<lparr>rio_bufptr := rio_bufptr rp1 + ?k, rio_cnt := rio_cnt rp1 - int ?k\<rparr>) evs1
        = drop ?k ?u @ bytes_of evs1"
      unfolding k using u by (auto simp: avail_def add.commute)
    moreover have "rio_ok (rp1\<lparr>rio_bufptr := rio_bufptr rp1 + ?k, rio_cnt := rio_cnt rp1 - int ?k\<rparr>)"
      unfolding k using u by (auto simp: rio_ok_def)
    moreover have "avail rp evs = take ?k ?u @ drop ?k ?u @ bytes_of evs1"
    proof -
      have "avail rp evs = ?u @ bytes_of evs1" using r(3,5) False unfolding avail_def by simp
      also have "?u = take ?k ?u @ drop ?k ?u" by (rule append_take_drop_id [symmetric])
      finally show ?thesis by (simp only: append_assoc)
    qed
    ultimately show ?thesis using r(1) False pos assms(3) k
      by (intro exI conjI) (auto simp: min_def)
  qed
qed

section \<open>Properties\<close>

text \<open>The first line of a stream, newline included, cut at \<open>m\<close> bytes.\<close>

fun first_line :: "nat \<Rightarrow> string \<Rightarrow> string" where
  "first_line 0 bs = []"
| "first_line (Suc m) [] = []"
| "first_line (Suc m) (c # cs) = (if c = LF then [c] else c # first_line m cs)"

lemma first_line_Nil [simp]: "first_line m [] = []"
  by (cases m) auto

lemma first_line_length: "length (first_line m bs) \<le> m"
  by (induction m bs rule: first_line.induct) auto

lemma rio_readlineb_loop_steady:
  assumes "steady evs" and "rio_ok rp" and "1 \<le> n" and "n \<le> maxlen" and "n = 1 \<Longrightarrow> n < maxlen"
  shows "\<exists>rp' evs'. steady evs' \<and> rio_ok rp' \<and>
     avail rp evs = first_line (maxlen - n) (avail rp evs) @ avail rp' evs' \<and>
     rio_readlineb_loop n maxlen buf rp evs =
       (if n = 1 \<and> avail rp evs = [] then (0, None, rp', evs')
        else (let l = first_line (maxlen - n) (avail rp evs) in
              (int (n + length l) - (if l \<noteq> [] \<and> last l = LF then 1 else 0), Some (buf @ l), rp', evs')))"
  using assms
proof (induction "maxlen - n" arbitrary: n buf rp evs)
  case 0
  then show ?case by (subst rio_readlineb_loop.simps) auto
next
  case (Suc m)
  obtain bs rp1 evs1 where r: "rio_read rp 1 evs = (int (length bs), 0, bs, rp1, evs1)"
      "steady evs1" "rio_ok rp1" "avail rp evs = bs @ avail rp1 evs1" "length bs \<le> 1"
      "bs = [] \<longleftrightarrow> avail rp evs = []"
    using rio_read_steady [OF Suc.prems(1,2), of 1] by auto
  have lt: "n < maxlen" using Suc.hyps(2) by simp
  consider (eof) "bs = []" | (nl) "bs = [LF]" | (ch) c where "bs = [c]" "c \<noteq> LF"
    using r(5) by (cases bs) auto
  then show ?case
  proof cases
    case eof
    then have "rio_readlineb_loop n maxlen buf rp evs =
        (if n = 1 then (0, None, rp1, evs1) else (int n, Some buf, rp1, evs1))"
      using r(1) lt by (subst rio_readlineb_loop.simps) simp
    moreover have "avail rp evs = []" using eof r(6) by blast
    moreover from this have "avail rp1 evs1 = []" using r(4) by (metis append_is_Nil_conv)
    ultimately show ?thesis using r(2,3) by (intro exI [of _ rp1] exI [of _ evs1]) (simp add: Let_def)
  next
    case nl
    then have "rio_readlineb_loop n maxlen buf rp evs = (int n, Some (buf @ [LF]), rp1, evs1)"
      using r(1) lt by (subst rio_readlineb_loop.simps) simp
    moreover have "avail rp evs = LF # avail rp1 evs1" using nl r(4) by simp
    ultimately show ?thesis using r(2,3) Suc.hyps(2) [symmetric]
      by (intro exI [of _ rp1] exI [of _ evs1]) (simp add: Let_def)
  next
    case ch
    then have run: "rio_readlineb_loop n maxlen buf rp evs = rio_readlineb_loop (Suc n) maxlen (buf @ [c]) rp1 evs1"
      using r(1) lt by (subst rio_readlineb_loop.simps) simp
    have m: "m = maxlen - Suc n" "maxlen - n = Suc m" using Suc.hyps(2) by simp_all
    obtain rp' evs' where "steady evs'" "rio_ok rp'"
        "avail rp1 evs1 = first_line m (avail rp1 evs1) @ avail rp' evs'"
        "rio_readlineb_loop (Suc n) maxlen (buf @ [c]) rp1 evs1 =
          (let l = first_line m (avail rp1 evs1) in
            (int (Suc n + length l) - (if l \<noteq> [] \<and> last l = LF then 1 else 0), Some ((buf @ [c]) @ l), rp', evs'))"
      using Suc.hyps(1) [OF m(1) r(2,3), of "buf @ [c]"] Suc.prems(3) lt m by auto
    moreover have "avail rp evs = c # avail rp1 evs1" using ch r(4) by simp
    ultimately show ?thesis using run ch(2) m(2)
      by (intro exI [of _ rp'] exI [of _ evs']) (simp add: Let_def)
  qed
qed

lemma rio_readlineb_stream:
  assumes "steady evs" and "rio_ok rp" and "1 < maxlen"
  shows "\<exists>rp' evs'. steady evs' \<and> rio_ok rp' \<and>
     avail rp evs = first_line (maxlen - 1) (avail rp evs) @ avail rp' evs' \<and>
     rio_readlineb rp maxlen evs =
       (if avail rp evs = [] then (0, None, rp', evs')
        else (let l = first_line (maxlen - 1) (avail rp evs) in
              (int (length l) + (if last l = LF then 0 else 1), Some l, rp', evs')))"
proof -
  have ne: "first_line (maxlen - 1) (avail rp evs) \<noteq> []" if "avail rp evs \<noteq> []"
    using that assms(3) by (cases "(maxlen - 1, avail rp evs)" rule: first_line.cases) auto
  obtain rp' evs' where "steady evs'" "rio_ok rp'"
      "avail rp evs = first_line (maxlen - 1) (avail rp evs) @ avail rp' evs'"
      "rio_readlineb_loop 1 maxlen [] rp evs =
       (if avail rp evs = [] then (0, None, rp', evs')
        else (let l = first_line (maxlen - 1) (avail rp evs) in
              (int (1 + length l) - (if l \<noteq> [] \<and> last l = LF then 1 else 0), Some l, rp', evs')))"
    using rio_readlineb_loop_steady [OF assms(1,2), of 1 maxlen "[]"] assms(3) by auto
  with ne show ?thesis
    by (intro exI [of _ rp'] exI [of _ evs']) (simp add: rio_readlineb_def Let_def)
qed

text \<open>
  Claim C21. However the kernel chops the stream into chunks and interrupts the calls,
  \<open>rio_readlineb\<close> stores exactly the first line of the stream (newline included, cut at
  \<open>maxlen - 1\<close> bytes) and leaves exactly the rest for the next call; at the end of the
  stream it returns 0 and stores nothing. The value it returns is the length of the line
  when the line ends in a newline, and one more than the length when it does not.
\<close>

theorem rio_readlineb_correct:
  assumes "steady evs" and "rio_ok rp" and "1 < maxlen"
  shows "\<exists>rp' evs'. steady evs' \<and> rio_ok rp' \<and>
     avail rp evs = first_line (maxlen - 1) (avail rp evs) @ avail rp' evs' \<and>
     rio_readlineb rp maxlen evs =
       (if avail rp evs = [] then (0, None, rp', evs')
        else (let l = first_line (maxlen - 1) (avail rp evs) in
              (int (length l) + (if last l = LF then 0 else 1), Some l, rp', evs')))"
  by (rule rio_readlineb_stream [OF assms])

theorem rio_readlineb_correct_witness:
  "\<exists>rp' evs'. rio_readlineb (rio_readinitb 3 []) 8192 [Data ''GE'', Read_err EINTR, Data (''T'' @ [LF] @ ''x'')]
     = (4, Some (''GET'' @ [LF]), rp', evs') \<and> avail rp' evs' = ''x''"
proof -
  let ?evs = "[Data ''GE'', Read_err EINTR, Data (''T'' @ [LF] @ ''x'')]" and ?rp = "rio_readinitb 3 []"
  have a: "avail ?rp ?evs = ''GET'' @ [LF] @ ''x''" "rio_ok ?rp" "steady ?evs"
    by (simp_all add: rio_readinitb_def rio_ok_def avail_def)
  have l: "first_line (8192 - 1) (''GET'' @ [LF] @ ''x'') = ''GET'' @ [LF]"
    by (simp add: numeral_eq_Suc)
  obtain rp' evs' where "''GET'' @ [LF] @ ''x'' = (''GET'' @ [LF]) @ avail rp' evs'"
      "rio_readlineb ?rp 8192 ?evs = (4, Some (''GET'' @ [LF]), rp', evs')"
    using rio_readlineb_correct [of ?evs ?rp 8192] unfolding a l by (auto simp: a Let_def)
  then show ?thesis by auto
qed

lemma rio_readnb_loop_steady:
  assumes "steady evs" and "rio_ok rp" and "nleft \<le> n"
  shows "\<exists>rp' evs'. steady evs' \<and> rio_ok rp' \<and> avail rp' evs' = drop nleft (avail rp evs) \<and>
     rio_readnb_loop n nleft buf rp evs =
       (int (n - nleft + min nleft (length (avail rp evs))), buf @ take nleft (avail rp evs), rp', evs')"
  using assms
proof (induction nleft arbitrary: buf rp evs rule: less_induct)
  case (less nleft)
  show ?case
  proof (cases "nleft = 0")
    case True
    then show ?thesis using less.prems by (subst rio_readnb_loop.simps) auto
  next
    case False
    obtain bs rp1 evs1 where r: "rio_read rp nleft evs = (int (length bs), 0, bs, rp1, evs1)"
        "steady evs1" "rio_ok rp1" "avail rp evs = bs @ avail rp1 evs1" "length bs \<le> nleft"
        "bs = [] \<longleftrightarrow> avail rp evs = []"
      using rio_read_steady [OF less.prems(1,2), of nleft] False by auto
    show ?thesis
    proof (cases "bs = []")
      case True
      then have "rio_readnb_loop n nleft buf rp evs = (int (n - nleft), buf, rp1, evs1)"
        using r(1) False by (subst rio_readnb_loop.simps) simp
      moreover have "avail rp evs = []" using True r(6) by blast
      moreover from this have "avail rp1 evs1 = []" using r(4) by (metis append_is_Nil_conv)
      ultimately show ?thesis using r(2,3) by (intro exI [of _ rp1] exI [of _ evs1]) simp
    next
      case nonempty: False
      have run: "rio_readnb_loop n nleft buf rp evs = rio_readnb_loop n (nleft - length bs) (buf @ bs) rp1 evs1"
        using r(1) False nonempty by (subst rio_readnb_loop.simps) simp
      have "nleft - length bs < nleft" "nleft - length bs \<le> n" using False nonempty less.prems(3) by auto
      from less.IH [OF this(1) r(2,3) this(2), of "buf @ bs"] obtain rp' evs' where
        "steady evs'" "rio_ok rp'" "avail rp' evs' = drop (nleft - length bs) (avail rp1 evs1)"
        "rio_readnb_loop n (nleft - length bs) (buf @ bs) rp1 evs1 =
          (int (n - (nleft - length bs) + min (nleft - length bs) (length (avail rp1 evs1))),
           (buf @ bs) @ take (nleft - length bs) (avail rp1 evs1), rp', evs')" by blast
      moreover have "n - (nleft - length bs) + min (nleft - length bs) (length (avail rp1 evs1))
          = n - nleft + min nleft (length bs + length (avail rp1 evs1))"
        using r(5) less.prems(3) by linarith
      ultimately show ?thesis using run r(4,5)
        by (intro exI [of _ rp'] exI [of _ evs']) simp
    qed
  qed
qed

text \<open>
  \<open>rio_readnb\<close> returns the first \<open>n\<close> bytes of the stream (or all of it, when it
  is shorter) and their number, whatever short reads and interruptions happen.
\<close>

theorem rio_readnb_correct:
  assumes "steady evs" and "rio_ok rp"
  shows "\<exists>rp' evs'. steady evs' \<and> rio_ok rp' \<and> avail rp' evs' = drop n (avail rp evs) \<and>
     rio_readnb rp n evs = (int (min n (length (avail rp evs))), take n (avail rp evs), rp', evs')"
  using rio_readnb_loop_steady [OF assms order_refl, of n "[]"] by (simp add: rio_readnb_def)

theorem rio_readnb_correct_witness:
  "\<exists>rp' evs'. rio_readnb (rio_readinitb 3 []) 3 [Data ''ab'', Read_err EINTR, Data ''cd''] = (3, ''abc'', rp', evs')"
  using rio_readnb_correct [of "[Data ''ab'', Read_err EINTR, Data ''cd'']" "rio_readinitb 3 []" 3]
  by (auto simp: rio_readinitb_def rio_ok_def avail_def)

lemma rio_writen_loop_prefix:
  assumes "rio_writen_loop n out left errno evs = (rc, out', evs')" and "n = length (out @ left)"
  shows "(rc = int n \<and> out' = out @ left) \<or>
     (rc = -1 \<and> (\<exists>ys zs. left = ys @ zs \<and> zs \<noteq> [] \<and> out' = out @ ys))"
  using assms
proof (induction n out left errno evs rule: rio_writen_loop.induct)
  case (1 n out left errno evs)
  obtain w errno' evs1 where w: "os_write (length left) errno evs = (w, errno', evs1)"
    by (metis prod_cases3)
  have wl: "nat w \<le> length left" "left \<noteq> [] \<Longrightarrow> evs = [] \<Longrightarrow> 0 < w"
    using w by (cases "(length left, errno, evs)" rule: os_write.cases, auto)+
  show ?case
  proof (cases "left = []")
    case True
    then have "rio_writen_loop n out left errno evs = (int n, out, evs)"
      by (subst rio_writen_loop.simps) simp
    then show ?thesis using "1.prems"(1) True by simp
  next
    case False
    show ?thesis
    proof (cases "w \<le> 0")
      case True
      have "errno' = EINTR \<Longrightarrow> rio_writen_loop n out left errno' evs1 = (rc, out', evs') \<Longrightarrow> ?thesis"
        using "1.IH"(1) [OF False refl w [symmetric] refl True] "1.prems"(2) by simp
      then show ?thesis using "1.prems"(1) False True w
        by (auto simp: rio_writen_loop.simps [of n out left errno evs] split: if_splits)
    next
      case pos: False
      let ?k = "nat w"
      have "rio_writen_loop n (out @ take ?k left) (drop ?k left) errno' evs1 = (rc, out', evs')"
        using "1.prems"(1) False pos w by (simp add: rio_writen_loop.simps [of n out left errno evs])
      moreover have "n = length ((out @ take ?k left) @ drop ?k left)" using "1.prems"(2) by simp
      ultimately have "(rc = int n \<and> out' = (out @ take ?k left) @ drop ?k left) \<or>
          (rc = -1 \<and> (\<exists>ys zs. drop ?k left = ys @ zs \<and> zs \<noteq> [] \<and> out' = (out @ take ?k left) @ ys))"
        by (rule "1.IH"(2) [OF False refl w [symmetric] refl pos])
      then show ?thesis
        by (metis append.assoc append_take_drop_id)
    qed
  qed
qed

text \<open>
  Claim C22. \<open>rio_writen\<close> either returns \<open>n\<close> with every byte of the buffer written in order
  exactly once, or returns -1 with a proper prefix written; there is no third outcome.
\<close>

theorem rio_writen_correct:
  assumes "rio_writen usrbuf errno evs = (rc, out, evs')"
  shows "(rc = int (length usrbuf) \<and> out = usrbuf) \<or> (rc = -1 \<and> strict_prefix out usrbuf)"
  using rio_writen_loop_prefix [OF assms [unfolded rio_writen_def]] by (auto simp: strict_prefix_def)

theorem rio_writen_correct_witness:
  "rio_writen ''hello'' 0 [Takes 2, Write_err EINTR, Takes 1] = (5, ''hello'', []) \<and>
   (5 = int (length ''hello'') \<and> ''hello'' = ''hello'' \<or> 5 = (-1::int) \<and> strict_prefix ''hello'' ''hello'')"
proof -
  have run: "rio_writen ''hello'' 0 [Takes 2, Write_err EINTR, Takes 1] = (5, ''hello'', [])"
    by (simp add: rio_writen_def rio_writen_loop.simps EINTR_def)
  from rio_writen_correct [OF run] run show ?thesis by blast
qed

section \<open>Healthy output\<close>

text \<open>An output script without a hard error: every write makes progress or is interrupted.\<close>

fun healthy_ev :: "write_ev \<Rightarrow> bool" where
  "healthy_ev (Takes k) = (0 < k)"
| "healthy_ev (Write_err e) = (e = EINTR)"

definition healthy :: "write_ev list \<Rightarrow> bool" where
  "healthy evs \<longleftrightarrow> list_all healthy_ev evs"

lemma healthy_Cons [simp]: "healthy (e # evs) \<longleftrightarrow> healthy_ev e \<and> healthy evs" "healthy []"
  by (simp_all add: healthy_def)

lemma os_write_healthy:
  assumes "os_write n errno evs = (w, errno', evs')" and "healthy evs"
  shows "healthy evs'" and "0 < n \<Longrightarrow> w \<le> 0 \<Longrightarrow> errno' = EINTR"
  using assms by (cases "(n, errno, evs)" rule: os_write.cases; auto)+

lemma rio_writen_loop_healthy:
  assumes "healthy evs"
  shows "\<exists>evs'. healthy evs' \<and> rio_writen_loop n out left errno evs = (int n, out @ left, evs')"
  using assms
proof (induction n out left errno evs rule: rio_writen_loop.induct)
  case (1 n out left errno evs)
  show ?case
  proof (cases "left = []")
    case True
    then show ?thesis using "1.prems" by (subst rio_writen_loop.simps) simp
  next
    case False
    obtain w errno' evs1 where w: "os_write (length left) errno evs = (w, errno', evs1)"
      by (metis prod_cases3)
    have h: "healthy evs1" "w \<le> 0 \<Longrightarrow> errno' = EINTR"
      using os_write_healthy [OF w "1.prems"] False by auto
    show ?thesis
    proof (cases "w \<le> 0")
      case True
      then have "rio_writen_loop n out left errno evs = rio_writen_loop n out left errno' evs1"
        using False w h(2) by (subst rio_writen_loop.simps) simp
      then show ?thesis
        using "1.IH"(1) [OF False refl w [symmetric] refl True h(2) [OF True] h(1)] by simp
    next
      case pos: False
      then have "rio_writen_loop n out left errno evs
          = rio_writen_loop n (out @ take (nat w) left) (drop (nat w) left) errno' evs1"
        using False w by (subst rio_writen_loop.simps) simp
      then show ?thesis
        using "1.IH"(2) [OF False refl w [symmetric] refl pos h(1)] by simp
    qed
  qed
qed

lemma Rio_writen_healthy:
  assumes "healthy evs"
  shows "\<exists>evs'. healthy evs' \<and> Rio_writen err buf errno evs = Inr (buf, evs')"
  using rio_writen_loop_healthy [OF assms, of "length buf" "[]" buf errno]
  by (auto simp: Rio_writen_def rio_writen_def)

lemma Rio_writen_Inr:
  assumes "Rio_writen err buf errno evs = Inr (out, evs')"
  shows "out = buf"
proof -
  obtain rc out1 evs1 where r: "rio_writen buf errno evs = (rc, out1, evs1)" by (metis prod_cases3)
  with assms have "rc = int (length buf)" "out = out1"
    by (auto simp: Rio_writen_def unix_error_def split: if_splits)
  with rio_writen_loop_prefix [OF r [unfolded rio_writen_def]] show ?thesis by auto
qed

end
