(* ===== verification/Request.thy ===== *)
theory Request
  imports Rio
begin

text \<open>
  The request handler of the web server (hw3/wet/request.h and request.c). A connection is
  its input script, its output script, the bytes sent so far and what the process printed.
  Every fixed-size buffer keeps its bound (\<open>put\<close>), every buffer that a failed read leaves
  unset is an \<open>Uninit_read\<close> when it is used. The appending calls
  \<open>sprintf (buf, "%s...", buf)\<close> of the source are read as appending, as glibc runs them.
\<close>

section \<open>State and environment\<close>

definition MAXLINE :: nat where "MAXLINE = 8192"
definition MAXBUF :: nat where "MAXBUF = 8192"

record stats_t =
  handler_thread_id :: int
  handler_thread_req_count :: int
  handler_thread_static_req_count :: int
  handler_thread_dynamic_req_count :: int

record conn =
  fd :: int
  inscript :: "read_ev list"
  outscript :: "write_ev list"
  sent :: string
  printed :: string

text \<open>
  The system calls and library functions the handler uses. \<open>fmt6\<close> is the conversion
  \<open>%.6f\<close>, \<open>stat_call\<close> gives the mode and the size of a file, \<open>mem\<close> the bytes of a mapping.
\<close>

record 'd os =
  fmt6 :: "'d \<Rightarrow> string"
  stat_call :: "string \<Rightarrow> (nat \<times> int) option"
  open_call :: "string \<Rightarrow> int \<Rightarrow> int \<Rightarrow> int \<times> string"
  mmap_call :: "int \<Rightarrow> nat \<Rightarrow> int \<Rightarrow> int \<Rightarrow> int \<Rightarrow> int \<Rightarrow> int \<times> string"
  mem :: "int \<Rightarrow> nat \<Rightarrow> string"
  munmap_call :: "int \<Rightarrow> nat \<Rightarrow> int \<times> string"
  close_call :: "int \<Rightarrow> int \<times> string"
  fork_call :: "int \<times> string"
  setenv_call :: "string \<Rightarrow> string \<Rightarrow> int \<Rightarrow> int \<times> string"
  dup2_call :: "int \<Rightarrow> int \<Rightarrow> int \<times> string"
  execve_call :: "string \<Rightarrow> string list \<Rightarrow> string list \<Rightarrow> int \<times> string"
  environ :: "string list"
  waitpid_call :: "int \<Rightarrow> int \<Rightarrow> int \<times> int \<times> string"
  strerr :: string
  errno0 :: int

definition send :: "'d os \<Rightarrow> string \<Rightarrow> conn \<Rightarrow> conn res" where
  "send os s c = rbind (Rio_writen (strerr os) s (errno0 os) (outscript c)) (\<lambda>(out, evs).
     Inr (c\<lparr>outscript := evs, sent := sent c @ out\<rparr>))"

definition send_print :: "'d os \<Rightarrow> string \<Rightarrow> conn \<Rightarrow> conn res" where
  "send_print os s c = rbind (put MAXLINE s) (\<lambda>buf. rbind (send os buf c) (\<lambda>c'.
     Inr (c'\<lparr>printed := printed c' @ buf\<rparr>)))"

fun send_all :: "'d os \<Rightarrow> string list \<Rightarrow> conn \<Rightarrow> conn res" where
  "send_all os [] c = Inr c"
| "send_all os (s # ss) c = rbind (send_print os s c) (send_all os ss)"

section \<open>Error responses\<close>

definition error_body :: "string \<Rightarrow> string \<Rightarrow> string \<Rightarrow> string \<Rightarrow> string" where
  "error_body cause errnum shortmsg longmsg =
     ''<html><title>OS-HW3 Error</title>'' @ ''<body bgcolor=fffff>'' @ CRLF @
     errnum @ '': '' @ shortmsg @ CRLF @
     ''<p>'' @ longmsg @ '': '' @ cause @ CRLF @
     ''<hr>OS-HW3 Web Server'' @ CRLF"

definition error_headers ::
    "'d os \<Rightarrow> string \<Rightarrow> string \<Rightarrow> nat \<Rightarrow> stats_t \<Rightarrow> 'd \<Rightarrow> 'd \<Rightarrow> string list" where
  "error_headers os errnum shortmsg len stats arrival_time dispatch_interval =
     [''HTTP/1.0 '' @ errnum @ '' '' @ shortmsg @ CRLF,
      ''Content-Type: text/html'' @ CRLF,
      ''Content-Length: '' @ show_nat len @ CRLF,
      ''Stat-Req-Arrival:: '' @ fmt6 os arrival_time @ CRLF,
      ''Stat-Req-Dispatch:: '' @ fmt6 os dispatch_interval @ CRLF,
      ''Stat-Thread-Id:: '' @ show_int (handler_thread_id stats) @ CRLF,
      ''Stat-Thread-Count:: '' @ show_int (handler_thread_req_count stats) @ CRLF,
      ''Stat-Thread-Static:: '' @ show_int (handler_thread_static_req_count stats) @ CRLF,
      ''Stat-Thread-Dynamic:: '' @ show_int (handler_thread_dynamic_req_count stats) @ CRLF @ CRLF]"

definition requestError ::
    "'d os \<Rightarrow> string \<Rightarrow> string \<Rightarrow> string \<Rightarrow> string \<Rightarrow> stats_t \<Rightarrow> 'd \<Rightarrow> 'd \<Rightarrow> conn \<Rightarrow> conn res" where
  "requestError os cause errnum shortmsg longmsg stats arrival_time dispatch_interval c =
     rbind (put MAXBUF (error_body cause errnum shortmsg longmsg)) (\<lambda>body.
     rbind (send_all os (error_headers os errnum shortmsg (length body) stats arrival_time dispatch_interval) c) (\<lambda>c1.
     rbind (send os body c1) (\<lambda>c2.
     Inr (c2\<lparr>printed := printed c2 @ body\<rparr>))))"

section \<open>Reading and parsing\<close>

text \<open>
  \<open>requestReadhdrs\<close>: the line buffer keeps its old contents when a read finds the end of the
  stream. \<open>None\<close> is the loop that never ends.
\<close>

partial_function (option) readhdrs_loop ::
    "string \<Rightarrow> string \<Rightarrow> rio_t \<Rightarrow> read_ev list \<Rightarrow> (rio_t \<times> read_ev list) comp" where
  "readhdrs_loop err buf rp evs =
     (if cstr buf \<noteq> CRLF then
        (case Rio_readlineb err rp MAXLINE evs of
           Inl e \<Rightarrow> Some (Inl e)
         | Inr (n, l, rp', evs') \<Rightarrow>
             readhdrs_loop err (case l of None \<Rightarrow> buf | Some l' \<Rightarrow> l') rp' evs')
      else Some (Inr (rp, evs)))"

definition requestReadhdrs :: "string \<Rightarrow> rio_t \<Rightarrow> read_ev list \<Rightarrow> (rio_t \<times> read_ev list) comp" where
  "requestReadhdrs err rp evs =
     (case Rio_readlineb err rp MAXLINE evs of
        Inl e \<Rightarrow> Some (Inl e)
      | Inr (n, None, rp', evs') \<Rightarrow> Some (Inl (UB Uninit_read))
      | Inr (n, Some buf, rp', evs') \<Rightarrow> readhdrs_loop err buf rp' evs')"

text \<open>
  The result is the C return value (1 static, 0 dynamic), the filename and the CGI
  arguments; the latter stay unset (\<open>None\<close>) on the path for URIs that hold two dots.
\<close>

definition requestParseURI :: "string \<Rightarrow> (int \<times> string \<times> string option) res" where
  "requestParseURI uri =
     (if strstr uri ''..'' then
        rbind (put MAXLINE ''./public/home.html'') (\<lambda>filename. Inr (1, filename, None))
      else if \<not> strstr uri ''cgi'' then
        rbind (put MAXLINE (''./public/'' @ uri)) (\<lambda>filename.
        if uri = [] then Inl (UB Bad_deref)
        else if last uri = CHR ''/'' then
          rbind (put MAXLINE (filename @ ''home.html'')) (\<lambda>f. Inr (1, f, Some []))
        else Inr (1, filename, Some []))
      else
        (let path = takeWhile (\<lambda>c. c \<noteq> CHR ''?'') uri;
             cgiargs = drop (Suc (length path)) uri in
         rbind (put MAXLINE cgiargs) (\<lambda>args.
         rbind (put MAXLINE (''./public/'' @ path)) (\<lambda>filename. Inr (0, filename, Some args)))))"

definition requestGetFiletype :: "string \<Rightarrow> string" where
  "requestGetFiletype filename =
     (if strstr filename ''.html'' then ''text/html''
      else if strstr filename ''.gif'' then ''image/gif''
      else if strstr filename ''.jpg'' then ''image/jpeg''
      else ''text/plain'')"

definition parse_request_line :: "string \<Rightarrow> (string \<times> string \<times> string) res" where
  "parse_request_line buf =
     (case scan_word (cstr buf) of None \<Rightarrow> Inl (UB Uninit_read)
      | Some (meth, r1) \<Rightarrow> (case scan_word r1 of None \<Rightarrow> Inl (UB Uninit_read)
        | Some (uri, r2) \<Rightarrow> (case scan_word r2 of None \<Rightarrow> Inl (UB Uninit_read)
          | Some (version, r3) \<Rightarrow> Inr (meth, uri, version))))"

section \<open>Serving\<close>

definition stat_lines :: "'d os \<Rightarrow> stats_t \<Rightarrow> 'd \<Rightarrow> 'd \<Rightarrow> string" where
  "stat_lines os stats arrival_time dispatch_interval =
     ''Stat-Req-Arrival:: '' @ fmt6 os arrival_time @ CRLF @
     ''Stat-Req-Dispatch:: '' @ fmt6 os dispatch_interval @ CRLF @
     ''Stat-Thread-Id:: '' @ show_int (handler_thread_id stats) @ CRLF @
     ''Stat-Thread-Count:: '' @ show_int (handler_thread_req_count stats) @ CRLF @
     ''Stat-Thread-Static:: '' @ show_int (handler_thread_static_req_count stats) @ CRLF @
     ''Stat-Thread-Dynamic:: '' @ show_int (handler_thread_dynamic_req_count stats) @ CRLF"

definition requestServeDynamic ::
    "'d os \<Rightarrow> string \<Rightarrow> string \<Rightarrow> stats_t \<Rightarrow> 'd \<Rightarrow> 'd \<Rightarrow> conn \<Rightarrow> conn res" where
  "requestServeDynamic os filename cgiargs stats arrival_time dispatch_interval c =
     rbind (put MAXLINE (''HTTP/1.0 200 OK'' @ CRLF @ ''Server: OS-HW3 Web Server'' @ CRLF @
       stat_lines os stats arrival_time dispatch_interval)) (\<lambda>buf.
     rbind (send os buf c) (\<lambda>c1.
     rbind (Fork (fork_call os)) (\<lambda>pid.
     rbind (if pid = 0 then
              rbind (Setenv (setenv_call os) ''QUERY_STRING'' cgiargs 1) (\<lambda>_.
              rbind (Dup2 (dup2_call os) (fd c) 1) (\<lambda>_.
              Execve (execve_call os) filename [] (environ os)))
            else Inr ()) (\<lambda>_.
     rbind (WaitPid (waitpid_call os) pid 0) (\<lambda>_. Inr c1)))))"

definition static_header :: "'d os \<Rightarrow> string \<Rightarrow> int \<Rightarrow> stats_t \<Rightarrow> 'd \<Rightarrow> 'd \<Rightarrow> string" where
  "static_header os filename filesize stats arrival_time dispatch_interval =
     ''HTTP/1.0 200 OK'' @ CRLF @ ''Server: OS-HW3 Web Server'' @ CRLF @
     ''Content-Length: '' @ show_int filesize @ CRLF @
     ''Content-Type: '' @ requestGetFiletype filename @ CRLF @
     stat_lines os stats arrival_time dispatch_interval @ CRLF"

text \<open>\<open>PROT_READ\<close> is 1, \<open>MAP_PRIVATE\<close> 2; a negative size is a huge \<open>size_t\<close>.\<close>

definition size_t_of :: "int \<Rightarrow> nat" where
  "size_t_of i = nat (i mod 2 ^ 64)"

definition requestServeStatic ::
    "'d os \<Rightarrow> string \<Rightarrow> int \<Rightarrow> stats_t \<Rightarrow> 'd \<Rightarrow> 'd \<Rightarrow> conn \<Rightarrow> conn res" where
  "requestServeStatic os filename filesize stats arrival_time dispatch_interval c =
     rbind (Open (open_call os) filename 0 0) (\<lambda>srcfd.
     rbind (Mmap (mmap_call os) 0 (size_t_of filesize) 1 2 srcfd 0) (\<lambda>srcp.
     rbind (Close (close_call os) srcfd) (\<lambda>_.
     rbind (put MAXBUF (static_header os filename filesize stats arrival_time dispatch_interval)) (\<lambda>buf.
     rbind (send os buf c) (\<lambda>c1.
     rbind (send os (mem os srcp (size_t_of filesize)) c1) (\<lambda>c2.
     rbind (Munmap (munmap_call os) srcp (size_t_of filesize)) (\<lambda>_. Inr c2)))))))"

text \<open>The tests \<open>S_ISREG\<close>, \<open>S_IRUSR\<close> and \<open>S_IXUSR\<close> on a mode.\<close>

definition S_ISREG :: "nat \<Rightarrow> bool" where "S_ISREG m \<longleftrightarrow> m div 4096 mod 16 = 8"
definition S_IRUSR :: "nat \<Rightarrow> bool" where "S_IRUSR m \<longleftrightarrow> m div 256 mod 2 = 1"
definition S_IXUSR :: "nat \<Rightarrow> bool" where "S_IXUSR m \<longleftrightarrow> m div 64 mod 2 = 1"

section \<open>The handler\<close>

text \<open>The part after the headers: which file, may it be served, and how.\<close>

definition serve_uri ::
    "'d os \<Rightarrow> string \<Rightarrow> stats_t \<Rightarrow> 'd \<Rightarrow> 'd \<Rightarrow> conn \<Rightarrow> (stats_t \<times> conn) res" where
  "serve_uri os uri stats at di c =
     rbind (requestParseURI uri) (\<lambda>(is_static, filename, cgiargs).
     (case stat_call os filename of
        None \<Rightarrow> rbind (requestError os filename ''404'' ''Not found''
                  ''OS-HW3 Server could not find this file'' stats at di c) (\<lambda>c'. Inr (stats, c'))
      | Some (st_mode, st_size) \<Rightarrow>
          if is_static \<noteq> 0 then
            (if \<not> S_ISREG st_mode \<or> \<not> S_IRUSR st_mode then
               rbind (requestError os filename ''403'' ''Forbidden''
                 ''OS-HW3 Server could not read this file'' stats at di c) (\<lambda>c'. Inr (stats, c'))
             else
               rbind (int_inc (handler_thread_static_req_count stats)) (\<lambda>k.
               let stats' = stats\<lparr>handler_thread_static_req_count := k\<rparr> in
               rbind (requestServeStatic os filename (to_int32 st_size) stats' at di c) (\<lambda>c'. Inr (stats', c'))))
          else
            (if \<not> S_ISREG st_mode \<or> \<not> S_IXUSR st_mode then
               rbind (requestError os filename ''403'' ''Forbidden''
                 ''OS-HW3 Server could not run this CGI program'' stats at di c) (\<lambda>c'. Inr (stats, c'))
             else
               rbind (int_inc (handler_thread_dynamic_req_count stats)) (\<lambda>k.
               let stats' = stats\<lparr>handler_thread_dynamic_req_count := k\<rparr> in
               rbind (requestServeDynamic os filename (case cgiargs of None \<Rightarrow> [] | Some a \<Rightarrow> a) stats' at di c)
                 (\<lambda>c'. Inr (stats', c'))))))"

text \<open>The part after the request line: the method test, the headers, the file.\<close>

definition answer_request ::
    "'d os \<Rightarrow> rio_t \<Rightarrow> string \<Rightarrow> string \<Rightarrow> stats_t \<Rightarrow> 'd \<Rightarrow> 'd \<Rightarrow> conn \<Rightarrow> (stats_t \<times> conn) comp" where
  "answer_request os rp meth uri stats at di c =
     (if \<not> strcasecmp_eq meth ''GET'' then
        Some (rbind (requestError os meth ''501'' ''Not Implemented''
          ''OS-HW3 Server does not implement this method'' stats at di c) (\<lambda>c'. Inr (stats, c')))
      else
        cbind (requestReadhdrs (strerr os) rp (inscript c)) (\<lambda>(rp', evs).
        Some (serve_uri os uri stats at di (c\<lparr>inscript := evs\<rparr>))))"

definition requestHandle ::
    "'d os \<Rightarrow> string \<Rightarrow> stats_t \<Rightarrow> 'd \<Rightarrow> 'd \<Rightarrow> conn \<Rightarrow> (stats_t \<times> conn) comp" where
  "requestHandle os junk stats at di c =
     cbind (Some (int_inc (handler_thread_req_count stats))) (\<lambda>k.
     cbind (Some (Rio_readlineb (strerr os) (Rio_readinitb (fd c) junk) MAXLINE (inscript c))) (\<lambda>(n, buf, rp, evs).
     cbind (Some (case buf of None \<Rightarrow> Inl (UB Uninit_read) | Some l \<Rightarrow> parse_request_line l)) (\<lambda>(meth, uri, version).
     answer_request os rp meth uri (stats\<lparr>handler_thread_req_count := k\<rparr>) at di
       (c\<lparr>inscript := evs, printed := printed c @ meth @ '' '' @ uri @ '' '' @ version @ [LF]\<rparr>))))"

section \<open>The file name\<close>

lemma strstr_dots_home:
  "xs \<noteq> [] \<Longrightarrow> last xs = CHR ''/'' \<Longrightarrow> strstr (xs @ ''home.html'') ''..'' = strstr xs ''..''"
proof (induction xs)
  case Nil
  then show ?case by simp
next
  case (Cons c cs)
  show ?case
  proof (cases cs)
    case Nil
    then show ?thesis using Cons.prems by simp
  next
    case (Cons d ds)
    with Cons.IH Cons.prems show ?thesis by auto
  qed
qed

lemma strstr_dots_public [simp]: "strstr (''./public/'' @ u) ''..'' = strstr u ''..''"
  by (simp add: prefix_def)

lemma strstr_takeWhile: "strstr (takeWhile P u) n \<Longrightarrow> strstr u n"
  by (metis strstr_iff_sublist takeWhile_is_prefix prefix_imp_sublist sublist_order.order_trans)

lemma requestParseURI_filename:
  assumes "requestParseURI uri = Inr (is_static, filename, cgiargs)"
  shows "prefix ''./public/'' filename \<and> \<not> strstr filename ''..'' \<and> length filename < MAXLINE \<and>
    (is_static = 0 \<longrightarrow> (\<exists>path args. filename = ''./public/'' @ path \<and> cgiargs = Some args \<and>
        CHR ''?'' \<notin> set path \<and> (uri = path \<and> args = [] \<or> uri = path @ CHR ''?'' # args)))"
proof -
  let ?path = "takeWhile (\<lambda>c. c \<noteq> CHR ''?'') uri"
  consider (dots) "strstr uri ''..''" "is_static = 1" "filename = ''./public/home.html''" |
    (dir) "\<not> strstr uri ''..''" "uri \<noteq> []" "last uri = CHR ''/''" "is_static = 1"
        "filename = ''./public/'' @ uri @ ''home.html''" "length filename < MAXLINE" |
    (reg) "\<not> strstr uri ''..''" "is_static = 1" "filename = ''./public/'' @ uri" "length filename < MAXLINE" |
    (cgi) "\<not> strstr uri ''..''" "is_static = 0" "filename = ''./public/'' @ ?path" "length filename < MAXLINE"
        "cgiargs = Some (drop (Suc (length ?path)) uri)"
    using assms by (auto simp: requestParseURI_def result_simps Let_def split: if_splits)
  then show ?thesis
  proof cases
    case dots
    then show ?thesis by (simp add: MAXLINE_def prefix_def)
  next
    case dir
    then show ?thesis using strstr_dots_home [of uri] by (simp only: strstr_dots_public) simp
  next
    case reg
    then show ?thesis by (simp only: strstr_dots_public) simp
  next
    case cgi
    obtain path args where pa: "path = ?path" "args = drop (Suc (length ?path)) uri" by blast
    have "uri = path \<and> args = [] \<or> uri = path @ CHR ''?'' # args"
    proof (cases "CHR ''?'' \<in> set uri")
      case True
      show ?thesis unfolding pa by (rule disjI2 [OF split_at_first [OF True]])
    next
      case False
      then have "path = uri" unfolding pa by (auto simp: takeWhile_eq_all_conv)
      moreover from this have "args = []" unfolding pa(2) pa(1) [symmetric] by simp
      ultimately show ?thesis by simp
    qed
    moreover have "\<not> strstr path ''..''" unfolding pa using cgi(1) strstr_takeWhile by blast
    moreover have "CHR ''?'' \<notin> set path" unfolding pa by (auto dest: set_takeWhileD)
    moreover have "filename = ''./public/'' @ path" "cgiargs = Some args"
      using cgi(3,5) by (simp_all only: pa)
    ultimately show ?thesis using cgi(2,4) by (simp only: strstr_dots_public) auto
  qed
qed

text \<open>
  Claim C20. Whatever the URI, the file the server will open is below \<open>./public/\<close> and its
  name holds no two consecutive dots: no request leaves the public directory. For a dynamic
  request the path is the URI up to the first question mark, the arguments what follows it.
\<close>

theorem requestParseURI_confined:
  assumes "requestParseURI uri = Inr (is_static, filename, cgiargs)"
  shows "prefix ''./public/'' filename \<and> \<not> strstr filename ''..'' \<and> length filename < MAXLINE \<and>
    (is_static = 0 \<longrightarrow> (\<exists>path args. filename = ''./public/'' @ path \<and> cgiargs = Some args \<and>
        CHR ''?'' \<notin> set path \<and> (uri = path \<and> args = [] \<or> uri = path @ CHR ''?'' # args)))"
  using assms by (rule requestParseURI_filename)

theorem requestParseURI_confined_witness:
  "requestParseURI ''/output.cgi?5'' = Inr (0, ''./public//output.cgi'', Some ''5'') \<and>
   prefix ''./public/'' ''./public//output.cgi''"
proof -
  have run: "requestParseURI ''/output.cgi?5'' = Inr (0, ''./public//output.cgi'', Some ''5'')"
    by (simp add: requestParseURI_def put_def MAXLINE_def Let_def prefix_def)
  from requestParseURI_confined [OF run] run show ?thesis by blast
qed

text \<open>
  A static URI that fills the line buffer overruns the filename buffer: from
  8183 characters on, \<open>requestParseURI\<close> writes past the end of \<open>filename\<close>.
\<close>

theorem requestParseURI_overflow:
  assumes "\<not> strstr uri ''..''" and "\<not> strstr uri ''cgi''" and "8183 \<le> length uri"
  shows "requestParseURI uri = Inl (UB Buffer_overflow)"
  using assms by (simp add: requestParseURI_def put_def MAXLINE_def)

lemma no_sub_replicate: "c \<notin> {d} \<Longrightarrow> \<not> strstr (replicate n d) (c # s)"
  by (induction n) (auto simp: prefix_def)

theorem requestParseURI_overflow_witness:
  "requestParseURI (replicate 8187 CHR ''a'') = Inl (UB Buffer_overflow)"
  by (rule requestParseURI_overflow) (simp_all add: no_sub_replicate)

section \<open>Skipping the headers\<close>

text \<open>A header line: one newline, at its end, short enough for the line buffer.\<close>

definition hdr_line :: "string \<Rightarrow> bool" where
  "hdr_line l \<longleftrightarrow> l \<noteq> [] \<and> last l = LF \<and> LF \<notin> set (butlast l) \<and> length l < MAXLINE"

lemma first_line_hdr:
  "l \<noteq> [] \<Longrightarrow> last l = LF \<Longrightarrow> LF \<notin> set (butlast l) \<Longrightarrow> length l \<le> m \<Longrightarrow> first_line m (l @ rest) = l"
proof (induction m l rule: first_line.induct)
  case (3 m c cs)
  then show ?case by (cases cs) (auto split: if_splits)
qed auto

lemma Rio_readlineb_line:
  assumes "steady evs" and "rio_ok rp" and "avail rp evs = l @ rest" and "hdr_line l"
  shows "\<exists>rp' evs'. Rio_readlineb err rp MAXLINE evs = Inr (int (length l), Some l, rp', evs') \<and>
     steady evs' \<and> rio_ok rp' \<and> avail rp' evs' = rest"
proof -
  have f: "first_line (MAXLINE - 1) (l @ rest) = l"
    using assms(4) by (intro first_line_hdr) (auto simp: hdr_line_def)
  have "1 < MAXLINE" by (simp add: MAXLINE_def)
  from rio_readlineb_stream [OF assms(1,2) this] obtain rp' evs' where
    "steady evs'" "rio_ok rp'" "l @ rest = l @ avail rp' evs'"
    "rio_readlineb rp MAXLINE evs = (int (length l), Some l, rp', evs')"
    using assms(3,4) f by (auto simp: hdr_line_def Let_def)
  then show ?thesis by (auto simp: Rio_readlineb_def)
qed

lemma Rio_readlineb_eof:
  assumes "steady evs" and "rio_ok rp" and "avail rp evs = []"
  shows "\<exists>rp' evs'. Rio_readlineb err rp MAXLINE evs = Inr (0, None, rp', evs') \<and>
     steady evs' \<and> rio_ok rp' \<and> avail rp' evs' = []"
proof -
  have "1 < MAXLINE" by (simp add: MAXLINE_def)
  from rio_readlineb_stream [OF assms(1,2) this] assms(3) show ?thesis
    by (auto simp: Rio_readlineb_def)
qed

lemma readhdrs_loop_skips:
  assumes "steady evs" and "rio_ok rp" and "avail rp evs = concat hs @ rest"
    and "\<forall>h \<in> set hs. hdr_line h" and "cstr (last (buf # hs)) = CRLF"
    and "\<forall>h \<in> set (butlast (buf # hs)). cstr h \<noteq> CRLF"
  shows "\<exists>rp' evs'. readhdrs_loop err buf rp evs = Some (Inr (rp', evs')) \<and>
     steady evs' \<and> rio_ok rp' \<and> avail rp' evs' = rest"
  using assms
proof (induction hs arbitrary: buf rp evs)
  case Nil
  then show ?case by (subst readhdrs_loop.simps) simp
next
  case (Cons h hs)
  have "avail rp evs = h @ concat hs @ rest" using Cons.prems(3) by simp
  moreover have "hdr_line h" using Cons.prems(4) by simp
  ultimately obtain rp' evs' where r: "Rio_readlineb err rp MAXLINE evs = Inr (int (length h), Some h, rp', evs')"
      "steady evs'" "rio_ok rp'" "avail rp' evs' = concat hs @ rest"
    using Rio_readlineb_line [OF Cons.prems(1,2)] by blast
  have "readhdrs_loop err buf rp evs = readhdrs_loop err h rp' evs'"
    using r(1) Cons.prems(6) by (subst readhdrs_loop.simps) simp
  then show ?case using Cons.IH [OF r(2,3,4)] Cons.prems(4,5,6) by auto
qed

lemma cstr_CRLF [simp]: "cstr CRLF = CRLF"
  by (simp add: cstr_def)

lemma readhdrs_returns:
  assumes "steady evs" and "rio_ok rp" and "avail rp evs = concat hs @ CRLF @ rest"
    and "\<forall>h \<in> set hs. hdr_line h \<and> cstr h \<noteq> CRLF"
  shows "\<exists>rp' evs'. requestReadhdrs err rp evs = Some (Inr (rp', evs')) \<and>
     steady evs' \<and> rio_ok rp' \<and> avail rp' evs' = rest"
proof -
  have crlf: "hdr_line CRLF" by (simp add: hdr_line_def MAXLINE_def)
  obtain h ts where ht: "hs @ [CRLF] = h # ts" by (cases "hs @ [CRLF]") auto
  have all: "\<forall>x \<in> set (h # ts). hdr_line x" "cstr (last (h # ts)) = CRLF"
      "\<forall>x \<in> set (butlast (h # ts)). cstr x \<noteq> CRLF"
    using assms(4) crlf unfolding ht [symmetric] by auto
  have "concat hs @ CRLF = h @ concat ts" using arg_cong [OF ht, of concat] by simp
  then have "avail rp evs = h @ concat ts @ rest" using assms(3) by simp
  then obtain rp' evs' where r: "Rio_readlineb err rp MAXLINE evs = Inr (int (length h), Some h, rp', evs')"
      "steady evs'" "rio_ok rp'" "avail rp' evs' = concat ts @ rest"
    using Rio_readlineb_line [OF assms(1,2), of h "concat ts @ rest" err] all(1) by auto
  show ?thesis
    using readhdrs_loop_skips [OF r(2,3,4), of h err] all r(1) by (simp add: requestReadhdrs_def)
qed

text \<open>
  Claim C23. When the client ends its headers with an empty line, \<open>requestReadhdrs\<close> returns
  after it, having consumed the headers and nothing of what follows, whatever the chunks
  the bytes arrive in.
\<close>

theorem requestReadhdrs_returns:
  assumes "steady evs" and "rio_ok rp" and "avail rp evs = concat hs @ CRLF @ rest"
    and "\<forall>h \<in> set hs. hdr_line h \<and> cstr h \<noteq> CRLF"
  shows "\<exists>rp' evs'. requestReadhdrs err rp evs = Some (Inr (rp', evs')) \<and>
     steady evs' \<and> rio_ok rp' \<and> avail rp' evs' = rest"
  by (rule readhdrs_returns [OF assms])

lemma readhdrs_loop_spins:
  assumes "steady evs" and "rio_ok rp" and "avail rp evs = []" and "cstr buf \<noteq> CRLF"
  shows "readhdrs_loop err buf rp evs = None"
proof (cases "readhdrs_loop err buf rp evs")
  case (Some r)
  have "steady evs \<and> rio_ok rp \<and> avail rp evs = [] \<longrightarrow> cstr buf = CRLF"
  proof (rule readhdrs_loop.raw_induct
      [where P = "\<lambda>err buf rp evs r. steady evs \<and> rio_ok rp \<and> avail rp evs = [] \<longrightarrow> cstr buf = CRLF", OF _ Some])
    fix f err buf rp evs r
    assume IH: "\<And>err buf rp evs r. f err buf rp evs = Some r \<Longrightarrow>
        steady evs \<and> rio_ok rp \<and> avail rp evs = [] \<longrightarrow> cstr buf = CRLF"
      and eq: "(if cstr buf \<noteq> CRLF then
          (case Rio_readlineb err rp MAXLINE evs of Inl e \<Rightarrow> Some (Inl e)
           | Inr (n, l, rp', evs') \<Rightarrow> f err (case l of None \<Rightarrow> buf | Some l' \<Rightarrow> l') rp' evs')
        else Some (Inr (rp, evs))) = Some r"
    show "steady evs \<and> rio_ok rp \<and> avail rp evs = [] \<longrightarrow> cstr buf = CRLF"
    proof (intro impI, elim conjE, rule ccontr)
      assume a: "steady evs" "rio_ok rp" "avail rp evs = []" and n: "cstr buf \<noteq> CRLF"
      obtain rp' evs' where "Rio_readlineb err rp MAXLINE evs = Inr (0, None, rp', evs')"
          "steady evs'" "rio_ok rp'" "avail rp' evs' = []"
        using Rio_readlineb_eof [OF a] by blast
      with eq n have "f err buf rp' evs' = Some r" by simp
      from IH [OF this] n show False using \<open>steady evs'\<close> \<open>rio_ok rp'\<close> \<open>avail rp' evs' = []\<close> by blast
    qed
  qed
  with assms show ?thesis by blast
qed simp

text \<open>
  A client that sends some header lines and closes the connection before the
  empty line makes \<open>requestReadhdrs\<close> loop for ever: every further read finds the end of the
  stream and leaves the last line in the buffer.
\<close>

theorem requestReadhdrs_hangs:
  assumes "steady evs" and "rio_ok rp" and "avail rp evs = concat hs" and "hs \<noteq> []"
    and "\<forall>h \<in> set hs. hdr_line h \<and> cstr h \<noteq> CRLF"
  shows "requestReadhdrs err rp evs = None"
proof -
  have loop: "readhdrs_loop err buf rp evs = None"
    if "steady evs" "rio_ok rp" "avail rp evs = concat ts" "\<forall>h \<in> set (buf # ts). cstr h \<noteq> CRLF"
       "\<forall>h \<in> set ts. hdr_line h" for buf ts rp evs
    using that
  proof (induction ts arbitrary: buf rp evs)
    case Nil
    then show ?case using readhdrs_loop_spins by simp
  next
    case (Cons t ts)
    then obtain rp' evs' where "Rio_readlineb err rp MAXLINE evs = Inr (int (length t), Some t, rp', evs')"
        "steady evs'" "rio_ok rp'" "avail rp' evs' = concat ts"
      using Rio_readlineb_line [OF Cons.prems(1,2), of t "concat ts" err] by auto
    with Cons show ?case by (subst readhdrs_loop.simps) simp
  qed
  obtain h ts where hs: "hs = h # ts" using assms(4) by (cases hs) auto
  then obtain rp' evs' where r: "Rio_readlineb err rp MAXLINE evs = Inr (int (length h), Some h, rp', evs')"
      "steady evs'" "rio_ok rp'" "avail rp' evs' = concat ts"
    using Rio_readlineb_line [OF assms(1,2), of h "concat ts" err] assms(3,5) by auto
  then show ?thesis using loop [OF r(2,3,4), of h] assms(5) hs by (simp add: requestReadhdrs_def)
qed

theorem requestReadhdrs_returns_witness:
  "\<exists>rp' evs'. requestReadhdrs ''e'' (rio_readinitb 5 []) [Data (''Host: a'' @ [CR]), Data ([LF] @ CRLF @ ''x'')]
     = Some (Inr (rp', evs')) \<and> avail rp' evs' = ''x''"
  using requestReadhdrs_returns [of "[Data (''Host: a'' @ [CR]), Data ([LF] @ CRLF @ ''x'')]"
      "rio_readinitb 5 []" "[''Host: a'' @ CRLF]" "''x''" "''e''"]
  by (auto simp: hdr_line_def MAXLINE_def cstr_def)

theorem requestReadhdrs_hangs_witness:
  "requestReadhdrs ''e'' (rio_readinitb 5 []) [Data (''Host: a'' @ CRLF)] = None"
  using requestReadhdrs_hangs [of "[Data (''Host: a'' @ CRLF)]" "rio_readinitb 5 []" "[''Host: a'' @ CRLF]" "''e''"]
  by (simp add: hdr_line_def MAXLINE_def cstr_def)

section \<open>Responses\<close>

lemma send_Inr: "send os s c = Inr c' \<Longrightarrow> sent c' = sent c @ s"
  by (auto simp: send_def result_simps dest: Rio_writen_Inr)

lemma send_print_Inr: "send_print os s c = Inr c' \<Longrightarrow> sent c' = sent c @ s"
  by (auto simp: send_print_def result_simps dest!: send_Inr)

lemma send_all_Inr: "send_all os ss c = Inr c' \<Longrightarrow> sent c' = sent c @ concat ss"
  by (induction ss arbitrary: c) (auto simp: result_simps dest!: send_print_Inr)

lemma send_healthy:
  "healthy (outscript c) \<Longrightarrow> \<exists>c'. send os s c = Inr c' \<and> healthy (outscript c')"
  using Rio_writen_healthy [of "outscript c" "strerr os" s "errno0 os"]
  by (auto simp: send_def)

lemma send_all_healthy:
  "healthy (outscript c) \<Longrightarrow> \<forall>s \<in> set ss. length s < MAXLINE \<Longrightarrow>
     \<exists>c'. send_all os ss c = Inr c' \<and> healthy (outscript c')"
proof (induction ss arbitrary: c)
  case Nil
  then show ?case by simp
next
  case (Cons s ss)
  then obtain c1 where c1: "send os s c = Inr c1" "healthy (outscript c1)" using send_healthy by blast
  let ?c = "c1\<lparr>printed := printed c1 @ s\<rparr>"
  have "send_print os s c = Inr ?c" using c1(1) Cons.prems(2) by (simp add: send_print_def put_def)
  moreover have "healthy (outscript ?c)" using c1(2) by simp
  ultimately show ?case using Cons.IH [of ?c] Cons.prems(2) by auto
qed

definition error_response ::
    "'d os \<Rightarrow> string \<Rightarrow> string \<Rightarrow> string \<Rightarrow> string \<Rightarrow> stats_t \<Rightarrow> 'd \<Rightarrow> 'd \<Rightarrow> string" where
  "error_response os cause errnum shortmsg longmsg stats at di =
     concat (error_headers os errnum shortmsg (length (error_body cause errnum shortmsg longmsg)) stats at di) @
     error_body cause errnum shortmsg longmsg"

lemma requestError_Inr:
  "requestError os cause errnum shortmsg longmsg stats at di c = Inr c' \<Longrightarrow>
     sent c' = sent c @ error_response os cause errnum shortmsg longmsg stats at di"
  by (auto simp: requestError_def error_response_def result_simps dest!: send_all_Inr send_Inr)

lemma requestServeStatic_Inr:
  "requestServeStatic os filename n stats at di c = Inr c' \<Longrightarrow>
     \<exists>srcp. sent c' = sent c @ static_header os filename n stats at di @ mem os srcp (size_t_of n)"
  by (auto simp: requestServeStatic_def result_simps dest!: send_Inr)

lemma requestServeDynamic_Inr:
  "requestServeDynamic os filename args stats at di c = Inr c' \<Longrightarrow>
     sent c' = sent c @ ''HTTP/1.0 200 OK'' @ CRLF @ ''Server: OS-HW3 Web Server'' @ CRLF @ stat_lines os stats at di"
  by (auto simp: requestServeDynamic_def result_simps dest!: send_Inr)

text \<open>The three ways a handled request can end, with what was sent and what was counted.\<close>

definition answered_error :: "'d os \<Rightarrow> 'd \<Rightarrow> 'd \<Rightarrow> stats_t \<Rightarrow> stats_t \<Rightarrow> string \<Rightarrow> bool" where
  "answered_error os at di st st' resp \<longleftrightarrow> st' = st \<and>
     (\<exists>cause errnum shortmsg longmsg.
        (errnum, shortmsg) \<in> {(''501'', ''Not Implemented''), (''404'', ''Not found''), (''403'', ''Forbidden'')} \<and>
        resp = error_response os cause errnum shortmsg longmsg st' at di)"

definition answered_static :: "'d os \<Rightarrow> 'd \<Rightarrow> 'd \<Rightarrow> stats_t \<Rightarrow> stats_t \<Rightarrow> string \<Rightarrow> bool" where
  "answered_static os at di st st' resp \<longleftrightarrow>
     st' = st\<lparr>handler_thread_static_req_count := handler_thread_static_req_count st + 1\<rparr> \<and>
     (\<exists>filename m size srcp. prefix ''./public/'' filename \<and> \<not> strstr filename ''..'' \<and>
        stat_call os filename = Some (m, size) \<and> S_ISREG m \<and> S_IRUSR m \<and>
        resp = static_header os filename (to_int32 size) st' at di @ mem os srcp (size_t_of (to_int32 size)))"

definition answered_dynamic :: "'d os \<Rightarrow> 'd \<Rightarrow> 'd \<Rightarrow> stats_t \<Rightarrow> stats_t \<Rightarrow> string \<Rightarrow> bool" where
  "answered_dynamic os at di st st' resp \<longleftrightarrow>
     st' = st\<lparr>handler_thread_dynamic_req_count := handler_thread_dynamic_req_count st + 1\<rparr> \<and>
     resp = ''HTTP/1.0 200 OK'' @ CRLF @ ''Server: OS-HW3 Web Server'' @ CRLF @ stat_lines os st' at di"

lemma error_answered:
  assumes "rbind (requestError os cause errnum shortmsg longmsg st at di c) (\<lambda>c'. Inr (st, c')) = Inr (st', c')"
    and "(errnum, shortmsg) \<in> {(''501'', ''Not Implemented''), (''404'', ''Not found''), (''403'', ''Forbidden'')}"
  shows "\<exists>resp. sent c' = sent c @ resp \<and> answered_error os at di st st' resp"
proof -
  have run: "requestError os cause errnum shortmsg longmsg st at di c = Inr c'" and st: "st' = st"
    using assms(1) by (auto simp: rbind_Inr_iff)
  have "answered_error os at di st st' (error_response os cause errnum shortmsg longmsg st at di)"
    unfolding answered_error_def st using assms(2)
    by (intro conjI refl exI [of _ cause] exI [of _ errnum] exI [of _ shortmsg] exI [of _ longmsg])
  with requestError_Inr [OF run] show ?thesis by (intro exI conjI)
qed

lemma static_answered:
  assumes "rbind (int_inc (handler_thread_static_req_count st)) (\<lambda>k.
      let st' = st\<lparr>handler_thread_static_req_count := k\<rparr> in
      rbind (requestServeStatic os filename (to_int32 sz) st' at di c) (\<lambda>c'. Inr (st', c'))) = Inr (st', c')"
    and "prefix ''./public/'' filename" and "\<not> strstr filename ''..''"
    and "stat_call os filename = Some (m, sz)" and "S_ISREG m" and "S_IRUSR m"
  shows "\<exists>resp. sent c' = sent c @ resp \<and> answered_static os at di st st' resp"
proof -
  have st': "st' = st\<lparr>handler_thread_static_req_count := handler_thread_static_req_count st + 1\<rparr>"
    and run: "requestServeStatic os filename (to_int32 sz) st' at di c = Inr c'"
    using assms(1) by (auto simp: rbind_Inr_iff int_inc_def Let_def split: if_splits)
  from requestServeStatic_Inr [OF run] st' assms(2-) show ?thesis
    unfolding answered_static_def by blast
qed

lemma dynamic_answered:
  assumes "rbind (int_inc (handler_thread_dynamic_req_count st)) (\<lambda>k.
      let st' = st\<lparr>handler_thread_dynamic_req_count := k\<rparr> in
      rbind (requestServeDynamic os filename args st' at di c) (\<lambda>c'. Inr (st', c'))) = Inr (st', c')"
  shows "\<exists>resp. sent c' = sent c @ resp \<and> answered_dynamic os at di st st' resp"
proof -
  have st': "st' = st\<lparr>handler_thread_dynamic_req_count := handler_thread_dynamic_req_count st + 1\<rparr>"
    and run: "requestServeDynamic os filename args st' at di c = Inr c'"
    using assms by (auto simp: rbind_Inr_iff int_inc_def Let_def split: if_splits)
  from requestServeDynamic_Inr [OF run] st' show ?thesis
    unfolding answered_dynamic_def by blast
qed

lemma serve_uri_Inr:
  assumes run: "serve_uri os uri st at di c = Inr (st', c')"
  shows "\<exists>resp. sent c' = sent c @ resp \<and> (answered_error os at di st st' resp \<or>
     answered_static os at di st st' resp \<or> answered_dynamic os at di st st' resp)"
proof -
  obtain is_static filename args where p: "requestParseURI uri = Inr (is_static, filename, args)"
    using assms by (auto simp: serve_uri_def result_simps)
  have conf: "prefix ''./public/'' filename" "\<not> strstr filename ''..''"
    using requestParseURI_filename [OF p] by blast+
  note run' = run [unfolded serve_uri_def p rbind.simps prod.case]
  show ?thesis
  proof (cases "stat_call os filename")
    case None
    show ?thesis using error_answered [OF run' [unfolded None option.case]] by auto
  next
    case (Some ms)
    obtain m sz where ms: "stat_call os filename = Some (m, sz)" using Some by (cases ms) simp
    consider (forbidden_s) "is_static \<noteq> 0" "\<not> S_ISREG m \<or> \<not> S_IRUSR m" |
      (static) "is_static \<noteq> 0" "S_ISREG m" "S_IRUSR m" |
      (forbidden_d) "is_static = 0" "\<not> S_ISREG m \<or> \<not> S_IXUSR m" |
      (dynamic) "is_static = 0" "S_ISREG m" "S_IXUSR m" by blast
    then show ?thesis
    proof cases
      case forbidden_s
      then have "rbind (requestError os filename ''403'' ''Forbidden''
          ''OS-HW3 Server could not read this file'' st at di c) (\<lambda>c'. Inr (st, c')) = Inr (st', c')"
        using run' ms by simp
      from error_answered [OF this] show ?thesis by auto
    next
      case static
      have "rbind (int_inc (handler_thread_static_req_count st)) (\<lambda>k.
          let st' = st\<lparr>handler_thread_static_req_count := k\<rparr> in
          rbind (requestServeStatic os filename (to_int32 sz) st' at di c) (\<lambda>c'. Inr (st', c'))) = Inr (st', c')"
        using run' ms static by simp
      from static_answered [OF this conf ms static(2,3)] show ?thesis by blast
    next
      case forbidden_d
      then have "rbind (requestError os filename ''403'' ''Forbidden''
          ''OS-HW3 Server could not run this CGI program'' st at di c) (\<lambda>c'. Inr (st, c')) = Inr (st', c')"
        using run' ms by simp
      from error_answered [OF this] show ?thesis by auto
    next
      case dynamic
      have "rbind (int_inc (handler_thread_dynamic_req_count st)) (\<lambda>k.
          let st' = st\<lparr>handler_thread_dynamic_req_count := k\<rparr> in
          rbind (requestServeDynamic os filename (case args of None \<Rightarrow> [] | Some a \<Rightarrow> a) st' at di c)
            (\<lambda>c'. Inr (st', c'))) = Inr (st', c')"
        using run' ms dynamic by simp
      from dynamic_answered [OF this] show ?thesis by blast
    qed
  qed
qed

lemma answer_request_Inr:
  assumes "answer_request os rp meth uri st at di c = Some (Inr (st', c'))"
  shows "\<exists>resp. sent c' = sent c @ resp \<and> (answered_error os at di st st' resp \<or>
     answered_static os at di st st' resp \<or> answered_dynamic os at di st st' resp)"
proof (cases "strcasecmp_eq meth ''GET''")
  case True
  then obtain evs where "serve_uri os uri st at di (c\<lparr>inscript := evs\<rparr>) = Inr (st', c')"
    using assms by (auto simp: answer_request_def result_simps)
  from serve_uri_Inr [OF this] show ?thesis by simp
next
  case False
  then have "rbind (requestError os meth ''501'' ''Not Implemented''
      ''OS-HW3 Server does not implement this method'' st at di c) (\<lambda>c'. Inr (st, c')) = Inr (st', c')"
    using assms by (simp add: answer_request_def)
  from error_answered [OF this] show ?thesis by auto
qed

text \<open>
  Claim C19. Every request that \<open>requestHandle\<close> finishes gets exactly one response: an error
  page, whose \<open>Content-Length\<close> is the length of its body; a readable regular file below
  \<open>./public/\<close> with its header; or the first part of a CGI response. The request counter
  grows by one, and the static or the dynamic counter by one exactly for the last two.
\<close>

theorem requestHandle_answers_once:
  assumes "requestHandle os junk st at di c = Some (Inr (st', c'))"
  shows "\<exists>resp. sent c' = sent c @ resp \<and>
     (let st1 = st\<lparr>handler_thread_req_count := handler_thread_req_count st + 1\<rparr> in
      answered_error os at di st1 st' resp \<or> answered_static os at di st1 st' resp \<or>
      answered_dynamic os at di st1 st' resp)"
proof -
  let ?st1 = "st\<lparr>handler_thread_req_count := handler_thread_req_count st + 1\<rparr>"
  obtain rp meth uri version evs where
    "answer_request os rp meth uri ?st1 at di
       (c\<lparr>inscript := evs, printed := printed c @ meth @ '' '' @ uri @ '' '' @ version @ [LF]\<rparr>) = Some (Inr (st', c'))"
    using assms by (auto simp: requestHandle_def result_simps int_inc_def split: if_splits)
  from answer_request_Inr [OF this] show ?thesis by (simp add: Let_def)
qed

text \<open>
  Asking for an empty regular file ends the whole server: mapping a file of length
  0 fails, as \<open>mmap\<close> documents, and \<open>Mmap\<close> then calls \<open>exit\<close>.
\<close>

theorem empty_file_ends_server:
  assumes "\<And>a prot flags d off. fst (mmap_call os a 0 prot flags d off) = -1"
    and "requestParseURI uri = Inr (1, filename, args)"
    and "stat_call os filename = Some (m, 0)" and "S_ISREG m" and "S_IRUSR m"
    and "0 \<le> fst (open_call os filename 0 0)"
    and "handler_thread_static_req_count st < 2 ^ 31 - 1"
  shows "\<exists>msg. serve_uri os uri st at di c = Inl (Exit 0 msg)"
  using assms
  by (auto simp: serve_uri_def int_inc_def Let_def requestServeStatic_def Open_def Mmap_def
      size_t_of_def case_prod_unfold unix_error_def)

text \<open>The file system calls that a readable file needs, all of them succeeding.\<close>

definition file_calls_ok :: "'d os \<Rightarrow> string \<Rightarrow> nat \<Rightarrow> bool" where
  "file_calls_ok os filename n \<longleftrightarrow>
     (let srcfd = fst (open_call os filename 0 0); srcp = fst (mmap_call os 0 n 1 2 srcfd 0) in
      0 \<le> srcfd \<and> srcp \<noteq> -1 \<and> 0 \<le> fst (close_call os srcfd) \<and> 0 \<le> fst (munmap_call os srcp n))"

lemma requestServeStatic_runs:
  assumes "file_calls_ok os filename (size_t_of n)" and "healthy (outscript c)"
    and "length (static_header os filename n st at di) < MAXBUF"
  shows "\<exists>c'. requestServeStatic os filename n st at di c = Inr c'"
proof -
  let ?h = "static_header os filename n st at di"
  obtain c1 where c1: "send os ?h c = Inr c1" "healthy (outscript c1)"
    using send_healthy [OF assms(2)] by blast
  have "\<exists>c2. send os t c1 = Inr c2" for t using send_healthy [OF c1(2)] by blast
  with c1(1) assms(1,3) show ?thesis
    by (auto simp: requestServeStatic_def Open_def Mmap_def Close_def Munmap_def put_def
        file_calls_ok_def Let_def case_prod_unfold rbind_Inr_iff)
qed

lemma requestHandle_reads_line:
  assumes "steady (inscript c)" and "bytes_of (inscript c) = l @ rest" and "hdr_line l"
    and "parse_request_line l = Inr (meth, uri, version)"
    and "handler_thread_req_count st < 2 ^ 31 - 1"
  shows "\<exists>rp evs. requestHandle os junk st at di c =
      answer_request os rp meth uri (st\<lparr>handler_thread_req_count := handler_thread_req_count st + 1\<rparr>) at di
        (c\<lparr>inscript := evs, printed := printed c @ meth @ '' '' @ uri @ '' '' @ version @ [LF]\<rparr>) \<and>
    steady evs \<and> rio_ok rp \<and> avail rp evs = rest"
proof -
  let ?rp = "rio_readinitb (fd c) junk"
  have "avail ?rp (inscript c) = l @ rest" "rio_ok ?rp" using assms(2) by simp_all
  from Rio_readlineb_line [OF assms(1) this(2,1) assms(3), of "strerr os"] assms(4,5) show ?thesis
    by (fastforce simp: requestHandle_def Rio_readinitb_def int_inc_def)
qed

lemma requestHandle_static_run:
  assumes "steady (inscript c)" and "bytes_of (inscript c) = l @ concat hs @ CRLF @ rest"
    and "hdr_line l" and "parse_request_line l = Inr (meth, uri, version)" and "strcasecmp_eq meth ''GET''"
    and "\<forall>h \<in> set hs. hdr_line h \<and> cstr h \<noteq> CRLF"
    and "requestParseURI uri = Inr (1, filename, args)"
    and "stat_call os filename = Some (m, sz)" and "S_ISREG m" and "S_IRUSR m"
    and "0 < sz" and "sz < 2 ^ 31" and "file_calls_ok os filename (nat sz)" and "healthy (outscript c)"
    and "handler_thread_req_count st < 2 ^ 31 - 1" and "handler_thread_static_req_count st < 2 ^ 31 - 1"
    and st': "st' = st\<lparr>handler_thread_req_count := handler_thread_req_count st + 1,
      handler_thread_static_req_count := handler_thread_static_req_count st + 1\<rparr>"
    and "length (static_header os filename sz st' at di) < MAXBUF"
  shows "\<exists>c' srcp. requestHandle os junk st at di c = Some (Inr (st', c')) \<and>
    sent c' = sent c @ static_header os filename sz st' at di @ mem os srcp (nat sz)"
proof -
  let ?st1 = "st\<lparr>handler_thread_req_count := handler_thread_req_count st + 1\<rparr>"
  let ?c = "\<lambda>evs. c\<lparr>inscript := evs, printed := printed c @ meth @ '' '' @ uri @ '' '' @ version @ [LF]\<rparr>"
  let ?d = "\<lambda>evs. c\<lparr>printed := printed c @ meth @ '' '' @ uri @ '' '' @ version @ [LF], inscript := evs\<rparr>"
  obtain rp evs where 1: "requestHandle os junk st at di c = answer_request os rp meth uri ?st1 at di (?c evs)"
      "steady evs" "rio_ok rp" "avail rp evs = concat hs @ CRLF @ rest"
    using requestHandle_reads_line [OF assms(1,2,3,4,15), of os junk at di] by blast
  obtain rp' evs' where 2: "requestReadhdrs (strerr os) rp evs = Some (Inr (rp', evs'))"
    using readhdrs_returns [OF 1(2,3,4) assms(6)] by blast
  have n: "size_t_of sz = nat sz" "to_int32 sz = sz"
    using assms(11,12) by (simp_all add: size_t_of_def)
  obtain c' where 3: "requestServeStatic os filename sz st' at di (?d evs') = Inr c'"
    using requestServeStatic_runs [of os filename sz "?d evs'" st' at di] assms(13,14,18) n(1) by auto
  have "requestHandle os junk st at di c = Some (Inr (st', c'))"
    using 1(1) 2 3 assms(5,7-10,16) n(2) unfolding st'
    by (simp add: answer_request_def serve_uri_def int_inc_def Let_def)
  then show ?thesis using requestServeStatic_Inr [OF 3] n(1) by auto
qed


section \<open>Witnesses\<close>

text \<open>A system with one readable file, and a client that asks for it in two chunks.\<close>

definition demo_os :: "nat \<Rightarrow> int \<Rightarrow> int os" where
  "demo_os m sz = \<lparr>fmt6 = show_int,
     stat_call = (\<lambda>f. if f = ''./public//a.html'' then Some (m, sz) else None),
     open_call = (\<lambda>_ _ _. (7, [])),
     mmap_call = (\<lambda>_ n _ _ _ _. (if n = 0 then (-1, ''Invalid argument'') else (4096, []))),
     mem = (\<lambda>_ n. replicate n CHR ''x''),
     munmap_call = (\<lambda>_ _. (0, [])), close_call = (\<lambda>_. (0, [])), fork_call = (9, []),
     setenv_call = (\<lambda>_ _ _. (0, [])), dup2_call = (\<lambda>_ d. (d, [])), execve_call = (\<lambda>_ _ _. (-1, [])),
     environ = [], waitpid_call = (\<lambda>p _. (p, 0, [])), strerr = [], errno0 = 0\<rparr>"

definition demo_conn :: conn where
  "demo_conn = \<lparr>fd = 5, inscript = [Data ''GET /a.html HT'', Data (''TP/1.0'' @ CRLF @ ''Host: h'' @ CRLF @ CRLF)],
     outscript = [Takes 10, Write_err EINTR], sent = [], printed = []\<rparr>"

definition demo_stats :: stats_t where
  "demo_stats = \<lparr>handler_thread_id = 2, handler_thread_req_count = 3,
     handler_thread_static_req_count = 1, handler_thread_dynamic_req_count = 0\<rparr>"

definition demo_stats' :: stats_t where
  "demo_stats' = \<lparr>handler_thread_id = 2, handler_thread_req_count = 4,
     handler_thread_static_req_count = 2, handler_thread_dynamic_req_count = 0\<rparr>"

lemma demo_uri: "requestParseURI ''/a.html'' = Inr (1, ''./public//a.html'', Some [])"
  by (simp add: requestParseURI_def put_def MAXLINE_def prefix_def)

lemma demo_line:
  "hdr_line (''GET /a.html HTTP/1.0'' @ CRLF)"
  "\<forall>h \<in> set [''Host: h'' @ CRLF]. hdr_line h \<and> cstr h \<noteq> CRLF"
  "parse_request_line (''GET /a.html HTTP/1.0'' @ CRLF) = Inr (''GET'', ''/a.html'', ''HTTP/1.0'')"
  "strcasecmp_eq ''GET'' ''GET''"
  by (simp_all add: hdr_line_def MAXLINE_def cstr_def parse_request_line_def scan_word_def isspace_def
      strcasecmp_eq_def)

lemma demo_stream:
  "steady (inscript demo_conn)" "healthy (outscript demo_conn)"
  "bytes_of (inscript demo_conn) =
     (''GET /a.html HTTP/1.0'' @ CRLF) @ concat [''Host: h'' @ CRLF] @ CRLF @ []"
  by (simp_all add: demo_conn_def)

lemma demo_mode: "S_ISREG 33188" "S_IRUSR 33188"
  by (simp_all add: S_ISREG_def S_IRUSR_def)

lemma demo_header:
  "length (static_header (demo_os 33188 3) ''./public//a.html'' 3 demo_stats' 8 1) < MAXBUF"
  by (simp add: static_header_def stat_lines_def demo_os_def demo_stats'_def requestGetFiletype_def
      show_int_def show_nat.simps MAXBUF_def prefix_def)

lemma demo_run:
  "\<exists>c' srcp. requestHandle (demo_os 33188 3) [] demo_stats 8 1 demo_conn = Some (Inr (demo_stats', c')) \<and>
     sent c' = sent demo_conn @ static_header (demo_os 33188 3) ''./public//a.html'' 3 demo_stats' 8 1 @
       mem (demo_os 33188 3) srcp (nat 3)"
  by (rule requestHandle_static_run [OF demo_stream(1,3) demo_line(1,3,4,2) demo_uri _ demo_mode _ _ _ demo_stream(2)])
    (simp_all add: demo_header, simp_all add: demo_os_def demo_stats_def demo_stats'_def file_calls_ok_def)


theorem requestHandle_answers_once_witness:
  "\<exists>c' resp. requestHandle (demo_os 33188 3) [] demo_stats 8 1 demo_conn = Some (Inr (demo_stats', c')) \<and>
     sent c' = sent demo_conn @ resp"
proof -
  obtain c' where run: "requestHandle (demo_os 33188 3) [] demo_stats 8 1 demo_conn = Some (Inr (demo_stats', c'))"
    using demo_run by blast
  from requestHandle_answers_once [OF run] run show ?thesis by blast
qed

theorem empty_file_ends_server_witness:
  "\<exists>msg. serve_uri (demo_os 33188 0) ''/a.html'' demo_stats 8 1 demo_conn = Inl (Exit 0 msg)"
  by (rule empty_file_ends_server [OF _ demo_uri _ demo_mode]) (simp_all add: demo_os_def demo_stats_def)

end
