(* ===== verification/Server.thy ===== *)
theory Server
  imports ConnQueue Request "HOL-Library.Multiset"
begin

text \<open>
  The multi-threaded server (hw3/wet/server.c). Main accepts connections and puts them in the
  queue; worker threads take them out and call \<open>requestHandle\<close>. The two mutexes, the two
  condition variables, the counter of working threads and the queue are one shared state;
  every statement between two synchronisation calls is one step of one thread, and a thread
  that cannot take a mutex or sleeps on a condition has no step. What the environment decides
  (the accepted descriptor, the clock, what \<open>malloc\<close> and \<open>rand\<close> return, which sleeping
  worker a signal wakes, how a request proceeds) is the argument \<open>choice\<close> of a step. A step
  of the form \<open>Some (Inl stop)\<close> ends the process.
\<close>

section \<open>Command line\<close>

record args =
  port :: int
  num_of_threads :: int
  arg_queue_size :: int
  arg_schedalg :: string
  arg_max_size :: "int option"

definition wrong_usage :: "string list \<Rightarrow> 'a res" where
  "wrong_usage argv = Inl (Exit 1 (''Wrong Usage for: '' @ (case argv of [] \<Rightarrow> ''(null)'' | a # _ \<Rightarrow> a) @ [LF]))"

definition getargs :: "string list \<Rightarrow> args res" where
  "getargs argv =
     (if length argv < 5 then wrong_usage argv
      else
        let a = \<lparr>port = atoi (argv ! 1), num_of_threads = atoi (argv ! 2), arg_queue_size = atoi (argv ! 3),
                 arg_schedalg = argv ! 4, arg_max_size = None\<rparr> in
        if argv ! 4 = ''dynamic'' then
          (if length argv < 6 then wrong_usage argv
           else Inr (a\<lparr>arg_max_size := Some (atoi (argv ! 5))\<rparr>))
        else Inr a)"

section \<open>State\<close>

datatype tid = Main | Worker nat

text \<open>
  The program points of \<open>thread_func\<close>, named after the statement the thread is about to run:
  \<open>WTest\<close> is the test of the inner \<open>while\<close>, \<open>WWait\<close> sleeping in \<open>pthread_cond_wait\<close>,
  \<open>WRelock\<close> woken and about to take the mutex again.
\<close>

datatype worker_pc = WLock1 | WLock2 | WDeq | WUnlock2 | WTest | WWait | WRelock | WUnlock1
  | WHandle | WLockD | WDec | WUnlockD | WSig | WClose

record 'd worker =
  wpc :: worker_pc
  element :: int
  w_arrival :: "'d option"
  w_dispatch :: "'d option"
  w_stats :: stats_t

text \<open>The program points of \<open>handle_overloading\<close>, by scheduling policy.\<close>

datatype over_pc = OEntry
  | BLock | BTest | BWait | BWoken | BUnlock
  | OClose
  | HLock | HDeq | HClose int int | HUnlock int
  | FLock | FTest | FWait | FWoken | FUnlock
  | DClose
  | RLock | RTest | RUnlockEmpty | RLoop int

datatype main_pc = MAccept | MLock2 | MTest | MUnlock2 bool | MOver over_pc | MLockE | MEnq | MUnlockE | MSignal

record 'd server =
  qs :: "'d qstate"
  num_of_curr_working :: int
  size_limit :: int
  max_size :: "int option"
  schedalg :: string
  mutex :: "tid option"
  mutex2 :: "tid option"
  mpc :: main_pc
  listenfd :: int
  connfd :: int
  m_arrival :: 'd
  workers :: "'d worker list"
  accepted_fds :: "int list"
  closed_fds :: "int list"
  main_out :: string

record 'd choice =
  sock :: sockets
  clock :: 'd
  new_block :: "addr option"
  rand_val :: int
  wakes :: nat
  close_res :: "int \<times> string"
  req_os :: "'d os"
  req_junk :: string
  req_conn :: conn

abbreviation qlen :: "'d server \<Rightarrow> int" where
  "qlen s \<equiv> queue_size (queue (qs s))"

section \<open>Synchronisation\<close>

definition lock1 :: "tid \<Rightarrow> 'd server \<Rightarrow> 'd server comp" where
  "lock1 t s = (if mutex s = None then Some (Inr (s\<lparr>mutex := Some t\<rparr>)) else None)"

definition lock2 :: "tid \<Rightarrow> 'd server \<Rightarrow> 'd server comp" where
  "lock2 t s = (if mutex2 s = None then Some (Inr (s\<lparr>mutex2 := Some t\<rparr>)) else None)"

abbreviation unlock1 :: "'d server \<Rightarrow> 'd server" where "unlock1 s \<equiv> s\<lparr>mutex := None\<rparr>"
abbreviation unlock2 :: "'d server \<Rightarrow> 'd server" where "unlock2 s \<equiv> s\<lparr>mutex2 := None\<rparr>"

definition upd_worker :: "nat \<Rightarrow> ('d worker \<Rightarrow> 'd worker) \<Rightarrow> 'd server \<Rightarrow> 'd server" where
  "upd_worker i f s = s\<lparr>workers := (workers s)[i := f (workers s ! i)]\<rparr>"

definition wgoto :: "nat \<Rightarrow> worker_pc \<Rightarrow> 'd server \<Rightarrow> 'd server" where
  "wgoto i pc = upd_worker i (\<lambda>w. w\<lparr>wpc := pc\<rparr>)"

definition waiting :: "'d worker \<Rightarrow> bool" where
  "waiting w \<longleftrightarrow> wpc w = WWait"

text \<open>
  \<open>pthread_cond_signal (&cond)\<close>: it wakes a sleeping worker when there is one; further wake-ups
  are the spurious ones below. Only main sleeps on \<open>cond2\<close>.
\<close>

definition signal_cond :: "nat \<Rightarrow> 'd server \<Rightarrow> 'd server comp" where
  "signal_cond i s =
     (if \<exists>w \<in> set (workers s). waiting w then
        (if i < length (workers s) \<and> waiting (workers s ! i) then Some (Inr (wgoto i WRelock s)) else None)
      else Some (Inr s))"

definition signal_cond2 :: "'d server \<Rightarrow> 'd server" where
  "signal_cond2 s =
     (if mpc s = MOver BWait then s\<lparr>mpc := MOver BWoken\<rparr>
      else if mpc s = MOver FWait then s\<lparr>mpc := MOver FWoken\<rparr>
      else s)"

definition close_fd :: "'d choice \<Rightarrow> int \<Rightarrow> 'd server \<Rightarrow> 'd server comp" where
  "close_fd ch d s = Some (rbind (Close (\<lambda>_. close_res ch) d) (\<lambda>_. Inr (s\<lparr>closed_fds := d # closed_fds s\<rparr>)))"

section \<open>Worker threads\<close>

definition deq_step :: "nat \<Rightarrow> 'd::minus choice \<Rightarrow> 'd server \<Rightarrow> 'd server comp" where
  "deq_step i ch s =
     Some (rbind (dequeue True True (clock ch) (qs s)) (\<lambda>(q, e, a, d).
       let s1 = upd_worker i (\<lambda>w. w\<lparr>element := e,
                   w_arrival := (case a of None \<Rightarrow> w_arrival w | Some x \<Rightarrow> Some x),
                   w_dispatch := (case d of None \<Rightarrow> w_dispatch w | Some x \<Rightarrow> Some x)\<rparr>) (s\<lparr>qs := q\<rparr>) in
       if e \<noteq> -1 then rbind (int_inc (num_of_curr_working s1)) (\<lambda>n. Inr (s1\<lparr>num_of_curr_working := n\<rparr>))
       else Inr s1))"

definition handle_step :: "nat \<Rightarrow> 'd choice \<Rightarrow> 'd server \<Rightarrow> 'd server comp" where
  "handle_step i ch s =
     (let w = workers s ! i in
      case (w_arrival w, w_dispatch w) of
        (Some a, Some d) \<Rightarrow>
          cbind (requestHandle (req_os ch) (req_junk ch) (w_stats w) a d ((req_conn ch)\<lparr>fd := element w\<rparr>))
            (\<lambda>(st, c). Some (Inr (upd_worker i (\<lambda>w. w\<lparr>w_stats := st\<rparr>) s)))
      | _ \<Rightarrow> Some (Inl (UB Uninit_read)))"

definition worker_step :: "nat \<Rightarrow> 'd::minus choice \<Rightarrow> 'd server \<Rightarrow> 'd server comp" where
  "worker_step i ch s =
     (let w = workers s ! i; go = (\<lambda>pc s. Some (Inr (wgoto i pc s))) in
      case wpc w of
        WLock1 \<Rightarrow> cbind (lock1 (Worker i) s) (go WLock2)
      | WLock2 \<Rightarrow> cbind (lock2 (Worker i) s) (go WDeq)
      | WDeq \<Rightarrow> cbind (deq_step i ch s) (go WUnlock2)
      | WUnlock2 \<Rightarrow> go WTest (unlock2 s)
      | WTest \<Rightarrow> (if element w = -1 then go WWait (unlock1 s) else go WUnlock1 s)
      | WWait \<Rightarrow> None
      | WRelock \<Rightarrow> cbind (lock1 (Worker i) s) (go WLock2)
      | WUnlock1 \<Rightarrow> go WHandle (unlock1 s)
      | WHandle \<Rightarrow> cbind (handle_step i ch s) (go WLockD)
      | WLockD \<Rightarrow> cbind (lock2 (Worker i) s) (go WDec)
      | WDec \<Rightarrow> go WUnlockD (s\<lparr>num_of_curr_working := num_of_curr_working s - 1\<rparr>)
      | WUnlockD \<Rightarrow> go WSig (unlock2 s)
      | WSig \<Rightarrow> go WClose (signal_cond2 s)
      | WClose \<Rightarrow> cbind (close_fd ch (element w) s) (go WLock1))"

section \<open>The overload policies\<close>

text \<open>\<open>Inl pc\<close> goes on inside \<open>handle_overloading\<close>, \<open>Inr rc\<close> returns \<open>rc\<close>.\<close>

definition policy_entry :: "string \<Rightarrow> over_pc + int" where
  "policy_entry alg =
     (if alg = ''block'' then Inl BLock
      else if alg = ''dt'' then Inl OClose
      else if alg = ''dh'' then Inl HLock
      else if alg = ''bf'' then Inl FLock
      else if alg = ''dynamic'' then Inl DClose
      else if alg = ''random'' then Inl RLock
      else Inr 0)"

definition handle_overloading ::
    "'d::minus choice \<Rightarrow> over_pc \<Rightarrow> 'd server \<Rightarrow> ((over_pc + int) \<times> 'd server) comp" where
  "handle_overloading ch pc s =
     (let go = (\<lambda>pc s. Some (Inr (Inl pc, s))); ret = (\<lambda>rc s. Some (Inr (Inr rc, s))) in
      case pc of
        OEntry \<Rightarrow> Some (Inr (policy_entry (schedalg s), s))
      | BLock \<Rightarrow> cbind (lock2 Main s) (go BTest)
      | BTest \<Rightarrow> (if qlen s + num_of_curr_working s \<ge> size_limit s then go BWait (unlock2 s) else go BUnlock s)
      | BWait \<Rightarrow> None
      | BWoken \<Rightarrow> cbind (lock2 Main s) (go BTest)
      | BUnlock \<Rightarrow> ret 0 (unlock2 s)
      | OClose \<Rightarrow> cbind (close_fd ch (connfd s) s) (ret 1)
      | HLock \<Rightarrow> cbind (lock1 Main s) (go HDeq)
      | HDeq \<Rightarrow> Some (rbind (dequeue False False (clock ch) (qs s)) (\<lambda>(q, e, a, d).
          Inr (Inl (if e = -1 then HClose (connfd s) 1 else HClose e 0), s\<lparr>qs := q\<rparr>)))
      | HClose d rc \<Rightarrow> cbind (close_fd ch d s) (go (HUnlock rc))
      | HUnlock rc \<Rightarrow> ret rc (unlock1 s)
      | FLock \<Rightarrow> cbind (lock2 Main s) (go FTest)
      | FTest \<Rightarrow> (if qlen s + num_of_curr_working s \<noteq> 0 then go FWait (unlock2 s) else go FUnlock s)
      | FWait \<Rightarrow> None
      | FWoken \<Rightarrow> cbind (lock2 Main s) (go FTest)
      | FUnlock \<Rightarrow> go OClose (unlock2 s)
      | DClose \<Rightarrow> cbind (close_fd ch (connfd s) s) (\<lambda>s.
          case max_size s of None \<Rightarrow> Some (Inl (UB Uninit_read))
          | Some m \<Rightarrow>
              if size_limit s < m
              then Some (rbind (int_inc (size_limit s)) (\<lambda>n. Inr (Inr 1, s\<lparr>size_limit := n\<rparr>)))
              else ret 1 s)
      | RLock \<Rightarrow> cbind (lock1 Main s) (go RTest)
      | RTest \<Rightarrow> (if qlen s = 0 then go RUnlockEmpty s else go (RLoop (qlen s div 2)) s)
      | RUnlockEmpty \<Rightarrow> go OClose (unlock1 s)
      | RLoop k \<Rightarrow>
          if 0 < k then
            (if qlen s = 0 then Some (Inl (UB Div_by_zero))
             else let random_to_del = rand_val ch mod qlen s + 1;
                      out = show_int (qlen s) @ '', '' @ show_int random_to_del @ [LF] in
               cbind (dequeue_i random_to_del (qs s)) (\<lambda>(q, e).
               cbind (close_fd ch e (s\<lparr>qs := q, main_out := main_out s @ out\<rparr>)) (go (RLoop (k - 1)))))
          else ret 0 (unlock1 s))"

section \<open>The main thread\<close>

definition main_step :: "'d::minus choice \<Rightarrow> 'd server \<Rightarrow> 'd server comp" where
  "main_step ch s =
     (let go = (\<lambda>pc s. Some (Inr (s\<lparr>mpc := pc\<rparr>))) in
      case mpc s of
        MAccept \<Rightarrow> cbind (Some (Accept (sock ch) (listenfd s))) (\<lambda>(rc, clientaddr).
          go MLock2 (s\<lparr>connfd := rc, m_arrival := clock ch, accepted_fds := rc # accepted_fds s\<rparr>))
      | MLock2 \<Rightarrow> cbind (lock2 Main s) (go MTest)
      | MTest \<Rightarrow> go (MUnlock2 (qlen s + num_of_curr_working s \<ge> size_limit s)) s
      | MUnlock2 is_overloaded \<Rightarrow> go (if is_overloaded then MOver OEntry else MLockE) (unlock2 s)
      | MOver pc \<Rightarrow> cbind (handle_overloading ch pc s) (\<lambda>(r, s).
          case r of Inl pc' \<Rightarrow> go (MOver pc') s | Inr rc \<Rightarrow> go (if rc \<noteq> 0 then MAccept else MLockE) s)
      | MLockE \<Rightarrow> cbind (lock1 Main s) (go MEnq)
      | MEnq \<Rightarrow> Some (rbind (enqueue (new_block ch) (connfd s) (m_arrival s) (qs s)) (\<lambda>q.
          Inr (s\<lparr>qs := q, mpc := MUnlockE\<rparr>)))
      | MUnlockE \<Rightarrow> go MSignal (unlock1 s)
      | MSignal \<Rightarrow> cbind (signal_cond (wakes ch) s) (go MAccept))"

definition init_worker :: "nat \<Rightarrow> 'd worker" where
  "init_worker i = \<lparr>wpc = WLock1, element = 0, w_arrival = None, w_dispatch = None,
     w_stats = \<lparr>handler_thread_id = int i, handler_thread_req_count = 0,
       handler_thread_static_req_count = 0, handler_thread_dynamic_req_count = 0\<rparr>\<rparr>"

text \<open>
  Everything before the loop of \<open>main\<close>: the queue, the arguments, one thread and its data per
  worker (the code ignores the result of \<open>pthread_create\<close>, which is taken to succeed), the listening socket. \<open>fd0\<close> and \<open>t0\<close> stand for the unset locals \<open>connfd\<close> and
  \<open>arrival_time\<close>, which the first accept sets.
\<close>

definition server_main ::
    "sockets \<Rightarrow> addr option \<Rightarrow> (addr \<rightharpoonup> 'd Node) \<Rightarrow> int \<Rightarrow> 'd \<Rightarrow> string list \<Rightarrow> 'd server res" where
  "server_main so blk h fd0 t0 argv =
     rbind (createQueue blk h) (\<lambda>q.
     rbind (getargs argv) (\<lambda>a.
     if num_of_threads a \<le> 0 then Inl (UB Bad_bound)
     else rbind (Open_listenfd so (port a)) (\<lambda>lfd.
       Inr \<lparr>qs = q, num_of_curr_working = 0, size_limit = arg_queue_size a, max_size = arg_max_size a,
             schedalg = arg_schedalg a, mutex = None, mutex2 = None, mpc = MAccept, listenfd = lfd, connfd = fd0,
             m_arrival = t0, workers = map init_worker [0..<nat (num_of_threads a)],
             accepted_fds = [], closed_fds = [], main_out = []\<rparr>)))"

section \<open>Runs\<close>

definition step :: "tid \<Rightarrow> 'd::minus choice \<Rightarrow> 'd server \<Rightarrow> 'd server comp" where
  "step t ch s = (case t of Main \<Rightarrow> main_step ch s
     | Worker i \<Rightarrow> if i < length (workers s) then worker_step i ch s else None)"

text \<open>
  What the environment owes a step: \<open>malloc\<close> returns a block not in use, \<open>rand\<close> is not
  negative.
\<close>

definition choice_ok :: "'d choice \<Rightarrow> 'd server \<Rightarrow> bool" where
  "choice_ok ch s \<longleftrightarrow> fresh_block (qs s) (new_block ch) \<and> 0 \<le> rand_val ch"

inductive reach :: "'d::minus server \<Rightarrow> 'd server \<Rightarrow> bool" for s0 where
  reach_refl: "reach s0 s0"
| reach_step: "reach s0 s \<Longrightarrow> choice_ok ch s \<Longrightarrow> step t ch s = Some (Inr s') \<Longrightarrow> reach s0 s'"
| reach_spurious: "reach s0 s \<Longrightarrow> i < length (workers s) \<Longrightarrow> waiting (workers s ! i) \<Longrightarrow>
    reach s0 (wgoto i WRelock s)"
| reach_spurious_main: "reach s0 s \<Longrightarrow> reach s0 (signal_cond2 s)"

definition init_ok :: "'d server \<Rightarrow> bool" where
  "init_ok s \<longleftrightarrow> qrep (qs s) [] \<and> num_of_curr_working s = 0 \<and> mutex s = None \<and> mutex2 s = None \<and>
     mpc s = MAccept \<and> accepted_fds s = [] \<and> closed_fds s = [] \<and>
     (\<forall>w \<in> set (workers s). wpc w = WLock1)"

end
