(* ===== verification/ServerSteps.thy ===== *)
theory ServerSteps
  imports Server
begin

text \<open>
  The steps of the server as a transition relation, with one rule per program point, and the
  facts every invariant of a run rests on: what the queue operations do to the contents, which
  program points hold which mutex, and what each worker knows about the queue.
\<close>

section \<open>Who holds which mutex\<close>

fun worker_holds1 :: "worker_pc \<Rightarrow> bool" where
  "worker_holds1 WLock2 = True" | "worker_holds1 WDeq = True" | "worker_holds1 WUnlock2 = True"
| "worker_holds1 WTest = True" | "worker_holds1 WUnlock1 = True" | "worker_holds1 _ = False"

fun worker_holds2 :: "worker_pc \<Rightarrow> bool" where
  "worker_holds2 WDeq = True" | "worker_holds2 WUnlock2 = True" | "worker_holds2 WDec = True"
| "worker_holds2 WUnlockD = True" | "worker_holds2 _ = False"

fun over_holds1 :: "over_pc \<Rightarrow> bool" where
  "over_holds1 HDeq = True" | "over_holds1 (HClose _ _) = True" | "over_holds1 (HUnlock _) = True"
| "over_holds1 RTest = True" | "over_holds1 RUnlockEmpty = True" | "over_holds1 (RLoop _) = True"
| "over_holds1 _ = False"

fun over_holds2 :: "over_pc \<Rightarrow> bool" where
  "over_holds2 BTest = True" | "over_holds2 BUnlock = True" | "over_holds2 FTest = True"
| "over_holds2 FUnlock = True" | "over_holds2 _ = False"

fun main_holds1 :: "main_pc \<Rightarrow> bool" where
  "main_holds1 (MOver pc) = over_holds1 pc" | "main_holds1 MEnq = True" | "main_holds1 MUnlockE = True"
| "main_holds1 _ = False"

fun main_holds2 :: "main_pc \<Rightarrow> bool" where
  "main_holds2 (MOver pc) = over_holds2 pc" | "main_holds2 (MUnlock2 b) = True" | "main_holds2 MTest = True"
| "main_holds2 _ = False"

text \<open>One mutex: \<open>mh\<close> says whether main is at a point that holds it, \<open>hs\<close> which workers are.\<close>

definition lock_ok :: "tid option \<Rightarrow> bool \<Rightarrow> bool list \<Rightarrow> bool" where
  "lock_ok m mh hs \<longleftrightarrow> (m = Some Main \<longleftrightarrow> mh) \<and> (\<forall>j. m = Some (Worker j) \<longleftrightarrow> j < length hs \<and> hs ! j)"

definition locks_ok :: "'d server \<Rightarrow> bool" where
  "locks_ok s \<longleftrightarrow>
     lock_ok (mutex s) (main_holds1 (mpc s)) (map (\<lambda>w. worker_holds1 (wpc w)) (workers s)) \<and>
     lock_ok (mutex2 s) (main_holds2 (mpc s)) (map (\<lambda>w. worker_holds2 (wpc w)) (workers s))"

lemma lock_okD:
  "lock_ok m mh hs \<Longrightarrow> m = Some Main \<longleftrightarrow> mh"
  "lock_ok m mh hs \<Longrightarrow> m = Some (Worker i) \<longleftrightarrow> i < length hs \<and> hs ! i"
  unfolding lock_ok_def by blast+

lemma lock_ok_worker_acq: "lock_ok None mh hs \<Longrightarrow> i < length hs \<Longrightarrow> lock_ok (Some (Worker i)) mh (hs[i := True])"
  by (auto simp: lock_ok_def nth_list_update)

lemma lock_ok_worker_rel: "lock_ok m mh hs \<Longrightarrow> i < length hs \<Longrightarrow> hs ! i \<Longrightarrow> lock_ok None mh (hs[i := False])"
proof -
  assume a: "lock_ok m mh hs" "i < length hs" "hs ! i"
  have m: "m = Some (Worker j) \<longleftrightarrow> j < length hs \<and> hs ! j" "m = Some Main \<longleftrightarrow> mh" for j
    using a(1) unfolding lock_ok_def by blast+
  have mi: "m = Some (Worker i)" using m(1) a(2,3) by blast
  have "\<not> (j < length hs \<and> hs[i := False] ! j)" for j
    using m(1) [of j] mi by (cases "j = i") auto
  moreover have "\<not> mh" using m(2) mi by blast
  ultimately show ?thesis by (simp add: lock_ok_def)
qed

lemma lock_ok_worker_same: "lock_ok m mh hs \<Longrightarrow> hs ! i = b \<Longrightarrow> lock_ok m mh (hs[i := b])"
  by (erule subst) simp

lemma lock_ok_main_acq: "lock_ok None False hs \<Longrightarrow> lock_ok (Some Main) True hs"
  by (auto simp: lock_ok_def)

lemma lock_ok_main_rel: "lock_ok m True hs \<Longrightarrow> lock_ok None False hs"
  by (auto simp: lock_ok_def)

lemmas lock_ok_intros = lock_ok_worker_acq lock_ok_worker_rel lock_ok_worker_same lock_ok_main_acq lock_ok_main_rel

lemma signal_cond2_simps [simp]:
  "workers (signal_cond2 s) = workers s" "qs (signal_cond2 s) = qs s"
  "mutex (signal_cond2 s) = mutex s" "mutex2 (signal_cond2 s) = mutex2 s"
  "num_of_curr_working (signal_cond2 s) = num_of_curr_working s" "size_limit (signal_cond2 s) = size_limit s"
  "schedalg (signal_cond2 s) = schedalg s" "connfd (signal_cond2 s) = connfd s"
  "max_size (signal_cond2 s) = max_size s" "m_arrival (signal_cond2 s) = m_arrival s"
  "accepted_fds (signal_cond2 s) = accepted_fds s" "closed_fds (signal_cond2 s) = closed_fds s"
  by (simp_all add: signal_cond2_def)

lemma signal_cond2_holds [simp]:
  "main_holds1 (mpc (signal_cond2 s)) = main_holds1 (mpc s)"
  "main_holds2 (mpc (signal_cond2 s)) = main_holds2 (mpc s)"
  by (auto simp: signal_cond2_def)

section \<open>The steps as a relation\<close>

text \<open>
  The same steps, as the transitions they make: one rule per program point. The invariants
  below are proved by cases on these rules.
\<close>

inductive wtrans :: "nat \<Rightarrow> 'd::minus server \<Rightarrow> 'd server \<Rightarrow> bool" for i s where
  w_lock1: "wpc (workers s ! i) = WLock1 \<or> wpc (workers s ! i) = WRelock \<Longrightarrow> mutex s = None \<Longrightarrow>
    wtrans i s (wgoto i WLock2 (s\<lparr>mutex := Some (Worker i)\<rparr>))"
| w_lock2: "wpc (workers s ! i) = WLock2 \<Longrightarrow> mutex2 s = None \<Longrightarrow>
    wtrans i s (wgoto i WDeq (s\<lparr>mutex2 := Some (Worker i)\<rparr>))"
| w_take: "wpc (workers s ! i) = WDeq \<Longrightarrow> dequeue True True now (qs s) = Inr (q, e, Some a, Some d) \<Longrightarrow>
    e \<noteq> -1 \<Longrightarrow> wtrans i s (upd_worker i (\<lambda>w. w\<lparr>element := e, w_arrival := Some a, w_dispatch := Some d, wpc := WUnlock2\<rparr>)
      (s\<lparr>qs := q, num_of_curr_working := num_of_curr_working s + 1\<rparr>))"
| w_none: "wpc (workers s ! i) = WDeq \<Longrightarrow> isEmpty (queue (qs s)) \<Longrightarrow>
    wtrans i s (upd_worker i (\<lambda>w. w\<lparr>element := -1, wpc := WUnlock2\<rparr>) s)"
| w_unlock2: "wpc (workers s ! i) = WUnlock2 \<Longrightarrow> wtrans i s (wgoto i WTest (unlock2 s))"
| w_wait: "wpc (workers s ! i) = WTest \<Longrightarrow> element (workers s ! i) = -1 \<Longrightarrow> wtrans i s (wgoto i WWait (unlock1 s))"
| w_got: "wpc (workers s ! i) = WTest \<Longrightarrow> element (workers s ! i) \<noteq> -1 \<Longrightarrow> wtrans i s (wgoto i WUnlock1 s)"
| w_unlock1: "wpc (workers s ! i) = WUnlock1 \<Longrightarrow> wtrans i s (wgoto i WHandle (unlock1 s))"
| w_handle: "wpc (workers s ! i) = WHandle \<Longrightarrow>
    wtrans i s (upd_worker i (\<lambda>w. w\<lparr>w_stats := st, wpc := WLockD\<rparr>) s)"
| w_lockd: "wpc (workers s ! i) = WLockD \<Longrightarrow> mutex2 s = None \<Longrightarrow>
    wtrans i s (wgoto i WDec (s\<lparr>mutex2 := Some (Worker i)\<rparr>))"
| w_dec: "wpc (workers s ! i) = WDec \<Longrightarrow>
    wtrans i s (wgoto i WUnlockD (s\<lparr>num_of_curr_working := num_of_curr_working s - 1\<rparr>))"
| w_unlockd: "wpc (workers s ! i) = WUnlockD \<Longrightarrow> wtrans i s (wgoto i WSig (unlock2 s))"
| w_sig: "wpc (workers s ! i) = WSig \<Longrightarrow> wtrans i s (wgoto i WClose (signal_cond2 s))"
| w_close: "wpc (workers s ! i) = WClose \<Longrightarrow>
    wtrans i s (wgoto i WLock1 (s\<lparr>closed_fds := element (workers s ! i) # closed_fds s\<rparr>))"

lemma upd_worker_twice:
  "i < length (workers s) \<Longrightarrow> wgoto i pc (upd_worker i f s) = upd_worker i (\<lambda>w. (f w)\<lparr>wpc := pc\<rparr>) s"
  by (simp add: wgoto_def upd_worker_def)

lemma dequeue_cases:
  assumes "dequeue True True now s = Inr (s', e, a, d)"
  obtains (none) "isEmpty (queue s)" "s' = s" "e = -1" "a = None" "d = None"
  | (some) x y where "a = Some x" "d = Some y" "\<not> isEmpty (queue s)"
  using assms by (auto simp: dequeue_def Let_def rbind_Inr_iff split: if_splits)

lemma deq_step_trans:
  assumes i: "i < length (workers s)" and pc: "wpc (workers s ! i) = WDeq"
    and ne: "\<forall>q a d. dequeue True True (clock ch) (qs s) \<noteq> Inr (q, -1, Some a, Some d)"
    and run: "deq_step i ch s = Some (Inr s1)"
  shows "wtrans i s (wgoto i WUnlock2 s1)"
proof -
  obtain q e a d where deq: "dequeue True True (clock ch) (qs s) = Inr (q, e, a, d)"
    using run by (cases "dequeue True True (clock ch) (qs s)") (auto simp: deq_step_def)
  from deq show ?thesis
  proof (cases rule: dequeue_cases)
    case none
    then have "s1 = upd_worker i (\<lambda>w. w\<lparr>element := -1\<rparr>) s"
      using run deq by (simp add: deq_step_def upd_worker_def)
    then have "wgoto i WUnlock2 s1 = upd_worker i (\<lambda>w. w\<lparr>element := -1, wpc := WUnlock2\<rparr>) s"
      using i by (simp add: upd_worker_twice)
    then show ?thesis using w_none [OF pc none(1)] by simp
  next
    case (some x y)
    then have e: "e \<noteq> -1" using ne deq by auto
    then have "s1 = upd_worker i (\<lambda>w. w\<lparr>element := e, w_arrival := Some x, w_dispatch := Some y\<rparr>)
        (s\<lparr>qs := q, num_of_curr_working := num_of_curr_working s + 1\<rparr>)"
      using run deq some by (auto simp: deq_step_def upd_worker_def int_inc_def Let_def split: if_splits)
    then have "wgoto i WUnlock2 s1 =
        upd_worker i (\<lambda>w. w\<lparr>element := e, w_arrival := Some x, w_dispatch := Some y, wpc := WUnlock2\<rparr>)
          (s\<lparr>qs := q, num_of_curr_working := num_of_curr_working s + 1\<rparr>)"
      using i by (simp add: upd_worker_twice)
    then show ?thesis using w_take [OF pc deq [unfolded some(1,2)] e] by simp
  qed
qed

lemma worker_step_trans:
  assumes i: "i < length (workers s)"
    and ne: "\<forall>q a d. dequeue True True (clock ch) (qs s) \<noteq> Inr (q, -1, Some a, Some d)"
    and run: "worker_step i ch s = Some (Inr s')"
  shows "wtrans i s s'"
proof (cases "wpc (workers s ! i)")
  case WLock1
  then show ?thesis using run w_lock1 [of s i] by (auto simp: worker_step_def lock1_def split: if_splits)
next
  case WLock2
  then show ?thesis using run w_lock2 [of s i] by (auto simp: worker_step_def lock2_def split: if_splits)
next
  case WDeq
  then show ?thesis using run deq_step_trans [OF i WDeq ne] by (auto simp: worker_step_def cbind_Inr_iff)
next
  case WUnlock2
  then show ?thesis using run w_unlock2 [of s i] by (auto simp: worker_step_def)
next
  case WTest
  then show ?thesis using run w_wait [of s i] w_got [of s i] by (auto simp: worker_step_def split: if_splits)
next
  case WWait
  then show ?thesis using run by (simp add: worker_step_def)
next
  case WRelock
  then show ?thesis using run w_lock1 [of s i] by (auto simp: worker_step_def lock1_def split: if_splits)
next
  case WUnlock1
  then show ?thesis using run w_unlock1 [of s i] by (auto simp: worker_step_def)
next
  case WHandle
  then obtain st where "s' = wgoto i WLockD (upd_worker i (\<lambda>w. w\<lparr>w_stats := st\<rparr>) s)"
    using run by (auto simp: worker_step_def handle_step_def cbind_Inr_iff Let_def split: option.splits)
  then show ?thesis using i w_handle [OF WHandle, of st] by (simp add: upd_worker_twice)
next
  case WLockD
  then show ?thesis using run w_lockd [of s i] by (auto simp: worker_step_def lock2_def split: if_splits)
next
  case WDec
  then show ?thesis using run w_dec [of s i] by (auto simp: worker_step_def)
next
  case WUnlockD
  then show ?thesis using run w_unlockd [of s i] by (auto simp: worker_step_def)
next
  case WSig
  then show ?thesis using run w_sig [of s i] by (auto simp: worker_step_def)
next
  case WClose
  then show ?thesis using run w_close [of s i] by (auto simp: worker_step_def close_fd_def rbind_Inr_iff cbind_Inr_iff Let_def)
qed

inductive mtrans :: "'d::minus server \<Rightarrow> 'd server \<Rightarrow> bool" for s where
  m_accept: "mpc s = MAccept \<Longrightarrow> 0 \<le> d \<Longrightarrow>
    mtrans s (s\<lparr>connfd := d, m_arrival := t, accepted_fds := d # accepted_fds s, mpc := MLock2\<rparr>)"
| m_lock2: "(mpc s, pc) \<in> {(MLock2, MTest), (MOver BLock, MOver BTest), (MOver BWoken, MOver BTest),
      (MOver FLock, MOver FTest), (MOver FWoken, MOver FTest)} \<Longrightarrow> mutex2 s = None \<Longrightarrow>
    mtrans s (s\<lparr>mutex2 := Some Main, mpc := pc\<rparr>)"
| m_lock1: "(mpc s, pc) \<in> {(MLockE, MEnq), (MOver HLock, MOver HDeq), (MOver RLock, MOver RTest)} \<Longrightarrow>
    mutex s = None \<Longrightarrow> mtrans s (s\<lparr>mutex := Some Main, mpc := pc\<rparr>)"
| m_test: "mpc s = MTest \<Longrightarrow> mtrans s (s\<lparr>mpc := MUnlock2 (qlen s + num_of_curr_working s \<ge> size_limit s)\<rparr>)"
| m_over: "mpc s = MUnlock2 True \<Longrightarrow> mtrans s (s\<lparr>mutex2 := None, mpc := MOver OEntry\<rparr>)"
| m_fits: "mpc s = MUnlock2 False \<Longrightarrow> mtrans s (s\<lparr>mutex2 := None, mpc := MLockE\<rparr>)"
| m_policy: "mpc s = MOver OEntry \<Longrightarrow> policy_entry (schedalg s) = Inl pc \<Longrightarrow> mtrans s (s\<lparr>mpc := MOver pc\<rparr>)"
| m_no_policy: "mpc s = MOver OEntry \<Longrightarrow> policy_entry (schedalg s) = Inr 0 \<Longrightarrow> mtrans s (s\<lparr>mpc := MLockE\<rparr>)"
| m_block_wait: "mpc s = MOver BTest \<Longrightarrow> qlen s + num_of_curr_working s \<ge> size_limit s \<Longrightarrow>
    mtrans s (s\<lparr>mutex2 := None, mpc := MOver BWait\<rparr>)"
| m_block_go: "mpc s = MOver BTest \<Longrightarrow> qlen s + num_of_curr_working s < size_limit s \<Longrightarrow>
    mtrans s (s\<lparr>mpc := MOver BUnlock\<rparr>)"
| m_block_ret: "mpc s = MOver BUnlock \<Longrightarrow> mtrans s (s\<lparr>mutex2 := None, mpc := MLockE\<rparr>)"
| m_bf_wait: "mpc s = MOver FTest \<Longrightarrow> qlen s + num_of_curr_working s \<noteq> 0 \<Longrightarrow>
    mtrans s (s\<lparr>mutex2 := None, mpc := MOver FWait\<rparr>)"
| m_bf_go: "mpc s = MOver FTest \<Longrightarrow> qlen s + num_of_curr_working s = 0 \<Longrightarrow>
    mtrans s (s\<lparr>mpc := MOver FUnlock\<rparr>)"
| m_bf_ret: "mpc s = MOver FUnlock \<Longrightarrow> mtrans s (s\<lparr>mutex2 := None, mpc := MOver OClose\<rparr>)"
| m_close: "mpc s = MOver OClose \<Longrightarrow> mtrans s (s\<lparr>closed_fds := connfd s # closed_fds s, mpc := MAccept\<rparr>)"
| m_dh_empty: "mpc s = MOver HDeq \<Longrightarrow> isEmpty (queue (qs s)) \<Longrightarrow> mtrans s (s\<lparr>mpc := MOver (HClose (connfd s) 1)\<rparr>)"
| m_dh_take: "mpc s = MOver HDeq \<Longrightarrow> dequeue False False now (qs s) = Inr (q, e, a, d) \<Longrightarrow>
    \<not> isEmpty (queue (qs s)) \<Longrightarrow> e \<noteq> -1 \<Longrightarrow> mtrans s (s\<lparr>qs := q, mpc := MOver (HClose e 0)\<rparr>)"
| m_dh_close: "mpc s = MOver (HClose d rc) \<Longrightarrow> mtrans s (s\<lparr>closed_fds := d # closed_fds s, mpc := MOver (HUnlock rc)\<rparr>)"
| m_dh_drop: "mpc s = MOver (HUnlock rc) \<Longrightarrow> rc \<noteq> 0 \<Longrightarrow> mtrans s (s\<lparr>mutex := None, mpc := MAccept\<rparr>)"
| m_dh_ret: "mpc s = MOver (HUnlock 0) \<Longrightarrow> mtrans s (s\<lparr>mutex := None, mpc := MLockE\<rparr>)"
| m_dyn_keep: "mpc s = MOver DClose \<Longrightarrow>
    mtrans s (s\<lparr>closed_fds := connfd s # closed_fds s, mpc := MAccept\<rparr>)"
| m_dyn_grow: "mpc s = MOver DClose \<Longrightarrow> max_size s = Some m \<Longrightarrow> size_limit s < m \<Longrightarrow>
    mtrans s (s\<lparr>closed_fds := connfd s # closed_fds s, size_limit := size_limit s + 1, mpc := MAccept\<rparr>)"
| m_rand_none: "mpc s = MOver RTest \<Longrightarrow> qlen s = 0 \<Longrightarrow> mtrans s (s\<lparr>mpc := MOver RUnlockEmpty\<rparr>)"
| m_rand_some: "mpc s = MOver RTest \<Longrightarrow> qlen s \<noteq> 0 \<Longrightarrow> mtrans s (s\<lparr>mpc := MOver (RLoop (qlen s div 2))\<rparr>)"
| m_rand_empty: "mpc s = MOver RUnlockEmpty \<Longrightarrow> mtrans s (s\<lparr>mutex := None, mpc := MOver OClose\<rparr>)"
| m_rand_del: "mpc s = MOver (RLoop k) \<Longrightarrow> 0 < k \<Longrightarrow> qlen s \<noteq> 0 \<Longrightarrow> 0 \<le> r \<Longrightarrow>
    dequeue_i (r mod qlen s + 1) (qs s) = Some (Inr (q, e)) \<Longrightarrow>
    mtrans s (s\<lparr>qs := q, main_out := out, closed_fds := e # closed_fds s, mpc := MOver (RLoop (k - 1))\<rparr>)"
| m_rand_ret: "mpc s = MOver (RLoop k) \<Longrightarrow> k \<le> 0 \<Longrightarrow> mtrans s (s\<lparr>mutex := None, mpc := MLockE\<rparr>)"
| m_enq: "mpc s = MEnq \<Longrightarrow> fresh_block (qs s) b \<Longrightarrow> enqueue b (connfd s) (m_arrival s) (qs s) = Inr q \<Longrightarrow>
    mtrans s (s\<lparr>qs := q, mpc := MUnlockE\<rparr>)"
| m_unlocke: "mpc s = MUnlockE \<Longrightarrow> mtrans s (s\<lparr>mutex := None, mpc := MSignal\<rparr>)"
| m_wake: "mpc s = MSignal \<Longrightarrow> i < length (workers s) \<Longrightarrow> waiting (workers s ! i) \<Longrightarrow>
    mtrans s ((wgoto i WRelock s)\<lparr>mpc := MAccept\<rparr>)"
| m_no_wake: "mpc s = MSignal \<Longrightarrow> \<not> (\<exists>w \<in> set (workers s). waiting w) \<Longrightarrow> mtrans s (s\<lparr>mpc := MAccept\<rparr>)"

lemma close_fd_Inr:
  "close_fd ch d s = Some (Inr s') \<Longrightarrow> s' = s\<lparr>closed_fds := d # closed_fds s\<rparr>"
  by (auto simp: close_fd_def rbind_Inr_iff)

definition after_over :: "over_pc + int \<Rightarrow> main_pc" where
  "after_over r = (case r of Inl pc' \<Rightarrow> MOver pc' | Inr rc \<Rightarrow> if rc \<noteq> 0 then MAccept else MLockE)"

lemmas over_defs = handle_overloading_def after_over_def Let_def

lemma over_block_trans:
  assumes "mpc s = MOver pc" and "handle_overloading ch pc s = Some (Inr (r, s1))"
    and "pc \<in> {OEntry, BLock, BTest, BWait, BWoken, BUnlock, FLock, FTest, FWait, FWoken, FUnlock}"
  shows "mtrans s (s1\<lparr>mpc := after_over r\<rparr>)"
  using assms m_policy [of s] m_no_policy [of s] m_lock2 [of s "MOver BTest"] m_lock2 [of s "MOver FTest"]
    m_block_wait [of s] m_block_go [of s] m_block_ret [of s] m_bf_wait [of s] m_bf_go [of s] m_bf_ret [of s]
  by (cases pc) (auto simp: over_defs policy_entry_def lock2_def cbind_Inr_iff split: if_splits)

lemma over_drop_trans:
  assumes "mpc s = MOver pc" and "handle_overloading ch pc s = Some (Inr (r, s1))"
    and "\<forall>q a d. dequeue False False (clock ch) (qs s) = Inr (q, -1, a, d) \<longrightarrow> isEmpty (queue (qs s)) \<and> q = qs s"
    and "pc \<in> {OClose, HLock, HDeq, HUnlock rc, HClose d rc', DClose}"
  shows "mtrans s (s1\<lparr>mpc := after_over r\<rparr>)"
proof (cases pc)
  case HDeq
  then obtain q e a d where deq: "dequeue False False (clock ch) (qs s) = Inr (q, e, a, d)"
      "r = Inl (if e = -1 then HClose (connfd s) 1 else HClose e 0)" "s1 = s\<lparr>qs := q\<rparr>"
    using assms(2) by (auto simp: over_defs rbind_Inr_iff)
  show ?thesis
  proof (cases "e = -1")
    case True
    then have "isEmpty (queue (qs s))" "q = qs s" using assms(3) deq(1) by auto
    then show ?thesis using deq True m_dh_empty [of s] assms(1) HDeq by (simp add: after_over_def)
  next
    case False
    then have "\<not> isEmpty (queue (qs s))" using deq(1) by (auto simp: dequeue_def)
    then show ?thesis using deq False m_dh_take [of s "clock ch"] assms(1) HDeq by (simp add: after_over_def)
  qed
next
  case DClose
  then show ?thesis using assms(1,2) m_dyn_keep [of s] m_dyn_grow [of s]
    by (auto simp: over_defs cbind_Inr_iff rbind_Inr_iff int_inc_def dest!: close_fd_Inr split: option.splits if_splits)
next
  case (HUnlock rc)
  then show ?thesis using assms(1,2) m_dh_drop [of s rc] m_dh_ret [of s] by (auto simp: over_defs)
next
  case HLock
  then show ?thesis using assms(1,2) m_lock1 [of s "MOver HDeq"]
    by (auto simp: over_defs lock1_def cbind_Inr_iff split: if_splits)
next
  case OClose
  then show ?thesis using assms(1,2) m_close [of s]
    by (auto simp: over_defs cbind_Inr_iff dest!: close_fd_Inr)
next
  case (HClose d rc)
  then show ?thesis using assms(1,2) m_dh_close [of s]
    by (auto simp: over_defs cbind_Inr_iff dest!: close_fd_Inr)
qed (use assms(4) in auto)

lemma over_random_trans:
  assumes "mpc s = MOver pc" and "handle_overloading ch pc s = Some (Inr (r, s1))" and "0 \<le> rand_val ch"
    and "pc \<in> {RLock, RTest, RUnlockEmpty, RLoop k}"
  shows "mtrans s (s1\<lparr>mpc := after_over r\<rparr>)"
proof (cases pc)
  case (RLoop k)
  show ?thesis
  proof (cases "0 < k")
    case True
    have q: "qlen s \<noteq> 0" using RLoop assms(2) True by (auto simp: handle_overloading_def)
    define out where "out = main_out s @ show_int (qlen s) @ '', '' @ show_int (rand_val ch mod qlen s + 1) @ [LF]"
    have "handle_overloading ch pc s = cbind (dequeue_i (rand_val ch mod qlen s + 1) (qs s)) (\<lambda>(q, e).
        cbind (close_fd ch e (s\<lparr>qs := q, main_out := out\<rparr>)) (\<lambda>s. Some (Inr (Inl (RLoop (k - 1)), s))))"
      using RLoop True q by (simp add: handle_overloading_def Let_def out_def)
    from trans [OF this [symmetric] assms(2)] obtain q e where "dequeue_i (rand_val ch mod qlen s + 1) (qs s) = Some (Inr (q, e))" "qlen s \<noteq> 0"
        "s1 = s\<lparr>qs := q, main_out := out, closed_fds := e # closed_fds s\<rparr>" "r = Inl (RLoop (k - 1))"
      using q by (auto simp: cbind_Inr_iff dest!: close_fd_Inr)
    then show ?thesis using m_rand_del [of s k "rand_val ch" q e out] True assms(1,3) RLoop by (simp add: after_over_def)
  next
    case False
    then show ?thesis using RLoop assms(1,2) m_rand_ret [of s k] by (auto simp: over_defs)
  qed
next
  case RLock
  then show ?thesis using assms(1,2) m_lock1 [of s "MOver RTest"]
    by (auto simp: over_defs lock1_def cbind_Inr_iff split: if_splits)
next
  case RTest
  then show ?thesis using assms(1,2) m_rand_none [of s] m_rand_some [of s]
    by (auto simp: over_defs split: if_splits)
next
  case RUnlockEmpty
  then show ?thesis using assms(1,2) m_rand_empty [of s] by (auto simp: over_defs)
qed (use assms(4) in auto)

lemma over_pc_cases:
  obtains "pc \<in> {OEntry, BLock, BTest, BWait, BWoken, BUnlock, FLock, FTest, FWait, FWoken, FUnlock}"
  | d rc rc' where "pc \<in> {OClose, HLock, HDeq, HUnlock rc, HClose d rc', DClose}"
  | k where "pc \<in> {RLock, RTest, RUnlockEmpty, RLoop k}"
  by (cases pc) auto

lemma main_step_trans:
  assumes ok: "choice_ok ch s" and run: "main_step ch s = Some (Inr s')"
    and ne: "\<forall>q a d. dequeue False False (clock ch) (qs s) = Inr (q, -1, a, d) \<longrightarrow> isEmpty (queue (qs s)) \<and> q = qs s"
  shows "mtrans s s'"
proof (cases "mpc s")
  case MAccept
  then show ?thesis using run m_accept [of s]
    by (auto simp: main_step_def Accept_def unix_error_def Let_def split: prod.splits if_splits)
next
  case MLock2
  then show ?thesis using run m_lock2 [of s MTest] by (auto simp: main_step_def lock2_def split: if_splits)
next
  case MTest
  then show ?thesis using run m_test [of s] by (auto simp: main_step_def)
next
  case (MUnlock2 b)
  then show ?thesis using run m_over [of s] m_fits [of s] by (cases b) (auto simp: main_step_def)
next
  case (MOver pc)
  obtain r s1 where r: "handle_overloading ch pc s = Some (Inr (r, s1))" "s' = s1\<lparr>mpc := after_over r\<rparr>"
    using run MOver by (auto simp: main_step_def cbind_Inr_iff after_over_def) (auto split: sum.splits)
  have rand: "0 \<le> rand_val ch" using ok by (simp add: choice_ok_def)
  show ?thesis unfolding r(2)
    by (rule over_pc_cases [of pc])
      (use over_block_trans [OF MOver r(1)] over_drop_trans [OF MOver r(1) ne]
        over_random_trans [OF MOver r(1) rand] in blast)+
next
  case MLockE
  then show ?thesis using run m_lock1 [of s MEnq] by (auto simp: main_step_def lock1_def split: if_splits)
next
  case MEnq
  then show ?thesis using run ok m_enq [of s "new_block ch"]
    by (auto simp: main_step_def choice_ok_def rbind_Inr_iff)
next
  case MUnlockE
  then show ?thesis using run m_unlocke [of s] by (auto simp: main_step_def)
next
  case MSignal
  then show ?thesis using run m_wake [of s "wakes ch"] m_no_wake [of s]
    by (auto simp: main_step_def signal_cond_def cbind_Inr_iff split: if_splits)
qed

inductive trans :: "'d::minus server \<Rightarrow> 'd server \<Rightarrow> bool" for s where
  t_worker: "i < length (workers s) \<Longrightarrow> wtrans i s s' \<Longrightarrow> trans s s'"
| t_main: "mtrans s s' \<Longrightarrow> trans s s'"
| t_spurious: "i < length (workers s) \<Longrightarrow> waiting (workers s ! i) \<Longrightarrow> trans s (wgoto i WRelock s)"
| t_spurious_main: "trans s (signal_cond2 s)"

section \<open>The queue along a run\<close>

lemma dequeue_takes:
  assumes "qrep q xs" and "dequeue wa wd now q = Inr (q', e, a, d)" and "\<not> isEmpty (queue q)"
  shows "\<exists>t ys. xs = (e, t) # ys \<and> qrep q' ys"
proof (cases xs)
  case Nil
  then show ?thesis using assms(1,3) by (simp add: qrep_isEmpty)
next
  case (Cons x ys)
  then show ?thesis using cq.deq_law [of q "fst x" "snd x" ys wa wd now] assms by (cases x) auto
qed

lemma enqueue_appends:
  assumes "qrep q (xs :: (int \<times> 'd::minus) list)" and "fresh_block q b" and "enqueue b v t q = Inr q'"
  shows "qrep q' (xs @ [(v, t)])"
proof (cases "int (length xs) < 2 ^ 31 - 1")
  case True
  from cq.enq_law [OF assms(1,2) this, of v t] assms(3) show ?thesis by simp
next
  case False
  then show ?thesis using assms qrep_size [OF assms(1)]
    by (auto simp: enqueue_def Let_def int_inc_def fresh_block_def rbind_Inr_iff split: if_splits)
qed

lemma dequeue_i_removes:
  assumes "qrep q (xs :: (int \<times> 'd::minus) list)" and "1 \<le> i" and "i \<le> int (length xs)" and "dequeue_i i q = Some (Inr (q', e))"
  shows "\<exists>t ys zs. xs = ys @ (e, t) # zs \<and> qrep q' (ys @ zs)"
proof -
  let ?k = "nat i - 1"
  have k: "?k < length xs" "Suc ?k = nat i" using assms(2,3) by auto
  have e: "e = fst (xs ! ?k)" and q': "qrep q' (take ?k xs @ drop (nat i) xs)"
    using cq.deq_i_law [OF assms(1-3)] assms(4) by auto
  have "xs = take ?k xs @ (e, snd (xs ! ?k)) # drop (nat i) xs"
    using id_take_nth_drop [OF k(1)] k(2) e by simp
  with q' show ?thesis by blast
qed

definition contents :: "'d server \<Rightarrow> (int \<times> 'd) list \<Rightarrow> bool" where
  "contents s xs \<longleftrightarrow> qrep (qs s) xs \<and> (\<forall>x \<in> set xs. 0 \<le> fst x) \<and> (mpc s = MAccept \<or> 0 \<le> connfd s)"

lemma contents_qrep: "contents s xs \<Longrightarrow> qrep (qs s) xs"
  by (simp add: contents_def)

lemma contents_qlen: "contents s xs \<Longrightarrow> qlen s = int (length xs)"
  by (simp add: contents_def qrep_size)

lemma upd_worker_simps [simp]:
  "workers (upd_worker i f s) = (workers s)[i := f (workers s ! i)]" "qs (upd_worker i f s) = qs s"
  "mutex (upd_worker i f s) = mutex s" "mutex2 (upd_worker i f s) = mutex2 s" "mpc (upd_worker i f s) = mpc s"
  "num_of_curr_working (upd_worker i f s) = num_of_curr_working s" "size_limit (upd_worker i f s) = size_limit s"
  "schedalg (upd_worker i f s) = schedalg s" "connfd (upd_worker i f s) = connfd s"
  "max_size (upd_worker i f s) = max_size s" "m_arrival (upd_worker i f s) = m_arrival s"
  "accepted_fds (upd_worker i f s) = accepted_fds s" "closed_fds (upd_worker i f s) = closed_fds s"
  by (simp_all add: upd_worker_def)

lemma wgoto_simps [simp]:
  "workers (wgoto i pc s) = (workers s)[i := (workers s ! i)\<lparr>wpc := pc\<rparr>]" "qs (wgoto i pc s) = qs s"
  "mutex (wgoto i pc s) = mutex s" "mutex2 (wgoto i pc s) = mutex2 s" "mpc (wgoto i pc s) = mpc s"
  "num_of_curr_working (wgoto i pc s) = num_of_curr_working s" "size_limit (wgoto i pc s) = size_limit s"
  "schedalg (wgoto i pc s) = schedalg s" "connfd (wgoto i pc s) = connfd s"
  "max_size (wgoto i pc s) = max_size s" "m_arrival (wgoto i pc s) = m_arrival s"
  "accepted_fds (wgoto i pc s) = accepted_fds s" "closed_fds (wgoto i pc s) = closed_fds s"
  by (simp_all add: wgoto_def)

lemma rand_index: "0 \<le> r \<Longrightarrow> n \<noteq> 0 \<Longrightarrow> 1 \<le> r mod int n + 1 \<and> r mod int n + 1 \<le> int n"
  by (simp add: zmod_le_nonneg_dividend add.commute) (metis of_nat_0_less_iff neq0_conv pos_mod_bound add1_zle_eq add.commute)

lemma contents_take:
  assumes "contents s xs" and "dequeue wa wd now (qs s) = Inr (q, e, a, d)" and "\<not> isEmpty (queue (qs s))"
  obtains t ys where "xs = (e, t) # ys" and "qrep q ys" and "queue_size (queue q) = qlen s - 1"
  using dequeue_takes [OF contents_qrep [OF assms(1)] assms(2,3)] contents_qlen [OF assms(1)]
  by (auto simp: qrep_size)

lemma contents_rand:
  assumes "contents s (xs :: (int \<times> 'd::minus) list)" and "qlen s \<noteq> 0" and "0 \<le> r"
    and "dequeue_i (r mod qlen s + 1) (qs s) = Some (Inr (q, e))"
  obtains t ys zs where "xs = ys @ (e, t) # zs" and "qrep q (ys @ zs)" and "queue_size (queue q) = qlen s - 1"
proof -
  have n: "qlen s = int (length xs)" using contents_qlen [OF assms(1)] .
  then have "1 \<le> r mod qlen s + 1" "r mod qlen s + 1 \<le> int (length xs)"
    using rand_index [of r "length xs"] assms(2,3) by auto
  from dequeue_i_removes [OF contents_qrep [OF assms(1)] this assms(4)] n that show ?thesis
    by (auto simp: qrep_size)
qed

lemma contents_enq:
  assumes "contents s (xs :: (int \<times> 'd::minus) list)" and "fresh_block (qs s) b" and "enqueue b v t (qs s) = Inr q"
  shows "qrep q (xs @ [(v, t)])" and "queue_size (queue q) = qlen s + 1"
  using enqueue_appends [OF contents_qrep [OF assms(1)] assms(2,3)] contents_qlen [OF assms(1)]
  by (simp_all add: qrep_size)

lemma take_nonempty: "dequeue wa wd now q = Inr (q', e, a, d) \<Longrightarrow> e \<noteq> -1 \<Longrightarrow> \<not> isEmpty (queue q)"
  by (auto simp: dequeue_def)

lemma contents_wtrans:
  assumes "contents s xs" and "wtrans i s s'"
  shows "\<exists>ys. contents s' ys"
  using assms(2)
proof cases
  case (w_take now q e a d)
  obtain t ys where "xs = (e, t) # ys" "qrep q ys"
    using contents_take [OF assms(1) w_take(3) take_nonempty [OF w_take(3,4)]] .
  then show ?thesis using assms(1) w_take(1) by (auto simp: contents_def)
next
  case w_sig
  then show ?thesis using assms(1) by (auto simp: contents_def signal_cond2_def)
qed (use assms(1) in \<open>auto simp: contents_def\<close>)

lemma contents_mtrans:
  assumes "contents s xs" and "mtrans s s'"
  shows "\<exists>ys. contents s' ys"
  using assms(2)
proof cases
  case (m_dh_take now q e a d)
  obtain t ys where "xs = (e, t) # ys" "qrep q ys" using contents_take [OF assms(1) m_dh_take(3,4)] .
  then show ?thesis using assms(1) m_dh_take(1,2) by (auto simp: contents_def)
next
  case (m_rand_del k r q e)
  obtain t ys zs where "xs = ys @ (e, t) # zs" "qrep q (ys @ zs)"
    using contents_rand [OF assms(1) m_rand_del(4-6)] .
  then have "contents s' (ys @ zs)" using assms(1) m_rand_del(1,2) by (auto simp: contents_def)
  then show ?thesis by blast
next
  case (m_enq b q)
  then have "qrep q (xs @ [(connfd s, m_arrival s)])" using contents_enq(1) [OF assms(1)] by blast
  then have "contents s' (xs @ [(connfd s, m_arrival s)])" using assms(1) m_enq(1,2) by (auto simp: contents_def)
  then show ?thesis by blast
qed (use assms(1) in \<open>auto simp: contents_def\<close>)

lemma contents_trans:
  assumes "contents s xs" and "trans s s'"
  shows "\<exists>ys. contents s' ys"
  using assms(2)
proof cases
  case (t_worker i)
  then show ?thesis using contents_wtrans [OF assms(1)] by blast
next
  case t_main
  then show ?thesis using contents_mtrans [OF assms(1)] by blast
next
  case (t_spurious i)
  then show ?thesis using assms(1) by (auto simp: contents_def)
next
  case t_spurious_main
  then show ?thesis using assms(1) by (auto simp: contents_def signal_cond2_def)
qed

lemma step_trans:
  assumes "contents s xs" and "choice_ok ch s" and "step t ch s = Some (Inr s')"
  shows "trans s s'"
proof -
  have empty: "isEmpty (queue (qs s))" if "dequeue wa wd now (qs s) = Inr (q, -1, a, d)" for wa wd now q a d
    using dequeue_takes [OF contents_qrep [OF assms(1)] that] assms(1) by (fastforce simp: contents_def)
  have emp: "q = qs s \<and> a = None" if "isEmpty (queue (qs s))" "dequeue wa wd now (qs s) = Inr (q, -1, a, d)" for wa wd now q a d
    using that by (simp add: dequeue_def)
  show ?thesis
  proof (cases t)
    case Main
    have "\<forall>q a d. dequeue False False (clock ch) (qs s) = Inr (q, -1, a, d) \<longrightarrow> isEmpty (queue (qs s)) \<and> q = qs s"
      using empty emp by blast
    from main_step_trans [OF assms(2) _ this] assms(3) Main show ?thesis
      by (auto simp: step_def intro: t_main)
  next
    case (Worker i)
    have "\<forall>q a d. dequeue True True (clock ch) (qs s) \<noteq> Inr (q, -1, Some a, Some d)"
      using empty emp by blast
    with worker_step_trans [of i s ch s'] assms(3) Worker show ?thesis
      by (auto simp: step_def intro: t_worker split: if_splits)
  qed
qed

lemma init_contents: "init_ok s \<Longrightarrow> contents s []"
  by (simp add: init_ok_def contents_def)

lemma reach_inv:
  assumes "reach s0 s" and "init_ok s0" and "P s0"
    and "\<And>s s' xs. contents s xs \<Longrightarrow> P s \<Longrightarrow> trans s s' \<Longrightarrow> P s'"
  shows "P s \<and> (\<exists>xs. contents s xs)"
  using assms(1)
proof induction
  case reach_refl
  then show ?case using assms(2,3) init_contents by blast
next
  case (reach_step s ch t s')
  then obtain xs where xs: "contents s xs" "P s" by blast
  have "trans s s'" using step_trans [OF xs(1)] reach_step by blast
  then show ?case using xs assms(4) contents_trans by blast
next
  case (reach_spurious s i)
  then show ?case using assms(4) contents_trans t_spurious by metis
next
  case (reach_spurious_main s)
  then show ?case using assms(4) contents_trans t_spurious_main by metis
qed

section \<open>Mutual exclusion\<close>

lemma policy_entry_locks:
  "policy_entry alg = Inl pc \<Longrightarrow> \<not> over_holds1 pc" "policy_entry alg = Inl pc \<Longrightarrow> \<not> over_holds2 pc"
  by (auto simp: policy_entry_def split: if_splits)

lemma locks_wtrans:
  assumes "locks_ok s" and "i < length (workers s)" and "wtrans i s s'"
  shows "locks_ok s'"
  using assms(3)
  by cases (use assms(1,2) in \<open>auto simp: locks_ok_def map_update intro: lock_ok_intros\<close>)

lemma locks_mtrans:
  assumes "locks_ok s" and "mtrans s s'"
  shows "locks_ok s'"
  using assms(2)
  by cases (use assms(1) in \<open>auto simp: locks_ok_def map_update waiting_def policy_entry_locks intro: lock_ok_intros\<close>)

lemma locks_trans:
  assumes "locks_ok s" and "trans s s'"
  shows "locks_ok s'"
  using assms(2)
proof cases
  case (t_worker i)
  then show ?thesis using locks_wtrans [OF assms(1)] by blast
next
  case t_main
  then show ?thesis using locks_mtrans [OF assms(1)] by blast
next
  case (t_spurious i)
  then show ?thesis using assms(1) by (auto simp: locks_ok_def map_update waiting_def intro: lock_ok_worker_same)
next
  case t_spurious_main
  then show ?thesis using assms(1) by (simp add: locks_ok_def)
qed

lemma locks_exclusive:
  assumes "locks_ok s"
  shows "main_holds1 (mpc s) \<Longrightarrow> i < length (workers s) \<Longrightarrow> \<not> worker_holds1 (wpc (workers s ! i))"
    and "main_holds2 (mpc s) \<Longrightarrow> i < length (workers s) \<Longrightarrow> \<not> worker_holds2 (wpc (workers s ! i))"
    and "i < length (workers s) \<Longrightarrow> j < length (workers s) \<Longrightarrow>
      worker_holds1 (wpc (workers s ! i)) \<Longrightarrow> worker_holds1 (wpc (workers s ! j)) \<Longrightarrow> i = j"
    and "i < length (workers s) \<Longrightarrow> j < length (workers s) \<Longrightarrow>
      worker_holds2 (wpc (workers s ! i)) \<Longrightarrow> worker_holds2 (wpc (workers s ! j)) \<Longrightarrow> i = j"
proof -
  have m: "mutex s = Some (Worker i) \<longleftrightarrow> i < length (workers s) \<and> worker_holds1 (wpc (workers s ! i))"
    "mutex2 s = Some (Worker i) \<longleftrightarrow> i < length (workers s) \<and> worker_holds2 (wpc (workers s ! i))"
    "mutex s = Some Main \<longleftrightarrow> main_holds1 (mpc s)" "mutex2 s = Some Main \<longleftrightarrow> main_holds2 (mpc s)" for i
    using assms lock_okD(1) [of "mutex s"] lock_okD(1) [of "mutex2 s"]
      lock_okD(2) [of "mutex s" _ _ i] lock_okD(2) [of "mutex2 s" _ _ i]
    unfolding locks_ok_def by fastforce+
  show "main_holds1 (mpc s) \<Longrightarrow> i < length (workers s) \<Longrightarrow> \<not> worker_holds1 (wpc (workers s ! i))"
    using m(1) [of i] m(3) by (metis option.inject tid.distinct(1))
  show "main_holds2 (mpc s) \<Longrightarrow> i < length (workers s) \<Longrightarrow> \<not> worker_holds2 (wpc (workers s ! i))"
    using m(2) [of i] m(4) by (metis option.inject tid.distinct(1))
  show "i < length (workers s) \<Longrightarrow> j < length (workers s) \<Longrightarrow>
      worker_holds1 (wpc (workers s ! i)) \<Longrightarrow> worker_holds1 (wpc (workers s ! j)) \<Longrightarrow> i = j"
    using m(1) [of i] m(1) [of j] by (metis option.inject tid.inject)
  show "i < length (workers s) \<Longrightarrow> j < length (workers s) \<Longrightarrow>
      worker_holds2 (wpc (workers s ! i)) \<Longrightarrow> worker_holds2 (wpc (workers s ! j)) \<Longrightarrow> i = j"
    using m(2) [of i] m(2) [of j] by (metis option.inject tid.inject)
qed

section \<open>What each worker knows\<close>

text \<open>The workers that count as working, that own a descriptor, and that are on their way to the queue.\<close>

fun counted_at :: "worker_pc \<Rightarrow> int \<Rightarrow> bool" where
  "counted_at WUnlock2 e \<longleftrightarrow> e \<noteq> -1" | "counted_at WTest e \<longleftrightarrow> e \<noteq> -1"
| "counted_at WUnlock1 e = True" | "counted_at WHandle e = True" | "counted_at WLockD e = True"
| "counted_at WDec e = True" | "counted_at _ e = False"

fun finishing :: "worker_pc \<Rightarrow> bool" where
  "finishing WUnlockD = True" | "finishing WSig = True" | "finishing WClose = True" | "finishing _ = False"

fun heading_at :: "worker_pc \<Rightarrow> bool" where
  "heading_at WLock1 = True" | "heading_at WLock2 = True" | "heading_at WDeq = True"
| "heading_at WRelock = True" | "heading_at _ = False"

fun after_test :: "worker_pc \<Rightarrow> bool" where
  "after_test WUnlock1 = True" | "after_test WHandle = True" | "after_test WLockD = True"
| "after_test WDec = True" | "after_test pc = finishing pc"

fun saw_empty :: "worker_pc \<Rightarrow> int \<Rightarrow> bool" where
  "saw_empty WUnlock2 e \<longleftrightarrow> e = -1" | "saw_empty WTest e \<longleftrightarrow> e = -1" | "saw_empty _ e = False"

definition counted :: "'d worker \<Rightarrow> bool" where "counted w = counted_at (wpc w) (element w)"
definition holding :: "'d worker \<Rightarrow> bool" where
  "holding w \<longleftrightarrow> counted_at (wpc w) (element w) \<or> finishing (wpc w)"
definition heading :: "'d worker \<Rightarrow> bool" where "heading w = heading_at (wpc w)"

definition worker_ok :: "int \<Rightarrow> 'd worker \<Rightarrow> bool" where
  "worker_ok n w \<longleftrightarrow> (saw_empty (wpc w) (element w) \<longrightarrow> n = 0) \<and> (after_test (wpc w) \<longrightarrow> element w \<noteq> -1) \<and>
     (counted_at (wpc w) (element w) \<longrightarrow> w_arrival w \<noteq> None \<and> w_dispatch w \<noteq> None)"

definition workers_ok :: "'d server \<Rightarrow> bool" where
  "workers_ok s \<longleftrightarrow> (\<forall>w \<in> set (workers s). worker_ok (qlen s) w)"

lemma workers_ok_upd:
  assumes "\<forall>w \<in> set (workers s). worker_ok (qlen s') w"
    and "workers s' = (workers s)[i := workers s' ! i]" and "worker_ok (qlen s') (workers s' ! i)"
  shows "workers_ok s'"
  unfolding workers_ok_def
proof
  fix w
  assume "w \<in> set (workers s')"
  with assms(2) set_update_subset_insert [of "workers s" i "workers s' ! i"]
  have "w \<in> insert (workers s' ! i) (set (workers s))" by auto
  with assms(1,3) show "worker_ok (qlen s') w" by auto
qed

lemma worker_ok_decr: "worker_ok n w \<Longrightarrow> 0 < n \<Longrightarrow> worker_ok m w"
  by (auto simp: worker_ok_def)

lemma workers_ok_wtrans:
  assumes "contents s xs" and "workers_ok s" and "i < length (workers s)" and "wtrans i s s'"
  shows "workers_ok s'"
proof (rule workers_ok_upd [of s s' i])
  have wi: "worker_ok (qlen s) (workers s ! i)" using assms(2,3) by (simp add: workers_ok_def)
  show "worker_ok (qlen s') (workers s' ! i)"
    using assms(4) by cases (use wi assms(3) in \<open>auto simp: worker_ok_def isEmpty_def\<close>)
  show "workers s' = (workers s)[i := workers s' ! i]"
    using assms(4) by cases (use assms(3) in auto)
  show "\<forall>w \<in> set (workers s). worker_ok (qlen s') w"
    using assms(4)
  proof cases
    case (w_take now q e a d)
    have "0 < qlen s"
      using take_nonempty [OF w_take(3,4)] contents_qlen [OF assms(1)] by (simp add: isEmpty_def)
    then show ?thesis using assms(2) worker_ok_decr by (auto simp: workers_ok_def)
  qed (use assms(2) in \<open>auto simp: workers_ok_def\<close>)
qed

lemma workers_ok_mtrans:
  assumes "contents s xs" and "locks_ok s" and "workers_ok s" and "mtrans s s'"
  shows "workers_ok s'"
proof -
  have shrink: "workers_ok s'" if "0 < qlen s" "workers s' = workers s"
    using that assms(3) worker_ok_decr by (auto simp: workers_ok_def)
  show ?thesis using assms(4)
  proof cases
    case (m_dh_take now q e a d)
    then show ?thesis using shrink contents_qlen [OF assms(1)] by (simp add: isEmpty_def)
  next
    case (m_rand_del k r q e)
    then show ?thesis using shrink contents_qlen [OF assms(1)] by simp
  next
    case (m_enq b q)
    have "\<not> saw_empty (wpc w) (element w)" if w: "w \<in> set (workers s)" for w
    proof -
      obtain i where "i < length (workers s)" "w = workers s ! i" using w by (metis in_set_conv_nth)
      then have "\<not> worker_holds1 (wpc w)" using locks_exclusive(1) [OF assms(2)] m_enq(2) by simp
      then show ?thesis by (cases "wpc w") auto
    qed
    then show ?thesis using assms(3) m_enq(1) by (auto simp: workers_ok_def worker_ok_def)
  next
    case (m_wake i)
    have "worker_ok (qlen s) (workers s ! i)" using assms(3) m_wake(3) by (simp add: workers_ok_def)
    then show ?thesis using assms(3) m_wake
      by (intro workers_ok_upd [of s s' i]) (auto simp: workers_ok_def worker_ok_def waiting_def)
  qed (use assms(3) in \<open>auto simp: workers_ok_def\<close>)
qed

lemma workers_ok_trans:
  assumes "contents s xs" and "locks_ok s" and "workers_ok s" and "trans s s'"
  shows "workers_ok s'"
  using assms(4)
proof cases
  case (t_worker i)
  then show ?thesis using workers_ok_wtrans [OF assms(1,3)] by blast
next
  case t_main
  then show ?thesis using workers_ok_mtrans [OF assms(1-3)] by blast
next
  case (t_spurious i)
  then show ?thesis using assms(3)
    by (intro workers_ok_upd [of s s' i]) (auto simp: workers_ok_def worker_ok_def waiting_def)
next
  case t_spurious_main
  then show ?thesis using assms(3) by (simp add: workers_ok_def)
qed

lemma init_locks: "init_ok s \<Longrightarrow> locks_ok s"
  by (auto simp: init_ok_def locks_ok_def lock_ok_def)

lemma init_workers: "init_ok s \<Longrightarrow> workers_ok s"
  by (auto simp: init_ok_def workers_ok_def worker_ok_def)

lemma reach_base:
  assumes "reach s0 s" and "init_ok s0" and "P s0"
    and "\<And>s s' xs. contents s xs \<Longrightarrow> locks_ok s \<Longrightarrow> workers_ok s \<Longrightarrow> P s \<Longrightarrow> trans s s' \<Longrightarrow> P s'"
  shows "P s" and "locks_ok s" and "workers_ok s" and "\<exists>xs. contents s xs"
proof -
  have "(locks_ok s \<and> workers_ok s \<and> P s) \<and> (\<exists>xs. contents s xs)"
    using assms(1,2)
  proof (rule reach_inv)
    show "locks_ok s0 \<and> workers_ok s0 \<and> P s0" using assms(2,3) init_locks init_workers by blast
    show "locks_ok s' \<and> workers_ok s' \<and> P s'"
      if "contents s xs" "locks_ok s \<and> workers_ok s \<and> P s" "trans s s'" for s s' xs
      using that locks_trans workers_ok_trans assms(4) by blast
  qed
  then show "P s" "locks_ok s" "workers_ok s" "\<exists>xs. contents s xs" by blast+
qed

lemmas reach_always = reach_base(2-4) [where P = "\<lambda>_. True", simplified]

end
