(* ===== verification/ServerInv.thy ===== *)
theory ServerInv
  imports ServerSteps
begin

text \<open>
  The invariants of a run of the server: the counter of working threads, no lost wake-up, the
  bound of every overload policy, the accounting of connections, and progress.
\<close>

section \<open>Counting workers\<close>

definition number :: "('d worker \<Rightarrow> bool) \<Rightarrow> 'd server \<Rightarrow> int" where
  "number P s = int (length (filter P (workers s)))"

lemma length_filter_update:
  "i < length ws \<Longrightarrow> int (length (filter P (ws[i := w]))) =
     int (length (filter P ws)) - of_bool (P (ws ! i)) + of_bool (P w)"
proof (induction ws arbitrary: i)
  case (Cons v ws)
  then show ?case by (cases i) auto
qed simp

lemma number_upd:
  "i < length (workers s) \<Longrightarrow> workers s' = (workers s)[i := w] \<Longrightarrow>
     number P s' = number P s - of_bool (P (workers s ! i)) + of_bool (P w)"
  by (simp add: number_def length_filter_update)

lemma number_same: "workers s' = workers s \<Longrightarrow> number P s' = number P s"
  by (simp add: number_def)

lemma number_bounds: "0 \<le> number P s" "number P s \<le> int (length (workers s))"
  by (simp_all add: number_def)

lemma number_pos: "i < length (workers s) \<Longrightarrow> P (workers s ! i) \<Longrightarrow> 0 < number P s"
  by (auto simp: number_def filter_empty_conv)

lemma trans_workers_length: "trans s s' \<Longrightarrow> length (workers s') = length (workers s)"
  by (induction rule: trans.induct) (auto elim!: wtrans.cases mtrans.cases)

definition count_ok :: "'d server \<Rightarrow> bool" where
  "count_ok s \<longleftrightarrow> num_of_curr_working s = number counted s"

lemma counted_simps [simp]:
  "counted (w\<lparr>wpc := pc\<rparr>) = counted_at pc (element w)"
  "counted (w\<lparr>element := e, w_arrival := a, w_dispatch := d, wpc := pc\<rparr>) = counted_at pc e"
  "counted (w\<lparr>element := e, wpc := pc\<rparr>) = counted_at pc e"
  "counted (w\<lparr>w_stats := st, wpc := pc\<rparr>) = counted_at pc (element w)"
  by (simp_all add: counted_def)

lemma count_wtrans:
  assumes "workers_ok s" and "count_ok s" and i: "i < length (workers s)" and "wtrans i s s'"
  shows "count_ok s'"
proof -
  have wi: "worker_ok (qlen s) (workers s ! i)" using assms(1) i by (simp add: workers_ok_def)
  have c: "counted (workers s ! i) = counted_at (wpc (workers s ! i)) (element (workers s ! i))"
    by (simp add: counted_def)
  show ?thesis using assms(4)
    by cases (use assms(2) i wi c number_upd [OF i, of s' _ counted] in
      \<open>auto simp: count_ok_def worker_ok_def number_def length_filter_update\<close>)
qed

lemma count_mtrans:
  assumes "count_ok s" and "mtrans s s'"
  shows "count_ok s'"
  using assms(2)
  by cases (use assms(1) in \<open>auto simp: count_ok_def number_def length_filter_update waiting_def counted_def\<close>)

lemma count_trans:
  assumes "workers_ok s" and "count_ok s" and "trans s s'"
  shows "count_ok s'"
  using assms(3)
proof cases
  case (t_worker i)
  then show ?thesis using count_wtrans [OF assms(1,2)] by blast
next
  case t_main
  then show ?thesis using count_mtrans [OF assms(2)] by blast
next
  case (t_spurious i)
  then show ?thesis using assms(2)
    by (auto simp: count_ok_def number_def length_filter_update waiting_def counted_def)
next
  case t_spurious_main
  then show ?thesis using assms(2) by (simp add: count_ok_def number_def)
qed

section \<open>No lost wake-up\<close>

definition signal_due :: "'d server \<Rightarrow> int" where
  "signal_due s = (if mpc s = MUnlockE \<or> mpc s = MSignal then 1 else 0)"

definition conserving :: "'d server \<Rightarrow> bool" where
  "conserving s \<longleftrightarrow> (0 < number waiting s \<longrightarrow> qlen s \<le> number heading s + signal_due s)"

lemma waiting_simps [simp]:
  "waiting (w\<lparr>wpc := pc\<rparr>) \<longleftrightarrow> pc = WWait"
  "waiting (w\<lparr>element := e, w_arrival := a, w_dispatch := d, wpc := pc\<rparr>) \<longleftrightarrow> pc = WWait"
  "waiting (w\<lparr>element := e, wpc := pc\<rparr>) \<longleftrightarrow> pc = WWait"
  "waiting (w\<lparr>w_stats := st, wpc := pc\<rparr>) \<longleftrightarrow> pc = WWait"
  by (simp_all add: waiting_def)

lemma heading_simps [simp]:
  "heading (w\<lparr>wpc := pc\<rparr>) = heading_at pc"
  "heading (w\<lparr>element := e, w_arrival := a, w_dispatch := d, wpc := pc\<rparr>) = heading_at pc"
  "heading (w\<lparr>element := e, wpc := pc\<rparr>) = heading_at pc"
  "heading (w\<lparr>w_stats := st, wpc := pc\<rparr>) = heading_at pc"
  by (simp_all add: heading_def)

lemma signal_due_cond2 [simp]: "signal_due (signal_cond2 s) = signal_due s"
  by (auto simp: signal_due_def signal_cond2_def)

lemma conserving_wtrans:
  assumes "contents s xs" and "workers_ok s" and "conserving s" and i: "i < length (workers s)" and "wtrans i s s'"
  shows "conserving s'"
proof -
  have wi: "worker_ok (qlen s) (workers s ! i)" using assms(2) i by (simp add: workers_ok_def)
  have nonneg: "0 \<le> number heading s" "0 \<le> signal_due s" by (simp_all add: number_def signal_due_def)
  note defs = conserving_def number_def length_filter_update heading_def waiting_def signal_due_def
  show ?thesis using assms(5)
  proof cases
    case (w_take now q e a d)
    have "queue_size (queue q) = qlen s - 1"
      using contents_take [OF assms(1) w_take(3) take_nonempty [OF w_take(3,4)]] .
    moreover have "number waiting s' = number waiting s" "number heading s' = number heading s - 1"
      using w_take(1,2) i by (simp_all add: number_def length_filter_update waiting_def heading_def)
    ultimately show ?thesis using assms(3) w_take(1) by (simp add: conserving_def signal_due_def)
  next
    case w_none
    then have "qlen s' = 0" by (simp add: isEmpty_def)
    then show ?thesis by (simp add: conserving_def number_def signal_due_def)
  next
    case w_wait
    then have "qlen s' = 0" using wi by (simp add: worker_ok_def)
    then show ?thesis by (simp add: conserving_def number_def signal_due_def)
  next
    case w_sig
    then show ?thesis using assms(3) i
      by (auto simp: conserving_def number_def length_filter_update heading_def waiting_def signal_due_def signal_cond2_def)
  qed (use assms(3) i in \<open>auto simp: defs\<close>)
qed

lemma conserving_mtrans:
  assumes "contents s xs" and "conserving s" and "mtrans s s'"
  shows "conserving s'"
proof -
  show ?thesis using assms(3)
  proof cases
    case (m_dh_take now q e a d)
    have "queue_size (queue q) = qlen s - 1" using contents_take [OF assms(1) m_dh_take(3,4)] .
    then show ?thesis using assms(2) m_dh_take(1,2) by (auto simp: conserving_def number_def signal_due_def)
  next
    case (m_rand_del k r q e)
    have "queue_size (queue q) = qlen s - 1" using contents_rand [OF assms(1) m_rand_del(4-6)] .
    then show ?thesis using assms(2) m_rand_del(1,2) by (auto simp: conserving_def number_def signal_due_def)
  next
    case (m_enq b q)
    then have "queue_size (queue q) = qlen s + 1" using contents_enq(2) [OF assms(1)] by blast
    then show ?thesis using assms(2) m_enq(1,2) by (simp add: conserving_def number_def signal_due_def)
  next
    case (m_wake i)
    then show ?thesis using assms(2)
      by (auto simp: conserving_def number_def length_filter_update heading_def waiting_def signal_due_def)
  next
    case m_no_wake
    then have "number waiting s' = 0" by (auto simp: number_def filter_empty_conv)
    then show ?thesis by (simp add: conserving_def)
  next
    case m_lock1
    then show ?thesis using assms(2) by (auto simp: conserving_def number_def signal_due_def)
  qed (use assms(2) in \<open>auto simp: conserving_def number_def signal_due_def\<close>)
qed

lemma conserving_trans:
  assumes "contents s xs" and "workers_ok s" and "conserving s" and "trans s s'"
  shows "conserving s'"
  using assms(4)
proof cases
  case (t_worker i)
  then show ?thesis using conserving_wtrans [OF assms(1-3)] by blast
next
  case t_main
  then show ?thesis using conserving_mtrans [OF assms(1,3)] by blast
next
  case (t_spurious i)
  then show ?thesis using assms(3)
    by (auto simp: conserving_def number_def length_filter_update heading_def waiting_def signal_due_def)
next
  case t_spurious_main
  then show ?thesis using assms(3) by (simp add: conserving_def number_def)
qed

definition signalling :: "'d worker \<Rightarrow> bool" where
  "signalling w \<longleftrightarrow> wpc w = WUnlockD \<or> wpc w = WSig"

definition main_wakes :: "'d server \<Rightarrow> bool" where
  "main_wakes s \<longleftrightarrow>
     (mpc s = MOver BWait \<longrightarrow> size_limit s \<le> qlen s + num_of_curr_working s \<or> 0 < number signalling s) \<and>
     (mpc s = MOver FWait \<longrightarrow> qlen s + num_of_curr_working s \<noteq> 0 \<or> 0 < number signalling s)"

lemma signalling_simps [simp]:
  "signalling (w\<lparr>wpc := pc\<rparr>) \<longleftrightarrow> pc = WUnlockD \<or> pc = WSig"
  "signalling (w\<lparr>element := e, w_arrival := a, w_dispatch := d, wpc := pc\<rparr>) \<longleftrightarrow> pc = WUnlockD \<or> pc = WSig"
  "signalling (w\<lparr>element := e, wpc := pc\<rparr>) \<longleftrightarrow> pc = WUnlockD \<or> pc = WSig"
  "signalling (w\<lparr>w_stats := st, wpc := pc\<rparr>) \<longleftrightarrow> pc = WUnlockD \<or> pc = WSig"
  by (simp_all add: signalling_def)

lemma main_wakes_wtrans:
  assumes "contents s xs" and "main_wakes s" and i: "i < length (workers s)" and "wtrans i s s'"
  shows "main_wakes s'"
  using assms(4)
proof cases
  case (w_take now q e a d)
  have "queue_size (queue q) = qlen s - 1"
    using contents_take [OF assms(1) w_take(3) take_nonempty [OF w_take(3,4)]] .
  moreover have "number signalling s' = number signalling s"
    using w_take(1,2) i by (simp add: number_def length_filter_update signalling_def)
  ultimately show ?thesis using assms(2) w_take(1) by (simp add: main_wakes_def)
next
  case w_dec
  then have "0 < number signalling s'" using number_pos [of i s' signalling] i by simp
  then show ?thesis by (simp add: main_wakes_def)
next
  case w_sig
  then show ?thesis by (simp add: main_wakes_def signal_cond2_def)
next
  case w_unlockd
  then have "0 < number signalling s'" using number_pos [of i s' signalling] i by simp
  then show ?thesis by (simp add: main_wakes_def)
qed (use assms(2) i in \<open>auto simp: main_wakes_def number_def length_filter_update signalling_def\<close>)

lemma main_wakes_mtrans:
  assumes "main_wakes s" and "mtrans s s'"
  shows "main_wakes s'"
  using assms(2)
proof cases
  case (m_policy pc)
  then show ?thesis by (auto simp: main_wakes_def policy_entry_def split: if_splits)
qed (use assms(1) in \<open>auto simp: main_wakes_def number_def\<close>)

lemma main_wakes_trans:
  assumes "contents s xs" and "main_wakes s" and "trans s s'"
  shows "main_wakes s'"
  using assms(3)
proof cases
  case (t_worker i)
  then show ?thesis using main_wakes_wtrans [OF assms(1,2)] by blast
next
  case t_main
  then show ?thesis using main_wakes_mtrans [OF assms(2)] by blast
next
  case (t_spurious i)
  then show ?thesis using assms(2)
    by (auto simp: main_wakes_def number_def length_filter_update signalling_def waiting_def)
next
  case t_spurious_main
  then show ?thesis by (simp add: main_wakes_def signal_cond2_def)
qed

section \<open>The overload policies keep the bound\<close>

text \<open>Which policies run which points of \<open>handle_overloading\<close>.\<close>

fun policies_of :: "over_pc \<Rightarrow> string set" where
  "policies_of OClose = {''dt'', ''bf'', ''random''}" | "policies_of DClose = {''dynamic''}"
| "policies_of BLock = {''block''}" | "policies_of BTest = {''block''}" | "policies_of BWait = {''block''}"
| "policies_of BWoken = {''block''}" | "policies_of BUnlock = {''block''}"
| "policies_of HLock = {''dh''}" | "policies_of HDeq = {''dh''}" | "policies_of (HClose _ _) = {''dh''}"
| "policies_of (HUnlock _) = {''dh''}"
| "policies_of FLock = {''bf''}" | "policies_of FTest = {''bf''}" | "policies_of FWait = {''bf''}"
| "policies_of FWoken = {''bf''}" | "policies_of FUnlock = {''bf''}"
| "policies_of RLock = {''random''}" | "policies_of RTest = {''random''}"
| "policies_of RUnlockEmpty = {''random''}" | "policies_of (RLoop _) = {''random''}"
| "policies_of OEntry = UNIV"

definition policy_ok :: "'d server \<Rightarrow> bool" where
  "policy_ok s \<longleftrightarrow> (\<forall>pc. mpc s = MOver pc \<longrightarrow> schedalg s \<in> policies_of pc)"

lemma policy_entry_policies: "policy_entry alg = Inl pc \<Longrightarrow> alg \<in> policies_of pc"
  by (auto simp: policy_entry_def split: if_splits)

lemma policy_mtrans:
  assumes "policy_ok s" and "mtrans s s'"
  shows "policy_ok s'"
  using assms(2)
  by cases (use assms(1) in \<open>auto simp: policy_ok_def policy_entry_policies\<close>)

lemma signal_cond2_mpc:
  "mpc (signal_cond2 s) = mpc s \<or> mpc s = MOver BWait \<and> mpc (signal_cond2 s) = MOver BWoken \<or>
   mpc s = MOver FWait \<and> mpc (signal_cond2 s) = MOver FWoken"
  by (simp add: signal_cond2_def)

lemma wtrans_frame:
  assumes "wtrans i s s'"
  shows "schedalg s' = schedalg s" and "size_limit s' = size_limit s" and "max_size s' = max_size s"
    and "connfd s' = connfd s" and "accepted_fds s' = accepted_fds s" and "mpc s' = mpc s \<or> mpc s = MOver BWait \<and> mpc s' = MOver BWoken \<or> mpc s = MOver FWait \<and> mpc s' = MOver FWoken"
  using assms signal_cond2_mpc [of s] by (cases; simp)+

lemma policy_trans:
  assumes "policy_ok s" and "trans s s'"
  shows "policy_ok s'"
  using assms(2)
proof cases
  case (t_worker i)
  then show ?thesis using assms(1) wtrans_frame(1,6) [of i s s'] by (auto simp: policy_ok_def)
next
  case t_main
  then show ?thesis using policy_mtrans [OF assms(1)] by blast
next
  case (t_spurious i)
  then show ?thesis using assms(1) by (simp add: policy_ok_def)
next
  case t_spurious_main
  then show ?thesis using assms(1) by (auto simp: policy_ok_def signal_cond2_def)
qed

text \<open>Points from which main goes on to the enqueue.\<close>

fun committed :: "main_pc \<Rightarrow> bool" where
  "committed (MUnlock2 b) = (\<not> b)" | "committed MLockE = True" | "committed MEnq = True"
| "committed (MOver BUnlock) = True" | "committed (MOver (HClose d rc)) = (rc = 0)"
| "committed (MOver (HUnlock rc)) = (rc = 0)" | "committed (MOver (RLoop k)) = (k \<le> 0)"
| "committed _ = False"

definition load :: "'d server \<Rightarrow> int" where
  "load s = qlen s + num_of_curr_working s"

definition capacity :: "'d server \<Rightarrow> int" where
  "capacity s = (if schedalg s = ''random'' then max (size_limit s) (int (length (workers s)) + 2)
     else max (size_limit s) 0)"

definition known_policy :: "string \<Rightarrow> bool" where
  "known_policy alg \<longleftrightarrow> alg \<in> {''block'', ''dt'', ''dh'', ''bf'', ''dynamic'', ''random''}"

definition bounded :: "'d server \<Rightarrow> bool" where
  "bounded s \<longleftrightarrow> known_policy (schedalg s) \<and> load s \<le> capacity s \<and> (committed (mpc s) \<longrightarrow> load s < capacity s)"

lemma bounded_wtrans:
  assumes "contents s xs" and "bounded s" and i: "i < length (workers s)" and "wtrans i s s'"
  shows "bounded s'"
proof -
  have "load s' \<le> load s"
    using assms(4)
  proof cases
    case (w_take now q e a d)
    have "queue_size (queue q) = qlen s - 1"
      using contents_take [OF assms(1) w_take(3) take_nonempty [OF w_take(3,4)]] .
    then show ?thesis using w_take(1) by (simp add: load_def)
  qed (simp_all add: load_def)
  moreover have "capacity s' = capacity s"
    using wtrans_frame [OF assms(4)] trans_workers_length [OF t_worker [OF i assms(4)]] by (simp add: capacity_def)
  moreover have "committed (mpc s') = committed (mpc s)"
    using wtrans_frame(6) [OF assms(4)] by auto
  ultimately show ?thesis using assms(2) wtrans_frame(1) [OF assms(4)] by (auto simp: bounded_def)
qed

lemma bounded_mtrans:
  assumes "contents s xs" and "count_ok s" and "policy_ok s" and "bounded s" and "mtrans s s'"
  shows "bounded s'"
  using assms(5)
proof cases
  case (m_policy pc)
  then show ?thesis using assms(4) by (auto simp: bounded_def load_def capacity_def policy_entry_def split: if_splits)
next
  case m_no_policy
  then show ?thesis using assms(4) by (auto simp: bounded_def known_policy_def policy_entry_def split: if_splits)
next
  case (m_dh_take now q e a d)
  have "queue_size (queue q) = qlen s - 1" using contents_take [OF assms(1) m_dh_take(3,4)] .
  then show ?thesis using assms(4) m_dh_take(1) by (auto simp: bounded_def load_def capacity_def)
next
  case m_rand_some
  have "schedalg s = ''random''" using assms(3) m_rand_some(2) by (simp add: policy_ok_def)
  moreover have "load s \<le> 1 + int (length (workers s))" if "qlen s div 2 \<le> 0"
    using that assms(2) number_bounds [of counted s] contents_qlen [OF assms(1)] by (simp add: load_def count_ok_def)
  ultimately show ?thesis using assms(4) m_rand_some(1) by (auto simp: bounded_def load_def capacity_def)
next
  case (m_rand_del k r q e)
  have "queue_size (queue q) = qlen s - 1" using contents_rand [OF assms(1) m_rand_del(4-6)] .
  then show ?thesis using assms(4) m_rand_del(1) by (auto simp: bounded_def load_def capacity_def)
next
  case (m_enq b q)
  then have "queue_size (queue q) = qlen s + 1" using contents_enq(2) [OF assms(1)] by blast
  then show ?thesis using assms(4) m_enq(1,2) by (auto simp: bounded_def load_def capacity_def)
qed (use assms(4) in \<open>auto simp: bounded_def load_def capacity_def\<close>)

lemma bounded_trans:
  assumes "contents s xs" and "count_ok s" and "policy_ok s" and "bounded s" and "trans s s'"
  shows "bounded s'"
  using assms(5)
proof cases
  case (t_worker i)
  then show ?thesis using bounded_wtrans [OF assms(1,4)] by blast
next
  case t_main
  then show ?thesis using bounded_mtrans [OF assms(1-4)] by blast
next
  case (t_spurious i)
  then show ?thesis using assms(4) by (auto simp: bounded_def load_def capacity_def)
next
  case t_spurious_main
  then show ?thesis using assms(4) signal_cond2_mpc [of s]
    by (auto simp: bounded_def load_def capacity_def)
qed

section \<open>Every connection is somewhere\<close>

fun over_fds :: "over_pc \<Rightarrow> int \<Rightarrow> int multiset" where
  "over_fds (HClose d rc) c = (if rc = 0 then {#d, c#} else {#d#})"
| "over_fds (HUnlock rc) c = (if rc = 0 then {#c#} else {#})"
| "over_fds _ c = {#c#}"

fun main_fds :: "main_pc \<Rightarrow> int \<Rightarrow> int multiset" where
  "main_fds MAccept c = {#}" | "main_fds MUnlockE c = {#}" | "main_fds MSignal c = {#}"
| "main_fds (MOver pc) c = over_fds pc c" | "main_fds _ c = {#c#}"

definition worker_fds :: "'d server \<Rightarrow> int multiset" where
  "worker_fds s = mset (map element (filter holding (workers s)))"

definition queue_fds :: "(int \<times> 'd) list \<Rightarrow> int multiset" where
  "queue_fds xs = mset (map fst xs)"

definition accounted :: "'d server \<Rightarrow> bool" where
  "accounted s \<longleftrightarrow> (\<exists>xs. contents s xs \<and> mset (accepted_fds s) =
     queue_fds xs + worker_fds s + main_fds (mpc s) (connfd s) + mset (closed_fds s))"

lemma filter_update_mset:
  assumes "i < length ws"
  shows "mset (map g (filter P (ws[i := w]))) + (if P (ws ! i) then {#g (ws ! i)#} else {#}) =
     mset (map g (filter P ws)) + (if P w then {#g w#} else {#})"
proof -
  obtain us vs where ws: "ws = us @ ws ! i # vs" "ws[i := w] = us @ w # vs"
    using id_take_nth_drop [OF assms] upd_conv_take_nth_drop [OF assms, of w] by blast
  show ?thesis unfolding ws(2) by (subst (3) ws(1)) simp
qed

lemma worker_fds_upd:
  assumes "i < length (workers s)" and "workers s' = (workers s)[i := w]"
  shows "worker_fds s' + (if holding (workers s ! i) then {#element (workers s ! i)#} else {#}) =
     worker_fds s + (if holding w then {#element w#} else {#})"
  using filter_update_mset [OF assms(1), of element holding w] assms(2) by (simp add: worker_fds_def)

lemma worker_fds_keep:
  assumes "i < length (workers s)" and "workers s' = (workers s)[i := workers s' ! i]"
    and "holding (workers s' ! i) = holding (workers s ! i)"
    and "holding (workers s' ! i) \<Longrightarrow> element (workers s' ! i) = element (workers s ! i)"
  shows "worker_fds s' = worker_fds s"
  using worker_fds_upd [OF assms(1,2)] assms(3,4) by (cases "holding (workers s' ! i)") auto

lemma accounted_keep:
  assumes "accounted s" and "qs s' = qs s" and "mpc s' = mpc s" and "connfd s' = connfd s"
    and "accepted_fds s' = accepted_fds s" and "closed_fds s' = closed_fds s" and "worker_fds s' = worker_fds s"
  shows "accounted s'"
  using assms unfolding accounted_def contents_def by simp

lemma accounted_wtrans:
  assumes "workers_ok s" and "accounted s" and i: "i < length (workers s)" and "wtrans i s s'"
  shows "accounted s'"
proof -
  obtain xs where xs: "contents s xs" and eq: "mset (accepted_fds s) =
      queue_fds xs + worker_fds s + main_fds (mpc s) (connfd s) + mset (closed_fds s)"
    using assms(2) by (auto simp: accounted_def)
  have wi: "worker_ok (qlen s) (workers s ! i)" using assms(1) i by (simp add: workers_ok_def)
  have main: "main_fds (mpc s') (connfd s') = main_fds (mpc s) (connfd s)" "accepted_fds s' = accepted_fds s"
    using wtrans_frame(4-6) [OF assms(4)] by auto
  show ?thesis using assms(4)
  proof cases
    case (w_take now q e a d)
    obtain t ys where ys: "xs = (e, t) # ys" "qrep q ys"
      using contents_take [OF xs w_take(3) take_nonempty [OF w_take(3,4)]] .
    have "contents s' ys" using xs ys w_take(1) by (auto simp: contents_def)
    moreover have "worker_fds s' = add_mset e (worker_fds s)"
      using worker_fds_upd [OF i, of s'] w_take(1,2,4) by (simp add: holding_def)
    ultimately show ?thesis using eq main ys(1) w_take(1) by (auto simp: accounted_def queue_fds_def)
  next
    case w_close
    have "add_mset (element (workers s ! i)) (worker_fds s') = worker_fds s"
      using worker_fds_upd [OF i, of s'] w_close by (simp add: holding_def)
    moreover have "contents s' xs" using xs w_close(1) by (simp add: contents_def)
    ultimately show ?thesis using eq main w_close(1)
      by (auto simp: accounted_def intro!: exI [of _ xs])
  next
    case w_sig
    have "contents s' xs" using xs w_sig(1) signal_cond2_mpc [of s] by (auto simp: contents_def)
    moreover have "worker_fds s' = worker_fds s"
      by (rule worker_fds_keep [OF i]) (use w_sig i in \<open>auto simp: holding_def\<close>)
    ultimately show ?thesis using eq main w_sig(1) by (auto simp: accounted_def)
  qed (rule accounted_keep [OF assms(2)]; (rule worker_fds_keep [OF i])?;
      use i wi in \<open>auto simp: holding_def worker_ok_def\<close>)+
qed

lemma accounted_main:
  assumes "contents s' xs" and "worker_fds s' = worker_fds s"
    and "mset (accepted_fds s) = queue_fds ys + worker_fds s + main_fds (mpc s) (connfd s) + mset (closed_fds s)"
    and "mset (accepted_fds s') + (queue_fds ys + main_fds (mpc s) (connfd s) + mset (closed_fds s)) =
      mset (accepted_fds s) + (queue_fds xs + main_fds (mpc s') (connfd s') + mset (closed_fds s'))"
  shows "accounted s'"
proof -
  let ?y = "queue_fds ys + main_fds (mpc s) (connfd s) + mset (closed_fds s)"
  and ?x = "queue_fds xs + main_fds (mpc s') (connfd s') + mset (closed_fds s')"
  have "mset (accepted_fds s) = worker_fds s + ?y" using assms(3) by (simp add: ac_simps)
  then have "mset (accepted_fds s') + ?y = (worker_fds s + ?x) + ?y"
    using assms(4) by (simp add: ac_simps)
  then have "mset (accepted_fds s') = worker_fds s + ?x" by (rule add_right_imp_eq)
  then show ?thesis using assms(1,2) by (auto simp: accounted_def ac_simps)
qed

lemma accounted_mtrans:
  assumes "accounted s" and "mtrans s s'"
  shows "accounted s'"
proof -
  obtain xs where xs: "contents s xs" and eq: "mset (accepted_fds s) =
      queue_fds xs + worker_fds s + main_fds (mpc s) (connfd s) + mset (closed_fds s)"
    using assms(1) by (auto simp: accounted_def)
  show ?thesis using assms(2)
  proof cases
    case (m_dh_take now q e a d)
    obtain t ys where ys: "xs = (e, t) # ys" "qrep q ys" using contents_take [OF xs m_dh_take(3,4)] .
    show ?thesis
      by (rule accounted_main [OF _ _ eq, of _ ys])
        (use xs ys m_dh_take in \<open>auto simp: contents_def worker_fds_def queue_fds_def\<close>)
  next
    case (m_rand_del k r q e)
    obtain t ys zs where ys: "xs = ys @ (e, t) # zs" "qrep q (ys @ zs)" using contents_rand [OF xs m_rand_del(4-6)] .
    show ?thesis
      by (rule accounted_main [OF _ _ eq, of _ "ys @ zs"])
        (use xs ys m_rand_del in \<open>auto simp: contents_def worker_fds_def queue_fds_def\<close>)
  next
    case (m_enq b q)
    show ?thesis
      by (rule accounted_main [OF _ _ eq, of _ "xs @ [(connfd s, m_arrival s)]"])
        (use xs contents_enq(1) [OF xs m_enq(3,4)] m_enq(1,2) in \<open>auto simp: contents_def worker_fds_def queue_fds_def\<close>)
  next
    case (m_policy pc)
    show ?thesis
      by (rule accounted_main [OF _ _ eq, of _ xs])
        (use xs m_policy in \<open>auto simp: contents_def worker_fds_def queue_fds_def policy_entry_def split: if_splits\<close>)
  next
    case (m_wake i)
    have "worker_fds s' = worker_fds s"
      using m_wake by (intro worker_fds_keep [of i]) (auto simp: holding_def waiting_def)
    then show ?thesis
      by (rule accounted_main [OF _ _ eq, of _ xs, rotated]) (use xs m_wake in \<open>auto simp: contents_def\<close>)
  qed (rule accounted_main [OF _ _ eq, of _ xs],
      use xs in \<open>auto simp: contents_def worker_fds_def queue_fds_def ac_simps\<close>)+
qed

lemma accounted_trans:
  assumes "workers_ok s" and "accounted s" and "trans s s'"
  shows "accounted s'"
  using assms(3)
proof cases
  case (t_worker i)
  then show ?thesis using accounted_wtrans [OF assms(1,2)] by blast
next
  case t_main
  then show ?thesis using accounted_mtrans [OF assms(2)] by blast
next
  case (t_spurious i)
  have "worker_fds s' = worker_fds s"
    using t_spurious by (intro worker_fds_keep [of i]) (auto simp: holding_def waiting_def)
  then show ?thesis by (rule accounted_keep [OF assms(2), rotated -1]) (use t_spurious in auto)
next
  case t_spurious_main
  then have "worker_fds s' = worker_fds s" "main_fds (mpc s') (connfd s') = main_fds (mpc s) (connfd s)"
    using signal_cond2_mpc [of s] by (auto simp: worker_fds_def)
  moreover have "contents s' xs" if "contents s xs" for xs
    using that t_spurious_main signal_cond2_mpc [of s] by (auto simp: contents_def)
  ultimately show ?thesis using assms(2) t_spurious_main unfolding accounted_def by auto
qed

section \<open>Limits\<close>

definition limits :: "'d server \<Rightarrow> 'd server \<Rightarrow> bool" where
  "limits s0 s \<longleftrightarrow> schedalg s = schedalg s0 \<and> max_size s = max_size s0 \<and> length (workers s) = length (workers s0) \<and>
     size_limit s0 \<le> size_limit s \<and> (schedalg s0 \<noteq> ''dynamic'' \<longrightarrow> size_limit s = size_limit s0) \<and>
     (\<forall>m. max_size s0 = Some m \<longrightarrow> size_limit s \<le> max (size_limit s0) m) \<and>
     (max_size s0 = None \<longrightarrow> size_limit s = size_limit s0)"

lemma limits_trans:
  assumes "policy_ok s" and "limits s0 s" and "trans s s'"
  shows "limits s0 s'"
  using assms(3)
proof cases
  case (t_worker i)
  note f = wtrans_frame(1-3) [OF t_worker(2)] trans_workers_length [OF assms(3)]
  show ?thesis using assms(2) unfolding limits_def f .
next
  case t_main
  then show ?thesis
  proof cases
    case (m_dyn_grow m)
    then have "schedalg s = ''dynamic''" using assms(1) by (simp add: policy_ok_def)
    moreover have "schedalg s = schedalg s0" "max_size s = max_size s0" "max_size s0 = Some m" "length (workers s) = length (workers s0)"
      "size_limit s0 \<le> size_limit s" using assms(2) m_dyn_grow(3) unfolding limits_def by simp_all
    ultimately show ?thesis unfolding limits_def m_dyn_grow(1) using m_dyn_grow(4) by simp
  qed (use assms(2) in \<open>auto simp: limits_def\<close>)
qed (use assms(2) in \<open>auto simp: limits_def\<close>)

definition rloop_ok :: "'d server \<Rightarrow> bool" where
  "rloop_ok s \<longleftrightarrow> (\<forall>k. mpc s = MOver (RLoop k) \<longrightarrow> k \<le> qlen s)"

lemma rloop_trans:
  assumes "contents s xs" and "locks_ok s" and "rloop_ok s" and "trans s s'"
  shows "rloop_ok s'"
  using assms(4)
proof cases
  case (t_worker i)
  from t_worker(2) show ?thesis
  proof cases
    case (w_take now q e a d)
    have "worker_holds1 (wpc (workers s ! i))" using w_take(2) by simp
    then have "\<not> main_holds1 (mpc s)" using locks_exclusive(1) [OF assms(2) _ t_worker(1)] by blast
    then show ?thesis using w_take(1) by (auto simp: rloop_ok_def)
  next
    case w_sig
    then show ?thesis using assms(3) signal_cond2_mpc [of s] by (auto simp: rloop_ok_def)
  qed (use assms(3) in \<open>auto simp: rloop_ok_def\<close>)
next
  case t_main
  then show ?thesis
  proof cases
    case (m_policy pc)
    then show ?thesis by (auto simp: rloop_ok_def policy_entry_def split: if_splits)
  next
    case (m_rand_del k r q e)
    have "queue_size (queue q) = qlen s - 1" using contents_rand [OF assms(1) m_rand_del(4-6)] .
    then show ?thesis using assms(3) m_rand_del(1,2) by (auto simp: rloop_ok_def)
  next
    case m_rand_some
    then show ?thesis using contents_qlen [OF assms(1)] by (auto simp: rloop_ok_def)
  qed (use assms(3) in \<open>auto simp: rloop_ok_def\<close>)
next
  case t_spurious_main
  then show ?thesis using assms(3) signal_cond2_mpc [of s] by (auto simp: rloop_ok_def)
qed (use assms(3) in \<open>auto simp: rloop_ok_def\<close>)

section \<open>The invariant of a run\<close>

definition run_inv :: "'d server \<Rightarrow> 'd server \<Rightarrow> bool" where
  "run_inv s0 s \<longleftrightarrow> count_ok s \<and> conserving s \<and> main_wakes s \<and> policy_ok s \<and> limits s0 s \<and> rloop_ok s \<and>
     accounted s \<and> (known_policy (schedalg s0) \<longrightarrow> bounded s)"

lemma init_run_inv:
  assumes "init_ok s"
  shows "run_inv s s"
proof -
  have w: "wpc w = WLock1" if "w \<in> set (workers s)" for w using assms that by (simp add: init_ok_def)
  have none: "filter counted (workers s) = []" "filter waiting (workers s) = []" "filter holding (workers s) = []"
    using w by (auto simp: filter_empty_conv counted_def waiting_def holding_def)
  have s: "mpc s = MAccept" "qlen s = 0" "num_of_curr_working s = 0" "accepted_fds s = []" "closed_fds s = []"
    using assms contents_qlen [OF init_contents [OF assms]] by (simp_all add: init_ok_def)
  have "accounted s" unfolding accounted_def
    using init_contents [OF assms] s none by (intro exI [of _ "[]"]) (simp add: worker_fds_def queue_fds_def)
  then show ?thesis using s none
    by (simp add: run_inv_def count_ok_def conserving_def main_wakes_def policy_ok_def limits_def
        rloop_ok_def number_def bounded_def load_def capacity_def le_max_iff_disj)
qed

lemma reach_run:
  assumes "reach s0 s" and "init_ok s0"
  shows "run_inv s0 s" and "locks_ok s" and "workers_ok s" and "\<exists>xs. contents s xs"
proof -
  have *: "run_inv s0 s'"
    if a: "contents s xs" "locks_ok s" "workers_ok s" and r: "run_inv s0 s" and t: "trans s s'" for s s' xs
  proof -
    have r': "count_ok s" "conserving s" "main_wakes s" "policy_ok s" "limits s0 s" "rloop_ok s" "accounted s"
      "known_policy (schedalg s0) \<longrightarrow> bounded s" using r unfolding run_inv_def by simp_all
    show ?thesis unfolding run_inv_def
      using count_trans [OF a(3) r'(1) t] conserving_trans [OF a(1,3) r'(2) t] main_wakes_trans [OF a(1) r'(3) t]
        policy_trans [OF r'(4) t] limits_trans [OF r'(4,5) t] rloop_trans [OF a(1,2) r'(6) t]
        accounted_trans [OF a(3) r'(7) t] bounded_trans [OF a(1) r'(1,4) _ t] r'(8)
      by simp
  qed
  show "run_inv s0 s" "locks_ok s" "workers_ok s" "\<exists>xs. contents s xs"
    by (rule reach_base [OF assms, of "run_inv s0", OF init_run_inv [OF assms(2)] *]; assumption)+
qed

section \<open>Progress\<close>

definition can_move :: "'d::minus choice \<Rightarrow> 'd server \<Rightarrow> bool" where
  "can_move ch s \<longleftrightarrow> (\<exists>t i. step t (ch\<lparr>wakes := i\<rparr>) s \<noteq> None)"

lemma can_move_worker:
  "i < length (workers s) \<Longrightarrow> worker_step i (ch\<lparr>wakes := k\<rparr>) s \<noteq> None \<Longrightarrow> can_move ch s"
  unfolding can_move_def by (intro exI [of _ "Worker i"] exI [of _ k]) (simp add: step_def)

lemma can_move_main: "main_step (ch\<lparr>wakes := k\<rparr>) s \<noteq> None \<Longrightarrow> can_move ch s"
  unfolding can_move_def by (intro exI [of _ Main] exI [of _ k]) (simp add: step_def)

lemma cbind_Some [simp]: "cbind (Some r) (\<lambda>x. Some (f x)) \<noteq> None"
  by (cases r) auto

lemma locks_owner:
  assumes "locks_ok s"
  shows "mutex s = Some Main \<Longrightarrow> main_holds1 (mpc s)" and "mutex2 s = Some Main \<Longrightarrow> main_holds2 (mpc s)"
    and "mutex s = Some (Worker i) \<Longrightarrow> i < length (workers s) \<and> worker_holds1 (wpc (workers s ! i))"
    and "mutex2 s = Some (Worker i) \<Longrightarrow> i < length (workers s) \<and> worker_holds2 (wpc (workers s ! i))"
  using assms lock_okD(1) [of "mutex s"] lock_okD(1) [of "mutex2 s"]
    lock_okD(2) [of "mutex s" _ _ i] lock_okD(2) [of "mutex2 s" _ _ i]
  unfolding locks_ok_def by fastforce+

lemma mutex2_moves:
  assumes "locks_ok s" and "mutex2 s = Some t"
  shows "can_move ch s"
proof (cases t)
  case Main
  then have "main_holds2 (mpc s)" using locks_owner(2) [OF assms(1)] assms(2) by simp
  then have "main_step (ch\<lparr>wakes := 0\<rparr>) s \<noteq> None"
    by (cases "mpc s" rule: main_holds2.cases)
      (auto simp: main_step_def handle_overloading_def Let_def elim!: over_holds2.elims)
  then show ?thesis by (rule can_move_main)
next
  case (Worker i)
  then have i: "i < length (workers s)" "worker_holds2 (wpc (workers s ! i))"
    using locks_owner(4) [OF assms(1)] assms(2) by simp_all
  then have "worker_step i (ch\<lparr>wakes := 0\<rparr>) s \<noteq> None"
    by (cases "wpc (workers s ! i)") (auto simp: worker_step_def deq_step_def Let_def)
  then show ?thesis by (rule can_move_worker [OF i(1)])
qed

lemma worker_moves:
  assumes "locks_ok s" and "i < length (workers s)" and "wpc (workers s ! i) \<noteq> WWait" and "wpc (workers s ! i) \<noteq> WHandle"
    and "mutex s = None \<or> mutex s = Some (Worker i)"
  shows "can_move ch s"
proof (cases "mutex2 s")
  case None
  have h: "mutex s = Some (Worker i) \<Longrightarrow> worker_holds1 (wpc (workers s ! i))"
    using locks_owner(3) [OF assms(1)] by blast
  have "worker_step i (ch\<lparr>wakes := 0\<rparr>) s \<noteq> None"
    using assms(3-5) None h
    by (cases "wpc (workers s ! i)") (auto simp: worker_step_def lock1_def lock2_def deq_step_def close_fd_def Let_def)
  then show ?thesis by (rule can_move_worker [OF assms(2)])
next
  case (Some t)
  then show ?thesis by (rule mutex2_moves [OF assms(1)])
qed

lemma rand_del_defined:
  assumes "contents s (xs :: (int \<times> 'd::minus) list)" and "qlen s \<noteq> 0" and "0 \<le> r"
  shows "\<exists>q e. dequeue_i (r mod qlen s + 1) (qs s) = Some (Inr (q, e))"
proof -
  have n: "qlen s = int (length xs)" using contents_qlen [OF assms(1)] .
  then have "1 \<le> r mod qlen s + 1" "r mod qlen s + 1 \<le> int (length xs)"
    using rand_index [of r "length xs"] assms(2,3) by auto
  from cq.deq_i_law [OF contents_qrep [OF assms(1)] this] show ?thesis by blast
qed

lemma over_moves:
  assumes "over_holds1 pc" and "qlen s \<noteq> 0 \<Longrightarrow> dequeue_i (rand_val ch mod qlen s + 1) (qs s) \<noteq> None"
  shows "handle_overloading ch pc s \<noteq> None"
proof (cases pc)
  case (RLoop k)
  then show ?thesis using assms(2)
    by (cases "dequeue_i (rand_val ch mod qlen s + 1) (qs s)")
      (auto simp: handle_overloading_def close_fd_def Let_def cbind_None_iff simp del: not_None_eq)
qed (use assms(1) in \<open>auto simp: handle_overloading_def close_fd_def Let_def cbind_None_iff\<close>)

lemma mutex_moves:
  assumes "contents s xs" and "locks_ok s" and "choice_ok ch s" and "mutex s = Some t"
  shows "can_move ch s"
proof (cases t)
  case Main
  then have h: "main_holds1 (mpc s)" using locks_owner(1) [OF assms(2)] assms(4) by simp
  have r: "dequeue_i (rand_val ch mod qlen s + 1) (qs s) \<noteq> None" if "qlen s \<noteq> 0"
    using rand_del_defined [OF assms(1) that] assms(3) by (auto simp: choice_ok_def)
  have "main_step (ch\<lparr>wakes := 0\<rparr>) s \<noteq> None"
  proof (cases "mpc s")
    case (MOver pc)
    then show ?thesis using h over_moves [of pc s "ch\<lparr>wakes := 0\<rparr>"] r
      by (auto simp: main_step_def cbind_None_iff split: sum.splits)
  qed (use h in \<open>auto simp: main_step_def\<close>)
  then show ?thesis by (rule can_move_main)
next
  case (Worker i)
  then have "i < length (workers s)" "worker_holds1 (wpc (workers s ! i))"
    using locks_owner(3) [OF assms(2)] assms(4) by simp_all
  then show ?thesis using worker_moves [OF assms(2)] assms(4) Worker by fastforce
qed

lemma main_moves:
  assumes "contents s xs" and "locks_ok s" and "choice_ok ch s"
    and "mpc s \<noteq> MOver BWait" and "mpc s \<noteq> MOver FWait"
  shows "can_move ch s"
proof (cases "mutex s = None \<and> mutex2 s = None")
  case True
  have r: "dequeue_i (rand_val ch mod qlen s + 1) (qs s) \<noteq> None" if "qlen s \<noteq> 0"
    using rand_del_defined [OF assms(1) that] assms(3) by (auto simp: choice_ok_def)
  have free: "\<not> main_holds1 (mpc s)"
    using assms(2) True lock_okD(1) unfolding locks_ok_def by fastforce
  obtain i where i: "(\<exists>w \<in> set (workers s). waiting w) \<Longrightarrow> i < length (workers s) \<and> waiting (workers s ! i)"
    by (metis in_set_conv_nth)
  have "main_step (ch\<lparr>wakes := i\<rparr>) s \<noteq> None"
  proof (cases "mpc s")
    case (MOver pc)
    have "handle_overloading (ch\<lparr>wakes := i\<rparr>) pc s \<noteq> None"
      using MOver free assms(4,5) True
      by (cases pc) (auto simp: handle_overloading_def lock1_def lock2_def close_fd_def Let_def cbind_None_iff
          split: option.splits)
    then show ?thesis using MOver by (auto simp: main_step_def cbind_None_iff split: sum.splits)
  next
    case MSignal
    then show ?thesis using i by (auto simp: main_step_def signal_cond_def)
  qed (use True in \<open>auto simp: main_step_def lock1_def lock2_def cbind_None_iff\<close>)
  then show ?thesis by (rule can_move_main)
next
  case False
  then show ?thesis using mutex_moves [OF assms(1-3)] mutex2_moves [OF assms(2)] by fastforce
qed

lemma awake_moves:
  assumes "contents s xs" and "locks_ok s" and "choice_ok ch s" and "w \<in> set (workers s)"
    and "wpc w \<noteq> WWait" and "wpc w \<noteq> WHandle"
  shows "can_move ch s"
proof (cases "mutex s")
  case None
  obtain i where "i < length (workers s)" "w = workers s ! i" using assms(4) by (metis in_set_conv_nth)
  then show ?thesis using worker_moves [OF assms(2)] None assms(5,6) by blast
next
  case (Some t)
  then show ?thesis by (rule mutex_moves [OF assms(1-3)])
qed

lemma number_ex: "0 < number P s \<longleftrightarrow> (\<exists>w \<in> set (workers s). P w)"
  by (auto simp: number_def filter_empty_conv)

lemma loaded_awake:
  assumes "contents s xs" and "run_inv s0 s" and "workers s \<noteq> []" and "0 < qlen s + num_of_curr_working s"
    and "mpc s \<noteq> MUnlockE" and "mpc s \<noteq> MSignal"
  shows "\<exists>w \<in> set (workers s). wpc w \<noteq> WWait"
proof (rule ccontr)
  assume "\<not> ?thesis"
  then have all: "\<forall>w \<in> set (workers s). waiting w" by (auto simp: waiting_def)
  have "number counted s = 0" "number heading s = 0"
    using all by (auto simp: number_def filter_empty_conv counted_def heading_def waiting_def)
  moreover have "0 < number waiting s" using all assms(3) by (auto simp: number_ex intro: hd_in_set)
  ultimately have "qlen s \<le> 0" "num_of_curr_working s = 0"
    using assms(2,5,6) by (auto simp: run_inv_def count_ok_def conserving_def signal_due_def)
  then show False using assms(4) by simp
qed

lemma never_stuck:
  assumes "reach s0 s" and "init_ok s0" and "workers s0 \<noteq> []" and "schedalg s0 = ''block'' \<longrightarrow> 0 < size_limit s0"
    and "choice_ok ch s"
  shows "can_move ch s \<or> (\<exists>w \<in> set (workers s). wpc w = WHandle)"
proof -
  note r = reach_run [OF assms(1,2)]
  obtain xs where xs: "contents s xs" using r(4) by blast
  have lim: "workers s \<noteq> []" "schedalg s = ''block'' \<Longrightarrow> 0 < size_limit s" and pol: "policy_ok s"
    using r(1) assms(3,4) unfolding run_inv_def limits_def by auto
  have wake: "can_move ch s \<or> (\<exists>w \<in> set (workers s). wpc w = WHandle)"
    if "w \<in> set (workers s)" "wpc w \<noteq> WWait" for w
    using awake_moves [OF xs r(2) assms(5) that] that(1) by blast
  have sig: ?thesis if "0 < number signalling s"
    using that wake by (auto simp: number_ex signalling_def)
  have pos: "0 \<le> qlen s + num_of_curr_working s"
    using contents_qlen [OF xs] r(1) number_bounds(1) [of counted s] by (simp add: run_inv_def count_ok_def)
  consider "mpc s = MOver BWait" | "mpc s = MOver FWait" | "mpc s \<noteq> MOver BWait" "mpc s \<noteq> MOver FWait" by blast
  then show ?thesis
  proof cases
    case 1
    then have "0 < size_limit s" using pol lim(2) by (simp add: policy_ok_def)
    then have "0 < qlen s + num_of_curr_working s \<or> 0 < number signalling s"
      using r(1) 1 by (auto simp: run_inv_def main_wakes_def)
    then show ?thesis using sig wake loaded_awake [OF xs r(1) lim(1)] 1 by auto
  next
    case 2
    then have "0 < qlen s + num_of_curr_working s \<or> 0 < number signalling s"
      using r(1) pos by (auto simp: run_inv_def main_wakes_def)
    then show ?thesis using sig wake loaded_awake [OF xs r(1) lim(1)] 2 by auto
  next
    case 3
    then show ?thesis using main_moves [OF xs r(2) assms(5)] by blast
  qed
qed

section \<open>No undefined behaviour outside the handler\<close>

definition args_ok :: "'d server \<Rightarrow> bool" where
  "args_ok s \<longleftrightarrow> known_policy (schedalg s) \<and> size_limit s < 2 ^ 31 \<and> int (length (workers s)) + 2 < 2 ^ 31 \<and>
     (schedalg s = ''dynamic'' \<longrightarrow> max_size s \<noteq> None) \<and> (\<forall>m. max_size s = Some m \<longrightarrow> m < 2 ^ 31)"

lemma Close_no_UB: "Close f d \<noteq> Inl (UB u)"
  by (auto simp: Close_def unix_error_def Let_def split: prod.splits)

lemma close_fd_no_UB: "close_fd ch d s \<noteq> Some (Inl (UB u))"
  using Close_no_UB by (auto simp: close_fd_def rbind_Inl_iff)

lemma cbind_Inl_iff:
  "cbind m f = Some (Inl e) \<longleftrightarrow> m = Some (Inl e) \<or> (\<exists>x. m = Some (Inr x) \<and> f x = Some (Inl e))"
  by (cases "(m, f)" rule: cbind.cases) auto

lemma contents_dequeue:
  assumes "contents s (xs :: (int \<times> 'd::minus) list)"
  shows "dequeue wa wd now (qs s) \<noteq> Inl e"
proof (cases xs)
  case Nil
  then show ?thesis using cq.deq_empty_law [of "qs s"] contents_qrep [OF assms] by simp
next
  case (Cons x ys)
  then have "qrep (qs s) ((fst x, snd x) # ys)" using contents_qrep [OF assms] by simp
  from cq.deq_law [OF this] show ?thesis by (metis Inl_Inr_False)
qed

lemma number_lt: "i < length (workers s) \<Longrightarrow> \<not> P (workers s ! i) \<Longrightarrow> number P s < int (length (workers s))"
  unfolding number_def using length_filter_less [of "workers s ! i" "workers s" P] by simp

lemma worker_no_UB:
  assumes "contents s xs" and "run_inv s0 s" and "args_ok s0" and i: "i < length (workers s)"
    and "worker_step i ch s = Some (Inl (UB u))"
  shows "wpc (workers s ! i) = WHandle"
proof (cases "wpc (workers s ! i)")
  case WDeq
  have "number counted s < int (length (workers s))" using number_lt [OF i] WDeq by (simp add: counted_def)
  then have "num_of_curr_working s < 2 ^ 31 - 1"
    using assms(2,3) unfolding run_inv_def count_ok_def limits_def args_ok_def by linarith
  then have "deq_step i ch s \<noteq> Some (Inl (UB u))"
    using contents_dequeue [OF assms(1)] by (auto simp: deq_step_def rbind_Inl_iff int_inc_def Let_def)
  then show ?thesis using assms(5) WDeq by (simp add: worker_step_def cbind_Inl_iff)
next
  case WClose
  then show ?thesis using assms(5) close_fd_no_UB [of ch _ s u] by (simp add: worker_step_def cbind_Inl_iff Let_def)
qed (use assms(5) in \<open>auto simp: worker_step_def lock1_def lock2_def split: if_splits\<close>)

lemma over_no_UB:
  assumes "contents s (xs :: (int \<times> 'd::minus) list)" and "run_inv s0 s" and "args_ok s0" and "choice_ok ch s"
    and "mpc s = MOver pc" and "handle_overloading ch pc s = Some (Inl (UB u))"
  shows False
proof (cases pc)
  case (RLoop k)
  have "k \<le> qlen s" using assms(2,5) RLoop by (simp add: run_inv_def rloop_ok_def)
  moreover have "\<exists>q e. dequeue_i (rand_val ch mod qlen s + 1) (qs s) = Some (Inr (q, e))" if "qlen s \<noteq> 0"
    using rand_del_defined [OF assms(1) that] assms(4) by (simp add: choice_ok_def)
  ultimately show ?thesis using RLoop assms(6) close_fd_no_UB [of ch]
    by (auto simp: handle_overloading_def Let_def cbind_Inl_iff split: if_splits)
next
  case DClose
  have d: "schedalg s = ''dynamic''" using assms(2,5) DClose by (simp add: run_inv_def policy_ok_def)
  then obtain m where "max_size s = Some m" "m < 2 ^ 31"
    using assms(2,3) by (auto simp: run_inv_def limits_def args_ok_def)
  then show ?thesis using DClose assms(6) close_fd_no_UB [of ch]
    by (auto simp: handle_overloading_def Let_def cbind_Inl_iff int_inc_def dest!: close_fd_Inr split: if_splits)
next
  case HDeq
  then show ?thesis using assms(6) contents_dequeue [OF assms(1)]
    by (auto simp: handle_overloading_def Let_def rbind_Inl_iff)
qed (use assms(6) close_fd_no_UB [of ch] in \<open>auto simp: handle_overloading_def Let_def cbind_Inl_iff lock1_def lock2_def split: if_splits\<close>)

lemma main_no_UB:
  assumes "contents s xs" and "run_inv s0 s" and "args_ok s0" and "choice_ok ch s"
    and "main_step ch s = Some (Inl (UB u))"
  shows False
proof (cases "mpc s")
  case MAccept
  then show ?thesis using assms(5)
    by (auto simp: main_step_def Accept_def unix_error_def Let_def split: prod.splits if_splits)
next
  case (MOver pc)
  have "handle_overloading ch pc s = Some (Inl (UB u))"
    using assms(5) MOver by (auto simp: main_step_def cbind_Inl_iff) (metis (no_types, lifting) Inl_Inr_False option.inject old.sum.exhaust sum.case)
  then show ?thesis by (rule over_no_UB [OF assms(1-4) MOver])
next
  case MEnq
  have b: "load s < capacity s" using assms(2,3) MEnq by (simp add: run_inv_def args_ok_def bounded_def)
  have "size_limit s < 2 ^ 31"
  proof (cases "max_size s0")
    case None
    then show ?thesis using assms(2,3) unfolding run_inv_def limits_def args_ok_def by simp
  next
    case (Some m)
    then have "size_limit s \<le> max (size_limit s0) m" "m < 2 ^ 31" "size_limit s0 < 2 ^ 31"
      using assms(2,3) unfolding run_inv_def limits_def args_ok_def by simp_all
    then show ?thesis by simp
  qed
  moreover have "int (length (workers s)) + 2 < 2 ^ 31"
    using assms(2,3) unfolding run_inv_def limits_def args_ok_def by simp
  ultimately have "capacity s < 2 ^ 31" by (simp add: capacity_def)
  moreover have "0 \<le> num_of_curr_working s"
    using assms(2) number_bounds(1) [of counted s] by (simp add: run_inv_def count_ok_def)
  ultimately have "int (length xs) < 2 ^ 31 - 1" using b contents_qlen [OF assms(1)] by (simp add: load_def)
  then obtain q where "enqueue (new_block ch) (connfd s) (m_arrival s) (qs s) = Inr q"
    using cq.enq_law [OF contents_qrep [OF assms(1)]] assms(4) unfolding choice_ok_def by blast
  then show ?thesis using assms(5) MEnq by (simp add: main_step_def)
qed (use assms(5) in \<open>auto simp: main_step_def lock1_def lock2_def signal_cond_def split: if_splits\<close>)

section \<open>Running a schedule\<close>

fun run :: "(tid \<times> 'd::minus choice) list \<Rightarrow> 'd server \<Rightarrow> 'd server comp" where
  "run [] s = Some (Inr s)"
| "run ((t, ch) # es) s = cbind (step t ch s) (run es)"

fun run_ok :: "(tid \<times> 'd::minus choice) list \<Rightarrow> 'd server \<Rightarrow> bool" where
  "run_ok [] s = True"
| "run_ok ((t, ch) # es) s \<longleftrightarrow> choice_ok ch s \<and> (case step t ch s of Some (Inr s') \<Rightarrow> run_ok es s' | _ \<Rightarrow> True)"

lemma run_reach:
  assumes "reach s0 s" and "run_ok es s" and "run es s = Some (Inr s')"
  shows "reach s0 s'"
  using assms
proof (induction es arbitrary: s)
  case Nil
  then show ?case by simp
next
  case (Cons e es)
  obtain t ch where e: "e = (t, ch)" by (cases e)
  then obtain s1 where s1: "step t ch s = Some (Inr s1)" "run es s1 = Some (Inr s')"
    using Cons.prems(3) by (auto simp: cbind_Inr_iff)
  then show ?case using Cons.IH [of s1] Cons.prems e reach_step [of s0 s ch t s1] by simp
qed

definition demo_sockets :: "int \<Rightarrow> sockets" where
  "demo_sockets d = \<lparr>socket = (\<lambda>_ _ _. (3, [])), setsockopt = (\<lambda>_ _ _ _. (0, [])), bind_call = (\<lambda>_ _. (0, [])),
     listen = (\<lambda>_ _. (0, [])), accept = (\<lambda>_. (d, \<lparr>sin_family = 2, sin_port = 0, s_addr = 0\<rparr>, [])),
     connect = (\<lambda>_ _. (0, [])), gethostbyname = (\<lambda>_. None), gethostbyaddr = (\<lambda>_. None), h_errno = 0\<rparr>"

definition demo_choice :: "int \<Rightarrow> addr \<Rightarrow> int choice" where
  "demo_choice d a = \<lparr>sock = demo_sockets d, clock = 7, new_block = Some a, rand_val = 5, wakes = 0,
     close_res = (0, []), req_os = demo_os 0 0, req_junk = [], req_conn = demo_conn\<rparr>"

definition demo_server :: "string \<Rightarrow> int \<Rightarrow> int server" where
  "demo_server alg limit = \<lparr>qs = \<lparr>heap = (\<lambda>_. None), queue = \<lparr>front = None, rear = None, queue_size = 0\<rparr>\<rparr>,
     num_of_curr_working = 0, size_limit = limit, max_size = Some 10, schedalg = alg, mutex = None, mutex2 = None,
     mpc = MAccept, listenfd = 3, connfd = 0, m_arrival = 0, workers = [init_worker 0],
     accepted_fds = [], closed_fds = [], main_out = []\<rparr>"

lemma demo_init: "init_ok (demo_server alg limit)"
  by (simp add: init_ok_def demo_server_def qrep_def qrep_at_def init_worker_def)

text \<open>Main accepts two connections under the policy \<open>random\<close>, with a limit of one.\<close>

definition demo_random :: "(tid \<times> int choice) list" where
  "demo_random = replicate 6 (Main, demo_choice 4 0) @ replicate 12 (Main, demo_choice 5 1)"

definition demo_random_holds :: bool where
  "demo_random_holds \<longleftrightarrow> run_ok demo_random (demo_server ''random'' 1) \<and>
     (case run demo_random (demo_server ''random'' 1) of
        Some (Inr s) \<Rightarrow> qlen s = 2 \<and> num_of_curr_working s = 0 \<and> size_limit s = 1
      | _ \<Rightarrow> False)"

lemma fresh_block_code [code]: "fresh_block q p = (case p of None \<Rightarrow> False | Some a \<Rightarrow> heap q a = None)"
  by (auto simp: fresh_block_def split: option.splits)

lemma demo_random_run: "demo_random_holds"
  by code_simp

text \<open>
  Under the policy \<open>block\<close>: main queues a connection, the worker takes it and is about to
  handle it.
\<close>

definition demo_block :: "(tid \<times> int choice) list" where
  "demo_block = replicate 6 (Main, demo_choice 4 0) @ replicate 2 (Main, demo_choice 5 1) @
     replicate 6 (Worker 0, demo_choice 5 1)"

definition demo_block_state :: "int server" where
  "demo_block_state = (case run demo_block (demo_server ''block'' 1) of Some (Inr s) \<Rightarrow> s | _ \<Rightarrow> demo_server [] 0)"

lemma demo_block_ok:
  "run_ok demo_block (demo_server ''block'' 1) \<and>
   (case run demo_block (demo_server ''block'' 1) of Some (Inr s) \<Rightarrow> True | _ \<Rightarrow> False)"
  by code_simp

lemma demo_block_end:
  "map wpc (workers demo_block_state) = [WHandle]" "mpc demo_block_state = MAccept" "qlen demo_block_state = 0"
  "num_of_curr_working demo_block_state = 1" "accepted_fds demo_block_state = [4]" "closed_fds demo_block_state = []"
  "choice_ok (demo_choice 6 2) demo_block_state" "map element (workers demo_block_state) = [4]"
  by code_simp+

lemma demo_block_reach: "reach (demo_server ''block'' 1) demo_block_state"
proof -
  obtain s where "run demo_block (demo_server ''block'' 1) = Some (Inr s)"
    using demo_block_ok by (auto split: option.splits sum.splits)
  then show ?thesis using run_reach [OF reach_refl] demo_block_ok by (simp add: demo_block_state_def)
qed

section \<open>Properties\<close>

text \<open>
  Started with a port, a number of threads, a queue limit and a policy other than
  \<open>dynamic\<close>, printed in decimal, and a listening socket that opens, \<open>main\<close> reaches its loop with
  an empty queue, that many idle workers, that limit and that policy: the initial state that
  every theorem about runs starts from.
\<close>

theorem server_starts:
  assumes "0 < n" and "n < 2 ^ 31" and "- (2 ^ 31) \<le> q" and "q < 2 ^ 31" and "- (2 ^ 31) \<le> p" and "p < 2 ^ 31"
    and "alg \<noteq> ''dynamic''" and "Open_listenfd so p = Inr lfd"
  shows "\<exists>s. server_main so (Some b) h fd0 t0 [prog, show_int p, show_int n, show_int q, alg] = Inr s \<and>
     init_ok s \<and> length (workers s) = nat n \<and> size_limit s = q \<and> schedalg s = alg \<and> listenfd s = lfd"
proof -
  obtain qq where qq: "createQueue (Some b) h = Inr qq" "qrep qq []" using createQueue_rep by blast
  have n: "atoi (show_int n) = n" using assms(1,2) by (intro atoi_show_int) simp_all
  show ?thesis using assms(1,7,8) qq atoi_show_int [OF assms(3,4)] atoi_show_int [OF assms(5,6)] n
    by (auto simp: server_main_def getargs_def Let_def init_ok_def init_worker_def)
qed

theorem server_starts_witness:
  "\<exists>s. server_main (demo_sockets 4) (Some 1) (\<lambda>_. None) 0 (0::int) [''server'', show_int 8080, show_int 2, show_int 10, ''dh''] = Inr s \<and>
     init_ok s \<and> length (workers s) = nat 2 \<and> size_limit s = 10 \<and> schedalg s = ''dh'' \<and> listenfd s = 3"
  by (rule server_starts) (simp_all add: Open_listenfd_def open_listenfd_def demo_sockets_def Let_def)



text \<open>
  Under the policy random the limit is not kept: with a limit of one and a single
  connection waiting, half of one is zero, nothing is dropped, and the new connection is queued
  as well.
\<close>

theorem random_exceeds_limit:
  "\<exists>s. reach (demo_server ''random'' 1) s \<and> size_limit s = 1 \<and> qlen s + num_of_curr_working s = 2"
proof -
  obtain s where s: "run demo_random (demo_server ''random'' 1) = Some (Inr s)" "qlen s = 2"
      "num_of_curr_working s = 0" "size_limit s = 1" "run_ok demo_random (demo_server ''random'' 1)"
    using demo_random_run by (auto simp: demo_random_holds_def split: option.splits sum.splits)
  have "reach (demo_server ''random'' 1) s" by (rule run_reach [OF reach_refl s(5,1)])
  then show ?thesis using s(2-4) by auto
qed

fun main_touches :: "main_pc \<Rightarrow> bool" where
  "main_touches MTest = True" | "main_touches MEnq = True" | "main_touches (MOver BTest) = True"
| "main_touches (MOver FTest) = True" | "main_touches (MOver HDeq) = True" | "main_touches (MOver RTest) = True"
| "main_touches (MOver (RLoop k)) = True" | "main_touches _ = False"

lemma main_touches_holds: "main_touches pc \<Longrightarrow> main_holds1 pc \<or> main_holds2 pc"
  by (cases pc rule: main_touches.cases) auto

text \<open>
  Claim C5. No data race: while a worker dequeues, main is at no point that reads or writes the
  queue or the counter, and no other worker changes either; while a worker decrements the counter,
  main does not read it.
\<close>

theorem server_race_free:
  assumes "init_ok s0" and "reach s0 s" and "i < length (workers s)"
  shows "(wpc (workers s ! i) = WDeq \<longrightarrow> \<not> main_touches (mpc s)) \<and>
    (wpc (workers s ! i) = WDec \<longrightarrow> mpc s \<notin> {MTest, MOver BTest, MOver FTest}) \<and>
    (wpc (workers s ! i) \<in> {WDeq, WDec} \<longrightarrow>
      (\<forall>j < length (workers s). wpc (workers s ! j) \<in> {WDeq, WDec} \<longrightarrow> j = i))"
proof -
  note x = locks_exclusive [OF reach_run(2) [OF assms(2,1)]]
  have "wpc (workers s ! i) = WDeq \<longrightarrow> \<not> main_touches (mpc s)"
    using x(1,2) [OF _ assms(3)] main_touches_holds [of "mpc s"] by auto
  moreover have "wpc (workers s ! i) = WDec \<longrightarrow> mpc s \<notin> {MTest, MOver BTest, MOver FTest}"
    using x(2) [OF _ assms(3)] by auto
  moreover have "j = i" if "wpc (workers s ! i) \<in> {WDeq, WDec}" "j < length (workers s)"
      "wpc (workers s ! j) \<in> {WDeq, WDec}" for j
    using x(4) [OF that(2) assms(3)] that(1,3) by auto
  ultimately show ?thesis by blast
qed

text \<open>
  Claim C2. No lost wake-up for the workers: while any worker sleeps on the condition variable,
  there are at least as many workers on their way to the queue (or signals main is about to
  send) as there are connections in the queue, under every interleaving and with spurious
  wake-ups. A connection never waits for a sleeping worker.
\<close>

theorem no_lost_wakeup:
  assumes "init_ok s0" and "reach s0 s" and "\<exists>w \<in> set (workers s). waiting w"
  shows "qlen s \<le> number heading s + (if mpc s = MUnlockE \<or> mpc s = MSignal then 1 else 0)"
  using reach_run(1) [OF assms(2,1)] assms(3)
  by (auto simp: run_inv_def conserving_def signal_due_def number_ex split: if_splits)

text \<open>
  Claim C6. No lost wake-up for main: when main sleeps in the policy \<open>block\<close> although there is room, or in
  \<open>bf\<close> although the server is idle, some worker is about to signal it.
\<close>

theorem main_is_woken:
  assumes "init_ok s0" and "reach s0 s"
    and "mpc s = MOver BWait \<and> qlen s + num_of_curr_working s < size_limit s \<or>
         mpc s = MOver FWait \<and> qlen s + num_of_curr_working s = 0"
  shows "\<exists>w \<in> set (workers s). wpc w = WUnlockD \<or> wpc w = WSig"
  using reach_run(1) [OF assms(2,1)] assms(3)
  by (auto simp: run_inv_def main_wakes_def number_ex signalling_def)

text \<open>
  Claim C4. No connection is lost or closed twice: every descriptor that \<open>Accept\<close> returned is, as
  often as it was returned, either in the queue, or held by one worker, or held by main, or has
  been closed, and nothing else is ever queued, held or closed.
\<close>

theorem connections_accounted:
  assumes "init_ok s0" and "reach s0 s"
  shows "\<exists>xs. qrep (qs s) xs \<and> mset (accepted_fds s) =
     mset (map fst xs) + mset (map element (filter holding (workers s))) + main_fds (mpc s) (connfd s) +
     mset (closed_fds s)"
  using reach_run(1) [OF assms(2,1)]
  by (auto simp: run_inv_def accounted_def worker_fds_def queue_fds_def contents_def)

text \<open>
  Claim C1. No deadlock: in every reachable state with at least one worker (and a positive limit
  under \<open>block\<close>), whatever the environment does, some thread can take a step or a worker is
  inside \<open>requestHandle\<close>, which holds no mutex.
\<close>

theorem server_never_stuck:
  assumes "init_ok s0" and "reach s0 s" and "workers s0 \<noteq> []"
    and "schedalg s0 = ''block'' \<longrightarrow> 0 < size_limit s0" and "choice_ok ch s"
  shows "(\<exists>t i. step t (ch\<lparr>wakes := i\<rparr>) s \<noteq> None) \<or> (\<exists>w \<in> set (workers s). wpc w = WHandle)"
  using never_stuck [OF assms(2,1,3,4,5)] unfolding can_move_def .

text \<open>
  Claim C7. The scheduling code has no undefined behaviour: with a known policy, arguments in
  the range of \<open>int\<close> and a \<open>malloc\<close> that succeeds, no step of any thread dereferences a bad pointer,
  divides by zero or overflows an int, except possibly inside \<open>requestHandle\<close>.
\<close>

theorem server_no_UB:
  assumes "init_ok s0" and "args_ok s0" and "reach s0 s" and "choice_ok ch s" and "step t ch s = Some (Inl (UB u))"
  shows "\<exists>i. t = Worker i \<and> wpc (workers s ! i) = WHandle"
proof -
  note r = reach_run [OF assms(3,1)]
  obtain xs where xs: "contents s xs" using r(4) by blast
  show ?thesis
  proof (cases t)
    case Main
    then show ?thesis using main_no_UB [OF xs r(1) assms(2,4)] assms(5) by (auto simp: step_def)
  next
    case (Worker i)
    then show ?thesis using worker_no_UB [OF xs r(1) assms(2)] assms(5) by (auto simp: step_def split: if_splits)
  qed
qed

section \<open>Witnesses\<close>

text \<open>The worker goes to sleep on the empty queue, then main queues a connection.\<close>

definition demo_sleep :: "(tid \<times> int choice) list" where
  "demo_sleep = replicate 5 (Worker 0, demo_choice 4 0) @ replicate 6 (Main, demo_choice 4 0)"

definition demo_sleep_state :: "int server" where
  "demo_sleep_state = (case run demo_sleep (demo_server ''dt'' 1) of Some (Inr s) \<Rightarrow> s | _ \<Rightarrow> demo_server [] 0)"

lemma demo_sleep_ok:
  "run_ok demo_sleep (demo_server ''dt'' 1) \<and>
   (case run demo_sleep (demo_server ''dt'' 1) of Some (Inr s) \<Rightarrow> True | _ \<Rightarrow> False)"
  by code_simp

lemma demo_sleep_end:
  "map wpc (workers demo_sleep_state) = [WWait]" "mpc demo_sleep_state = MUnlockE" "qlen demo_sleep_state = 1"
  by code_simp+

lemma demo_sleep_reach: "reach (demo_server ''dt'' 1) demo_sleep_state"
proof -
  obtain s where "run demo_sleep (demo_server ''dt'' 1) = Some (Inr s)"
    using demo_sleep_ok by (auto split: option.splits sum.splits)
  then show ?thesis using run_reach [OF reach_refl] demo_sleep_ok by (simp add: demo_sleep_state_def)
qed

theorem no_lost_wakeup_witness:
  "(\<exists>w \<in> set (workers demo_sleep_state). waiting w) \<and> qlen demo_sleep_state = 1 \<and>
   qlen demo_sleep_state \<le> number heading demo_sleep_state + 1"
proof -
  have "\<exists>w \<in> set (workers demo_sleep_state). waiting w"
    using demo_sleep_end(1) by (cases "workers demo_sleep_state") (auto simp: waiting_def)
  with no_lost_wakeup [OF demo_init demo_sleep_reach this] demo_sleep_end show ?thesis by simp
qed

text \<open>
  Under \<open>block\<close> with a limit of one: the worker has taken the first connection, main sleeps with
  the second, the worker finishes its request and is about to signal.
\<close>

definition demo_full :: "(tid \<times> int choice) list" where
  "demo_full = demo_block @ replicate 7 (Main, demo_choice 5 1)"

definition demo_full_state :: "int server" where
  "demo_full_state = (case run demo_full (demo_server ''block'' 1) of Some (Inr s) \<Rightarrow> s | _ \<Rightarrow> demo_server [] 0)"

definition demo_handled :: "int server" where
  "demo_handled = wgoto 0 WLockD (upd_worker 0 (\<lambda>w. w\<lparr>w_stats := (w_stats w)
     \<lparr>handler_thread_req_count := 1, handler_thread_static_req_count := 1\<rparr>\<rparr>) demo_full_state)"

definition demo_done :: "int server" where
  "demo_done = (case run (replicate 2 (Worker 0, demo_choice 5 1)) demo_handled of Some (Inr s) \<Rightarrow> s | _ \<Rightarrow> demo_server [] 0)"

lemma demo_full_ok:
  "run_ok demo_full (demo_server ''block'' 1) \<and>
   (case run demo_full (demo_server ''block'' 1) of Some (Inr s) \<Rightarrow> True | _ \<Rightarrow> False)"
  by code_simp

lemma demo_full_end:
  "length (workers demo_full_state) = 1" "fresh_block (qs demo_full_state) (Some 1)"
  "workers demo_full_state = [\<lparr>wpc = WHandle, element = 4, w_arrival = Some 7, w_dispatch = Some 0,
     w_stats = \<lparr>handler_thread_id = 0, handler_thread_req_count = 0,
       handler_thread_static_req_count = 0, handler_thread_dynamic_req_count = 0\<rparr>\<rparr>]"
  by code_simp+

lemma demo_full_reach: "reach (demo_server ''block'' 1) demo_full_state"
proof -
  obtain s where "run demo_full (demo_server ''block'' 1) = Some (Inr s)"
    using demo_full_ok by (auto split: option.splits sum.splits)
  then show ?thesis using run_reach [OF reach_refl] demo_full_ok by (simp add: demo_full_state_def)
qed

lemma demo_handle_step:
  "step (Worker 0) ((demo_choice 5 1)\<lparr>req_os := demo_os 33188 3\<rparr>) demo_full_state = Some (Inr demo_handled)"
proof -
  let ?st = "\<lparr>handler_thread_id = 0, handler_thread_req_count = 0, handler_thread_static_req_count = 0,
    handler_thread_dynamic_req_count = 0\<rparr> :: stats_t"
  let ?st' = "?st\<lparr>handler_thread_req_count := 1, handler_thread_static_req_count := 1\<rparr>"
  let ?c = "demo_conn\<lparr>fd := 4\<rparr>"
  have hdr: "length (static_header (demo_os 33188 3) ''./public//a.html'' 3 ?st' 7 0) < MAXBUF"
    by (simp add: static_header_def stat_lines_def demo_os_def requestGetFiletype_def
        show_int_def show_nat.simps MAXBUF_def prefix_def)
  have "\<exists>c' srcp. requestHandle (demo_os 33188 3) [] ?st 7 0 ?c = Some (Inr (?st', c')) \<and>
      sent c' = sent ?c @ static_header (demo_os 33188 3) ''./public//a.html'' 3 ?st' 7 0 @
        mem (demo_os 33188 3) srcp (nat 3)"
    by (rule requestHandle_static_run [OF _ _ demo_line(1,3,4,2) demo_uri _ demo_mode, where rest = "[]"])
      (use demo_stream hdr in \<open>simp_all add: demo_os_def file_calls_ok_def\<close>)
  then show ?thesis using demo_full_end(1,3)
    by (auto simp: step_def worker_step_def handle_step_def demo_handled_def demo_choice_def
        wgoto_def upd_worker_def)
qed

lemma demo_handled_ok:
  "run_ok (replicate 2 (Worker 0, demo_choice 5 1)) demo_handled \<and>
   (case run (replicate 2 (Worker 0, demo_choice 5 1)) demo_handled of Some (Inr s) \<Rightarrow> True | _ \<Rightarrow> False)"
  by code_simp

lemma demo_done_end:
  "mpc demo_done = MOver BWait" "qlen demo_done = 0" "num_of_curr_working demo_done = 0" "size_limit demo_done = 1"
  by code_simp+

lemma demo_done_reach: "reach (demo_server ''block'' 1) demo_done"
proof -
  have "choice_ok ((demo_choice 5 1)\<lparr>req_os := demo_os 33188 3\<rparr>) demo_full_state"
    using demo_full_end(2) by (simp add: choice_ok_def demo_choice_def)
  then have h: "reach (demo_server ''block'' 1) demo_handled"
    using reach_step [OF demo_full_reach _ demo_handle_step] by blast
  obtain s where "run (replicate 2 (Worker 0, demo_choice 5 1)) demo_handled = Some (Inr s)"
    using demo_handled_ok by (auto split: option.splits sum.splits)
  then show ?thesis using run_reach [OF h] demo_handled_ok by (simp add: demo_done_def)
qed

theorem main_is_woken_witness: "\<exists>w \<in> set (workers demo_done). wpc w = WUnlockD \<or> wpc w = WSig"
  by (rule main_is_woken [OF demo_init demo_done_reach]) (simp add: demo_done_end)

theorem connections_accounted_witness:
  "\<exists>xs. qrep (qs demo_block_state) xs \<and> {#4#} = mset (map fst xs) +
     mset (map element (filter holding (workers demo_block_state))) + main_fds MAccept (connfd demo_block_state) + mset []"
  using connections_accounted [OF demo_init demo_block_reach] demo_block_end by simp

theorem server_never_stuck_witness:
  "(\<exists>t i. step t ((demo_choice 6 2)\<lparr>wakes := i\<rparr>) demo_block_state \<noteq> None) \<or>
   (\<exists>w \<in> set (workers demo_block_state). wpc w = WHandle)"
  by (rule server_never_stuck [OF demo_init demo_block_reach]) (simp_all add: demo_server_def demo_block_end(7))

text \<open>A client that closes without sending anything: the handler reads an unset buffer.\<close>

lemma requestHandle_silent_client:
  assumes "inscript c = []" and "handler_thread_req_count st < 2 ^ 31 - 1"
  shows "requestHandle os junk st at di c = Some (Inl (UB Uninit_read))"
proof -
  have "avail (rio_readinitb (fd c) junk) [] = []" "rio_ok (rio_readinitb (fd c) junk)" by simp_all
  from Rio_readlineb_eof [OF _ this(2,1), of "strerr os"] assms show ?thesis
    by (auto simp: requestHandle_def Rio_readinitb_def int_inc_def)
qed

theorem server_no_UB_witness:
  "\<exists>i. Worker 0 = Worker i \<and> wpc (workers demo_full_state ! i) = WHandle"
proof -
  let ?ch = "(demo_choice 5 1)\<lparr>req_conn := demo_conn\<lparr>inscript := []\<rparr>\<rparr>"
  have ok: "choice_ok ?ch demo_full_state" using demo_full_end(2) by (simp add: choice_ok_def demo_choice_def)
  have args: "args_ok (demo_server ''block'' 1)"
    by (simp add: args_ok_def known_policy_def demo_server_def)
  have "step (Worker 0) ?ch demo_full_state = Some (Inl (UB Uninit_read))"
    using demo_full_end(1,3)
    by (simp add: step_def worker_step_def handle_step_def requestHandle_silent_client)
  then show ?thesis by (rule server_no_UB [OF demo_init args demo_full_reach ok])
qed

text \<open>The worker is dequeuing while main is about to test the load.\<close>

definition demo_deq :: "(tid \<times> int choice) list" where
  "demo_deq = (Main, demo_choice 4 0) # replicate 2 (Worker 0, demo_choice 4 0)"

definition demo_deq_state :: "int server" where
  "demo_deq_state = (case run demo_deq (demo_server ''dh'' 1) of Some (Inr s) \<Rightarrow> s | _ \<Rightarrow> demo_server [] 0)"

lemma demo_deq_ok:
  "run_ok demo_deq (demo_server ''dh'' 1) \<and>
   (case run demo_deq (demo_server ''dh'' 1) of Some (Inr s) \<Rightarrow> True | _ \<Rightarrow> False)"
  by code_simp

lemma demo_deq_end: "length (workers demo_deq_state) = 1" "wpc (workers demo_deq_state ! 0) = WDeq" "mpc demo_deq_state = MLock2"
  by code_simp+

lemma demo_deq_reach: "reach (demo_server ''dh'' 1) demo_deq_state"
proof -
  obtain s where "run demo_deq (demo_server ''dh'' 1) = Some (Inr s)"
    using demo_deq_ok by (auto split: option.splits sum.splits)
  then show ?thesis using run_reach [OF reach_refl] demo_deq_ok by (simp add: demo_deq_state_def)
qed

theorem server_race_free_witness:
  "wpc (workers demo_deq_state ! 0) = WDeq \<and> mpc demo_deq_state = MLock2 \<and> \<not> main_touches (mpc demo_deq_state)"
  using server_race_free [OF demo_init demo_deq_reach, of 0] demo_deq_end by simp

end
