(* ===== verification/Client.thy ===== *)
theory Client
  imports Request
begin

text \<open>
  The HTTP client (hw3/wet/client.c) and the CGI program the server runs in its tests
  (hw3/wet/output.c), over the same connections as the request handler.
\<close>

section \<open>Sending the request\<close>

definition request_text :: "string \<Rightarrow> string \<Rightarrow> string" where
  "request_text filename hostname =
     ''GET '' @ filename @ '' HTTP/1.1'' @ [LF] @ ''host: '' @ hostname @ [LF] @ CRLF"

definition clientSend ::
    "'d os \<Rightarrow> (nat \<Rightarrow> int \<times> string \<times> string) \<Rightarrow> string \<Rightarrow> conn \<Rightarrow> conn res" where
  "clientSend os gethostname filename c =
     rbind (Gethostname gethostname MAXLINE) (\<lambda>(rc, hostname).
     rbind (put MAXLINE (''GET '' @ filename @ '' HTTP/1.1'' @ [LF])) (\<lambda>buf.
     rbind (put MAXLINE (buf @ ''host: '' @ hostname @ [LF] @ CRLF)) (\<lambda>buf. send os buf c)))"

section \<open>Printing the response\<close>

text \<open>
  \<open>sscanf (buf, "Content-Length: %d ", &length) == 1\<close>: the literal, white space, an optional
  sign and at least one digit; glibc reads the number with \<open>strtol\<close> and cuts it to an int.
\<close>

definition scan_length :: "string \<Rightarrow> int option" where
  "scan_length buf =
     (if prefix ''Content-Length:'' buf then
        (let s = dropWhile isspace (drop 15 buf);
             d = (case s of [] \<Rightarrow> [] | c # r \<Rightarrow> if c = CHR ''-'' \<or> c = CHR ''+'' then r else s) in
         if takeWhile isdigit d = [] then None else Some (atoi s))
      else None)"

text \<open>
  The two loops of \<open>clientPrint\<close>. \<open>buf\<close> keeps its contents when a read finds the end of the
  stream; \<open>n\<close> is what the last read returned.
\<close>

partial_function (option) print_header ::
    "string \<Rightarrow> string \<Rightarrow> int \<Rightarrow> rio_t \<Rightarrow> read_ev list \<Rightarrow> string \<Rightarrow> (rio_t \<times> read_ev list \<times> string) comp" where
  "print_header err buf n rp evs out =
     (if cstr buf \<noteq> CRLF \<and> 0 < n then
        (case Rio_readlineb err rp MAXBUF evs of
           Inl e \<Rightarrow> Some (Inl e)
         | Inr (n', l, rp', evs') \<Rightarrow>
             let buf' = (case l of None \<Rightarrow> buf | Some l' \<Rightarrow> l');
                 len = (case scan_length (cstr buf') of None \<Rightarrow> [] | Some k \<Rightarrow> ''Length = '' @ show_int k @ [LF]) in
             print_header err buf' n' rp' evs' (out @ ''Header: '' @ cstr buf @ len))
      else Some (Inr (rp, evs, out)))"

partial_function (option) print_body ::
    "string \<Rightarrow> rio_t \<Rightarrow> read_ev list \<Rightarrow> string \<Rightarrow> (rio_t \<times> read_ev list \<times> string) comp" where
  "print_body err rp evs out =
     (case Rio_readlineb err rp MAXBUF evs of
        Inl e \<Rightarrow> Some (Inl e)
      | Inr (n, l, rp', evs') \<Rightarrow>
          if 0 < n then print_body err rp' evs' (out @ (case l of None \<Rightarrow> [] | Some l' \<Rightarrow> cstr l'))
          else Some (Inr (rp', evs', out)))"

definition clientPrint :: "'d os \<Rightarrow> string \<Rightarrow> conn \<Rightarrow> conn comp" where
  "clientPrint os junk c =
     (case Rio_readlineb (strerr os) (Rio_readinitb (fd c) junk) MAXBUF (inscript c) of
        Inl e \<Rightarrow> Some (Inl e)
      | Inr (n, None, rp, evs) \<Rightarrow> Some (Inl (UB Uninit_read))
      | Inr (n, Some buf, rp, evs) \<Rightarrow>
          cbind (print_header (strerr os) buf n rp evs (printed c)) (\<lambda>(rp, evs, out).
          cbind (print_body (strerr os) rp evs out) (\<lambda>(rp, evs, out).
          Some (Inr (c\<lparr>inscript := evs, printed := out\<rparr>)))))"

text \<open>\<open>main\<close>: \<open>Inr c\<close> is \<open>exit (0)\<close> after the response was printed.\<close>

definition client_main ::
    "sockets \<Rightarrow> 'd os \<Rightarrow> (nat \<Rightarrow> int \<times> string \<times> string) \<Rightarrow> string \<Rightarrow> conn \<Rightarrow> string list \<Rightarrow> conn comp" where
  "client_main so os gethostname junk c argv =
     (if length argv \<noteq> 4 then
        Some (Inl (Exit 1 (''Usage: '' @ (case argv of [] \<Rightarrow> ''(null)'' | a # _ \<Rightarrow> a) @ '' <host> <port> <filename>'' @ [LF])))
      else
        cbind (Some (Open_clientfd so (argv ! 1) (atoi (argv ! 2)))) (\<lambda>clientfd.
        cbind (Some (clientSend os gethostname (argv ! 3) (c\<lparr>fd := clientfd\<rparr>))) (\<lambda>c1.
        cbind (clientPrint os junk c1) (\<lambda>c2.
        cbind (Some (Close (close_call os) clientfd)) (\<lambda>_. Some (Inr c2))))))"

section \<open>The CGI program\<close>

text \<open>The first token of \<open>strtok (buf, "&")\<close>.\<close>

definition strtok_amp :: "string \<Rightarrow> string option" where
  "strtok_amp buf = (let t = takeWhile (\<lambda>c. c \<noteq> CHR ''&'') (dropWhile (\<lambda>c. c = CHR ''&'') buf) in
     if t = [] then None else Some t)"

definition output_getargs :: "(string \<Rightarrow> 'd) \<Rightarrow> string option \<Rightarrow> 'd \<Rightarrow> 'd" where
  "output_getargs atof query_string spinfor =
     (case query_string of None \<Rightarrow> spinfor
      | Some buf \<Rightarrow> (case strtok_amp buf of None \<Rightarrow> spinfor | Some p \<Rightarrow> atof p))"

definition cgi_content :: "('d \<Rightarrow> string) \<Rightarrow> 'd \<Rightarrow> string" where
  "cgi_content fmt2 spun =
     ''<p>Welcome to the CGI program</p>'' @ CRLF @
     ''<p>My only purpose is to waste time on the server!</p>'' @ CRLF @
     ''<p>I spun for '' @ fmt2 spun @ '' seconds</p>'' @ CRLF"

text \<open>
  \<open>main\<close>: \<open>fmt2\<close> is the conversion \<open>%.2f\<close>, \<open>sleep t1 spinfor\<close> the clock after \<open>usleep\<close>; the
  result is what the program prints.
\<close>

definition output_main ::
    "(string \<Rightarrow> 'd::minus) \<Rightarrow> ('d \<Rightarrow> string) \<Rightarrow> ('d \<Rightarrow> 'd \<Rightarrow> 'd) \<Rightarrow> string option \<Rightarrow> 'd \<Rightarrow> 'd \<Rightarrow> string res" where
  "output_main atof fmt2 sleep query_string spinfor t1 =
     (let t2 = sleep t1 (output_getargs atof query_string spinfor) in
      rbind (put MAXBUF (cgi_content fmt2 (t2 - t1))) (\<lambda>content.
      Inr (''Content-length: '' @ show_nat (length content) @ CRLF @
           ''Content-type: text/html'' @ CRLF @ CRLF @ content)))"

section \<open>The request line the server sees\<close>

definition url_ok :: "string \<Rightarrow> bool" where
  "url_ok f \<longleftrightarrow> f \<noteq> [] \<and> (\<forall>c \<in> set f. \<not> isspace c \<and> c \<noteq> CHR 0x00)"

definition host_ok :: "string \<Rightarrow> bool" where
  "host_ok h \<longleftrightarrow> LF \<notin> set h"

lemma clientSend_Inr:
  assumes "clientSend os gethostname filename c = Inr c'"
  shows "\<exists>rc hostname. Gethostname gethostname MAXLINE = Inr (rc, hostname) \<and>
     sent c' = sent c @ request_text filename hostname \<and> length (request_text filename hostname) < MAXLINE"
proof -
  obtain rc h where h: "Gethostname gethostname MAXLINE = Inr (rc, h)"
      "send os (request_text filename h) c = Inr c'" "length (request_text filename h) < MAXLINE"
    using assms by (auto simp: clientSend_def rbind_Inr_iff put_Inr_iff request_text_def)
  then show ?thesis using send_Inr by blast
qed

lemma scan_word_token:
  assumes "url_ok w"
  shows "scan_word (w @ CHR '' '' # r) = Some (w, CHR '' '' # r)"
proof -
  obtain c cs where w: "w = c # cs" "\<not> isspace c" "\<forall>x \<in> set cs. \<not> isspace x"
    using assms by (cases w) (auto simp: url_ok_def)
  have sp: "isspace CHR '' ''" by (simp add: isspace_def)
  have "takeWhile (\<lambda>c. \<not> isspace c) (w @ CHR '' '' # r) = w" using w sp by (simp add: takeWhile_append2)
  then show ?thesis using w sp by (simp add: scan_word_def Let_def)
qed

lemma request_line_ok:
  assumes "url_ok f" and "length (request_text f h) < MAXLINE"
  shows "hdr_line (''GET '' @ f @ '' HTTP/1.1'' @ [LF])"
    and "parse_request_line (''GET '' @ f @ '' HTTP/1.1'' @ [LF]) = Inr (''GET'', f, ''HTTP/1.1'')"
proof -
  let ?l = "''GET '' @ f @ '' HTTP/1.1'' @ [LF]"
  have nl: "LF \<notin> set f" "CHR 0x00 \<notin> set f" using assms(1) by (auto simp: url_ok_def isspace_def)
  have but: "butlast ?l = ''GET '' @ f @ '' HTTP/1.1''" by (simp add: butlast_append)
  show "hdr_line ?l" unfolding hdr_line_def but using assms(2) nl by (simp add: request_text_def)
  have "cstr ?l = ?l" using nl(2) by (auto simp: cstr_def takeWhile_eq_all_conv)
  moreover have "scan_word ?l = Some (''GET'', CHR '' '' # f @ '' HTTP/1.1'' @ [LF])"
    by (simp add: scan_word_def isspace_def)
  moreover have "scan_word (CHR '' '' # f @ '' HTTP/1.1'' @ [LF]) = Some (f, '' HTTP/1.1'' @ [LF])"
    using scan_word_token [OF assms(1), of "''HTTP/1.1'' @ [LF]"] by (simp add: scan_word_def isspace_def)
  moreover have "scan_word ('' HTTP/1.1'' @ [LF]) = Some (''HTTP/1.1'', [LF])"
    by (simp add: scan_word_def isspace_def)
  ultimately show "parse_request_line ?l = Inr (''GET'', f, ''HTTP/1.1'')"
    unfolding parse_request_line_def by simp
qed

lemma host_line_ok:
  assumes "host_ok h" and "length (request_text f h) < MAXLINE"
  shows "hdr_line (''host: '' @ h @ [LF])" and "cstr (''host: '' @ h @ [LF]) \<noteq> CRLF"
  using assms by (auto simp: hdr_line_def request_text_def host_ok_def butlast_append cstr_def)

section \<open>What the client prints\<close>

definition length_text :: "string \<Rightarrow> string" where
  "length_text l = (case scan_length (cstr l) of None \<Rightarrow> [] | Some k \<Rightarrow> ''Length = '' @ show_int k @ [LF])"

fun header_text :: "string list \<Rightarrow> string" where
  "header_text [] = []"
| "header_text [h] = ''Header: '' @ cstr h"
| "header_text (h # h' # hs) = ''Header: '' @ cstr h @ length_text h' @ header_text (h' # hs)"

lemma MAXBUF_MAXLINE: "MAXBUF = MAXLINE"
  by (simp add: MAXBUF_def MAXLINE_def)

lemma length_text_CRLF [simp]: "length_text CRLF = []"
  by (simp add: length_text_def scan_length_def cstr_def)

lemma print_header_step:
  assumes "cstr buf \<noteq> CRLF" and "0 < n" and "Rio_readlineb err rp MAXBUF evs = Inr (n', Some l, rp', evs')"
  shows "print_header err buf n rp evs out =
    print_header err l n' rp' evs' (out @ ''Header: '' @ cstr buf @ length_text l)"
  using assms by (subst print_header.simps) (simp add: length_text_def)

lemma print_header_stop:
  "cstr buf = CRLF \<or> n \<le> 0 \<Longrightarrow> print_header err buf n rp evs out = Some (Inr (rp, evs, out))"
  by (subst print_header.simps) auto

lemma print_header_lines:
  assumes "steady evs" and "rio_ok rp" and "avail rp evs = concat hs @ CRLF @ rest"
    and "\<forall>h \<in> set hs. hdr_line h \<and> cstr h \<noteq> CRLF" and "cstr buf \<noteq> CRLF" and "0 < n"
  shows "\<exists>rp' evs'. print_header err buf n rp evs out = Some (Inr (rp', evs', out @ header_text (buf # hs))) \<and>
     steady evs' \<and> rio_ok rp' \<and> avail rp' evs' = rest"
  using assms
proof (induction hs arbitrary: buf n rp evs out)
  case Nil
  have crlf: "hdr_line CRLF" by (simp add: hdr_line_def MAXLINE_def)
  from Rio_readlineb_line [OF Nil.prems(1,2) _ this, of rest err] Nil.prems(3) obtain rp' evs' where
    r: "Rio_readlineb err rp MAXBUF evs = Inr (int (length CRLF), Some CRLF, rp', evs')"
      "steady evs'" "rio_ok rp'" "avail rp' evs' = rest" by (auto simp: MAXBUF_MAXLINE)
  show ?case using print_header_step [OF Nil.prems(5,6) r(1)] print_header_stop [of CRLF] r(2-) by simp
next
  case (Cons h hs)
  have "avail rp evs = h @ concat hs @ CRLF @ rest" "hdr_line h" using Cons.prems(3,4) by simp_all
  from Rio_readlineb_line [OF Cons.prems(1,2) this, of err] obtain rp' evs' where
    r: "Rio_readlineb err rp MAXBUF evs = Inr (int (length h), Some h, rp', evs')"
      "steady evs'" "rio_ok rp'" "avail rp' evs' = concat hs @ CRLF @ rest" by (auto simp: MAXBUF_MAXLINE)
  have h: "cstr h \<noteq> CRLF" "0 < int (length h)" "\<forall>h \<in> set hs. hdr_line h \<and> cstr h \<noteq> CRLF"
    using Cons.prems(4) by (auto simp: hdr_line_def)
  show ?case using print_header_step [OF Cons.prems(5,6) r(1)] Cons.IH [OF r(2,3,4) h(3,1,2), of "out @ ''Header: '' @ cstr buf @ length_text h"]
    by simp
qed

lemma readlineb_progress:
  assumes "steady evs" and "rio_ok rp" and "avail rp evs \<noteq> []"
  shows "\<exists>n l rp' evs'. Rio_readlineb err rp MAXBUF evs = Inr (n, Some l, rp', evs') \<and> 0 < n \<and> l \<noteq> [] \<and>
     steady evs' \<and> rio_ok rp' \<and> avail rp evs = l @ avail rp' evs'"
proof -
  have m: "1 < MAXBUF" by (simp add: MAXBUF_def)
  let ?l = "first_line (MAXBUF - 1) (avail rp evs)"
  have ne: "?l \<noteq> []" using assms(3) m by (cases "(MAXBUF - 1, avail rp evs)" rule: first_line.cases) auto
  from rio_readlineb_stream [OF assms(1,2) m] obtain rp' evs' where
    "steady evs'" "rio_ok rp'" "avail rp evs = ?l @ avail rp' evs'"
    "rio_readlineb rp MAXBUF evs = (int (length ?l) + (if last ?l = LF then 0 else 1), Some ?l, rp', evs')"
    using assms(3) by (auto simp: Let_def)
  then show ?thesis using ne by (auto simp: Rio_readlineb_def)
qed

lemma print_body_stream:
  assumes "steady evs" and "rio_ok rp" and "CHR 0x00 \<notin> set (avail rp evs)"
  shows "\<exists>rp' evs'. print_body err rp evs out = Some (Inr (rp', evs', out @ avail rp evs)) \<and> steady evs'"
  using assms
proof (induction "length (avail rp evs)" arbitrary: rp evs out rule: less_induct)
  case less
  show ?case
  proof (cases "avail rp evs = []")
    case True
    from Rio_readlineb_eof [OF less.prems(1,2) True, of err] obtain rp' evs' where
      "Rio_readlineb err rp MAXBUF evs = Inr (0, None, rp', evs')" "steady evs'" by (auto simp: MAXBUF_MAXLINE)
    then show ?thesis using True by (subst print_body.simps) auto
  next
    case False
    from readlineb_progress [OF less.prems(1,2) False, of err] obtain n l rp' evs' where
      r: "Rio_readlineb err rp MAXBUF evs = Inr (n, Some l, rp', evs')" "0 < n" "l \<noteq> []"
        "steady evs'" "rio_ok rp'" "avail rp evs = l @ avail rp' evs'" by blast
    have "cstr l = l" "CHR 0x00 \<notin> set (avail rp' evs')" "length (avail rp' evs') < length (avail rp evs)"
      using less.prems(3) r(3,6) by (auto simp: cstr_def takeWhile_eq_all_conv)
    with less.hyps [OF this(3) r(4,5) this(2), of "out @ l"] r(1,2,6) show ?thesis
      by (subst print_body.simps) auto
  qed
qed

text \<open>
  Whatever the chunks the response arrives in, \<open>clientPrint\<close> prints every header line
  behind the word Header, the announced length after the line before it, and then exactly the
  bytes of the body, and returns at the end of the stream.
\<close>

theorem clientPrint_prints:
  assumes "steady (inscript c)" and "bytes_of (inscript c) = concat hs @ CRLF @ body"
    and "\<forall>h \<in> set hs. hdr_line h \<and> cstr h \<noteq> CRLF" and "CHR 0x00 \<notin> set body"
  shows "\<exists>c'. clientPrint os junk c = Some (Inr c') \<and> printed c' = printed c @ header_text hs @ body"
proof -
  let ?rp = "rio_readinitb (fd c) junk"
  have ok: "rio_ok ?rp" "avail ?rp (inscript c) = concat hs @ CRLF @ body" using assms(2) by simp_all
  have "\<exists>rp evs. cbind (Some (Rio_readlineb (strerr os) ?rp MAXBUF (inscript c))) (\<lambda>(n, l, rp, evs).
        print_header (strerr os) (the l) n rp evs (printed c)) = Some (Inr (rp, evs, printed c @ header_text hs)) \<and>
      (\<exists>n l rp1 evs1. Rio_readlineb (strerr os) ?rp MAXBUF (inscript c) = Inr (n, Some l, rp1, evs1)) \<and>
      steady evs \<and> rio_ok rp \<and> avail rp evs = body"
  proof (cases hs)
    case Nil
    have "hdr_line CRLF" by (simp add: hdr_line_def MAXLINE_def)
    from Rio_readlineb_line [OF assms(1) ok(1) _ this, of body "strerr os"] ok(2) Nil obtain rp evs where
      "Rio_readlineb (strerr os) ?rp MAXBUF (inscript c) = Inr (int (length CRLF), Some CRLF, rp, evs)"
      "steady evs" "rio_ok rp" "avail rp evs = body" by (auto simp: MAXBUF_MAXLINE)
    then show ?thesis using Nil print_header_stop [of CRLF] by simp
  next
    case (Cons h ts)
    have h: "hdr_line h" "cstr h \<noteq> CRLF" "0 < int (length h)" "\<forall>h \<in> set ts. hdr_line h \<and> cstr h \<noteq> CRLF"
      using assms(3) Cons by (auto simp: hdr_line_def)
    from Rio_readlineb_line [OF assms(1) ok(1) _ h(1), of "concat ts @ CRLF @ body" "strerr os"] ok(2) Cons
    obtain rp evs where r: "Rio_readlineb (strerr os) ?rp MAXBUF (inscript c) = Inr (int (length h), Some h, rp, evs)"
      "steady evs" "rio_ok rp" "avail rp evs = concat ts @ CRLF @ body" by (auto simp: MAXBUF_MAXLINE)
    show ?thesis using print_header_lines [OF r(2,3,4) h(4,2,3), of "strerr os" "printed c"] r(1) Cons by auto
  qed
  then obtain n l rp1 evs1 rp evs where
    r: "Rio_readlineb (strerr os) ?rp MAXBUF (inscript c) = Inr (n, Some l, rp1, evs1)"
      "print_header (strerr os) l n rp1 evs1 (printed c) = Some (Inr (rp, evs, printed c @ header_text hs))"
      "steady evs" "rio_ok rp" "avail rp evs = body" by auto
  obtain rp' evs' where "print_body (strerr os) rp evs (printed c @ header_text hs) =
      Some (Inr (rp', evs', (printed c @ header_text hs) @ body))"
    using print_body_stream [OF r(3,4)] r(5) assms(4) by metis
  then show ?thesis using r(1,2) by (simp add: clientPrint_def Rio_readinitb_def)
qed

theorem clientPrint_prints_witness:
  "\<exists>c'. clientPrint (demo_os 0 0) [] (demo_conn\<lparr>inscript := [Data (''HTTP/1.0 200 OK'' @ CRLF @ ''Conte''),
       Data (''nt-Length: 2'' @ CRLF), Read_err EINTR, Data (CRLF @ ''hi'')]\<rparr>) = Some (Inr c') \<and>
     printed c' = printed demo_conn @ header_text [''HTTP/1.0 200 OK'' @ CRLF, ''Content-Length: 2'' @ CRLF] @ ''hi''"
  using clientPrint_prints [of "demo_conn\<lparr>inscript := [Data (''HTTP/1.0 200 OK'' @ CRLF @ ''Conte''),
       Data (''nt-Length: 2'' @ CRLF), Read_err EINTR, Data (CRLF @ ''hi'')]\<rparr>"
       "[''HTTP/1.0 200 OK'' @ CRLF, ''Content-Length: 2'' @ CRLF]" "''hi''" "demo_os 0 0" "[]"]
  by (simp add: hdr_line_def MAXLINE_def cstr_def)

lemma takeWhile_digits_stop: "takeWhile isdigit (show_nat n @ CRLF) = show_nat n"
proof -
  have "\<forall>x \<in> set (show_nat n). isdigit x" using show_nat_digits [of n] digit_char_props(1) by auto
  moreover have "\<not> isdigit CR" by (simp add: isdigit_def)
  ultimately show ?thesis by (simp add: takeWhile_append2)
qed

lemma atoi_show_nat_CRLF:
  assumes "int n < 2 ^ 31"
  shows "atoi (show_nat n @ CRLF) = int n"
proof -
  obtain d r where dr: "show_nat n = digit_char d # r" and d: "d < 10" by (rule show_nat_Cons)
  have "strtol (show_nat n @ CRLF) = strtol_clamp (int (digits_val (takeWhile isdigit (show_nat n @ CRLF))))"
    unfolding strtol_def using digit_char_props [OF d] dr by (simp add: Let_def)
  then show ?thesis using assms
    by (simp add: takeWhile_digits_stop digits_val_show_nat atoi_def strtol_clamp_def)
qed

lemma scan_length_header:
  assumes "int n < 2 ^ 31"
  shows "scan_length (''Content-Length: '' @ show_nat n @ CRLF) = Some (int n)"
proof -
  obtain d r where dr: "show_nat n = digit_char d # r" and d: "d < 10" by (rule show_nat_Cons)
  note p = digit_char_props [OF d]
  have s: "dropWhile isspace (CHR '' '' # show_nat n @ CRLF) = show_nat n @ CRLF"
    using p dr by (simp add: isspace_def)
  show ?thesis using s dr p takeWhile_digits_stop [of n] atoi_show_nat_CRLF [OF assms]
    by (simp add: scan_length_def Let_def prefix_def)
qed

text \<open>
  The client reads back the length the server announces: the \<open>Content-Length\<close> line of
  an error page of less than two gigabytes makes the client print exactly the length of the
  page's body.
\<close>

theorem error_length_roundtrip:
  assumes "int (length (error_body cause errnum shortmsg longmsg)) < 2 ^ 31"
  shows "length_text (error_headers os errnum shortmsg (length (error_body cause errnum shortmsg longmsg)) st at di ! 2) =
     ''Length = '' @ show_int (int (length (error_body cause errnum shortmsg longmsg))) @ [LF]"
proof -
  let ?n = "length (error_body cause errnum shortmsg longmsg)"
  let ?l = "''Content-Length: '' @ show_nat ?n @ CRLF"
  have "CHR 0x00 \<notin> set (show_nat ?n)" using show_nat_digits [of ?n]
    by (auto simp: digit_char_def dest!: digit_cases)
  then have "cstr ?l = ?l" by (auto simp: cstr_def takeWhile_eq_all_conv)
  then show ?thesis using scan_length_header [OF assms] by (simp add: error_headers_def length_text_def)
qed

theorem error_length_roundtrip_witness:
  "length_text (error_headers (demo_os 0 0) ''404'' ''Not found''
      (length (error_body ''x'' ''404'' ''Not found'' ''m'')) demo_stats 8 1 ! 2) =
   ''Length = '' @ show_int (int (length (error_body ''x'' ''404'' ''Not found'' ''m''))) @ [LF]"
  by (rule error_length_roundtrip) (simp add: error_body_def)

text \<open>
  The CGI program's own length line is not recognised by the client: it is spelt
  \<open>Content-length\<close>, and the client looks for \<open>Content-Length\<close>.
\<close>

theorem cgi_length_ignored:
  "length_text (''Content-length: '' @ show_nat n @ CRLF) = []"
proof -
  have "cstr (''Content-length: '' @ show_nat n @ CRLF) = ''Content-l'' @ cstr (''ength: '' @ show_nat n @ CRLF)"
    by (simp add: cstr_def)
  then show ?thesis by (simp add: length_text_def scan_length_def prefix_def)
qed

section \<open>Client and server together\<close>


definition demo_cc :: conn where
  "demo_cc = \<lparr>fd = 4, inscript = [], outscript = [], sent = [], printed = []\<rparr>"

definition demo_host :: "nat \<Rightarrow> int \<times> string \<times> string" where
  "demo_host _ = (0, ''h'', [])"

lemma demo_sent:
  "\<exists>cc'. clientSend (demo_os 0 0) demo_host ''/a.html'' demo_cc = Inr cc' \<and> sent cc' = request_text ''/a.html'' ''h''"
proof -
  have "\<exists>c'. send (demo_os 0 0) s demo_cc = Inr c' \<and> healthy (outscript c')" for s
    by (rule send_healthy) (simp add: demo_cc_def)
  then obtain c' where "send (demo_os 0 0) (request_text ''/a.html'' ''h'') demo_cc = Inr c'" by blast
  moreover from send_Inr [OF this] have "sent c' = request_text ''/a.html'' ''h''" by (simp add: demo_cc_def)
  ultimately show ?thesis
    by (simp add: clientSend_def Gethostname_def demo_host_def put_def MAXLINE_def request_text_def)
qed


end
