(* ===== verification/Allocator.thy ===== *)
theory Allocator
  imports Prelude
begin

text \<open>
  The contract of an allocator, as its clients use it: a request returns NULL or the address of
  a region at least as large as asked for, which overlaps no region handed out before and not
  freed since, and what the client has stored in a region stays there. The allocator of malloc_2 is
  an instance; that of malloc_3 is one for releases that meet a condition.
\<close>

section \<open>What the allocators share\<close>

definition MAX_SIZE_TO_ALLOCATE :: nat where "MAX_SIZE_TO_ALLOCATE = 100000000"

text \<open>\<open>memmove\<close> and \<open>memset\<close> to zero.\<close>

definition copy_bytes :: "nat \<Rightarrow> nat \<Rightarrow> nat \<Rightarrow> (nat \<Rightarrow> char) \<Rightarrow> nat \<Rightarrow> char" where
  "copy_bytes dest src n mem x = (if dest \<le> x \<and> x < dest + n then mem (src + (x - dest)) else mem x)"

definition fill_bytes :: "nat \<Rightarrow> nat \<Rightarrow> (nat \<Rightarrow> char) \<Rightarrow> nat \<Rightarrow> char" where
  "fill_bytes dest n mem x = (if dest \<le> x \<and> x < dest + n then CHR 0x00 else mem x)"

text \<open>The loops over a list of blocks; \<open>link\<close> is the next pointer of the metadata.\<close>

partial_function (option) walk_list ::
    "('m \<Rightarrow> nat option) \<Rightarrow> (nat \<rightharpoonup> 'm) \<Rightarrow> (nat \<Rightarrow> 'm \<Rightarrow> 'a \<Rightarrow> 'a) \<Rightarrow> nat option \<Rightarrow> 'a \<Rightarrow> 'a comp" where
  "walk_list link h f curr_ptr acc =
     (case curr_ptr of None \<Rightarrow> Some (Inr acc)
      | Some a \<Rightarrow> (case h a of None \<Rightarrow> Some (Inl (UB Bad_deref))
                   | Some m \<Rightarrow> walk_list link h f (link m) (f a m acc)))"

lemma fold_count: "fold (\<lambda>b k. if P b then k + 1 else k) bs (n::nat) = n + length (filter P bs)"
  by (induction bs arbitrary: n) auto

lemma fold_sum: "fold (\<lambda>b k. if P b then k + f b else k) bs (n::nat) = n + sum_list (map f (filter P bs))"
  by (induction bs arbitrary: n) auto

definition bytes_kept :: "(nat \<rightharpoonup> nat) \<Rightarrow> (nat \<Rightarrow> char) \<Rightarrow> (nat \<Rightarrow> char) \<Rightarrow> bool" where
  "bytes_kept l b b' \<longleftrightarrow> (\<forall>p c i. l p = Some c \<longrightarrow> i < c \<longrightarrow> b' (p + i) = b (p + i))"

lemma bytes_kept_copy:
  assumes "\<And>p c. l p = Some c \<Longrightarrow> q + n \<le> p \<or> p + c \<le> q"
  shows "bytes_kept l b (copy_bytes q src n b)"
  using assms by (fastforce simp: bytes_kept_def copy_bytes_def)

lemma bytes_kept_fill:
  assumes "\<And>p c. l p = Some c \<Longrightarrow> q + n \<le> p \<or> p + c \<le> q"
  shows "bytes_kept l b (fill_bytes q n b)"
  using assms by (fastforce simp: bytes_kept_def fill_bytes_def)

section \<open>Scripts of calls\<close>

text \<open>
  \<open>'e\<close> stands for what the operating system answers to a request for more memory. A request
  answers with an address or NULL, a release with nothing.
\<close>

datatype 'e aop = Alloc 'e nat | Release nat

type_synonym ('s, 'e) alloc_op = "'e \<Rightarrow> nat \<Rightarrow> 's \<Rightarrow> (nat option \<times> 's) comp"
type_synonym 's free_op = "nat \<Rightarrow> 's \<Rightarrow> 's comp"

fun astep :: "('s, 'e) alloc_op \<Rightarrow> 's free_op \<Rightarrow> 'e aop \<Rightarrow> 's \<Rightarrow> (nat option \<times> 's) comp" where
  "astep alloc free (Alloc e n) s = alloc e n s"
| "astep alloc free (Release p) s = cbind (free p s) (\<lambda>s'. Some (Inr (None, s')))"

fun arun :: "('s, 'e) alloc_op \<Rightarrow> 's free_op \<Rightarrow> 'e aop list \<Rightarrow> 's \<Rightarrow> (nat option list \<times> 's) comp" where
  "arun alloc free [] s = Some (Inr ([], s))"
| "arun alloc free (op # ops) s =
     cbind (astep alloc free op s) (\<lambda>(r, s1). cbind (arun alloc free ops s1) (\<lambda>(rs, s2). Some (Inr (r # rs, s2))))"

text \<open>
  What the client and the system owe: only live addresses are freed, when the allocator allows it
  (\<open>may\<close>), and the system keeps its contract.
\<close>

type_synonym 's may_free = "'s \<Rightarrow> nat \<Rightarrow> bool"

fun aop_ok :: "('s \<Rightarrow> 'e \<Rightarrow> nat \<Rightarrow> bool) \<Rightarrow> ('s \<Rightarrow> nat \<rightharpoonup> nat) \<Rightarrow> 's may_free \<Rightarrow> 'e aop \<Rightarrow> 's \<Rightarrow> bool" where
  "aop_ok env live may (Alloc e n) s = env s e n"
| "aop_ok env live may (Release p) s \<longleftrightarrow> live s p \<noteq> None \<and> may s p"

fun atrace_ok ::
    "('s \<Rightarrow> 'e \<Rightarrow> nat \<Rightarrow> bool) \<Rightarrow> ('s \<Rightarrow> nat \<rightharpoonup> nat) \<Rightarrow> 's may_free \<Rightarrow> ('s, 'e) alloc_op \<Rightarrow> 's free_op \<Rightarrow> 'e aop list \<Rightarrow> 's \<Rightarrow> bool" where
  "atrace_ok env live may alloc free [] s = True"
| "atrace_ok env live may alloc free (op # ops) s \<longleftrightarrow> aop_ok env live may op s \<and>
     (case astep alloc free op s of Some (Inr (r, s')) \<Rightarrow> atrace_ok env live may alloc free ops s' | _ \<Rightarrow> True)"

lemma arun_append:
  "arun alloc free (xs @ ys) s = cbind (arun alloc free xs s) (\<lambda>(rs, s1). cbind (arun alloc free ys s1) (\<lambda>(rs', s2). Some (Inr (rs @ rs', s2))))"
proof (induction xs arbitrary: s)
  case (Cons x xs)
  show ?case
  proof (cases "astep alloc free x s")
    case (Some r)
    then show ?thesis using Cons.IH by (cases r) (auto simp: cbind_assoc case_prod_unfold)
  qed simp
qed (simp add: case_prod_unfold)

lemma atrace_ok_append:
  "atrace_ok env live may alloc free xs s \<Longrightarrow>
     (\<And>rs s1. arun alloc free xs s = Some (Inr (rs, s1)) \<Longrightarrow> atrace_ok env live may alloc free ys s1) \<Longrightarrow>
   atrace_ok env live may alloc free (xs @ ys) s"
proof (induction xs arbitrary: s)
  case (Cons x xs)
  then show ?case by (auto split: option.splits sum.splits)
qed simp

text \<open>The condition on a script of requests alone.\<close>

fun requests_ok :: "('s \<Rightarrow> 'e \<Rightarrow> nat \<Rightarrow> bool) \<Rightarrow> ('s, 'e) alloc_op \<Rightarrow> ('e \<times> nat) list \<Rightarrow> 's \<Rightarrow> bool" where
  "requests_ok env alloc [] s = True"
| "requests_ok env alloc ((e, n) # rs) s \<longleftrightarrow> env s e n \<and>
     (case alloc e n s of Some (Inr (r, s')) \<Rightarrow> requests_ok env alloc rs s' | _ \<Rightarrow> True)"

section \<open>Specification\<close>

text \<open>
  The regions in use, by address and size. A request takes a region that overlaps none of them
  and is large enough, or nothing; a release gives one back.
\<close>

definition regions_apart :: "(nat \<rightharpoonup> nat) \<Rightarrow> bool" where
  "regions_apart l \<longleftrightarrow> (\<forall>p q c d. l p = Some c \<longrightarrow> l q = Some d \<longrightarrow> p \<noteq> q \<longrightarrow> p + c \<le> q \<or> q + d \<le> p)"

fun sstep :: "'e aop \<Rightarrow> nat option \<Rightarrow> (nat \<rightharpoonup> nat) \<Rightarrow> (nat \<rightharpoonup> nat) \<Rightarrow> bool" where
  "sstep (Alloc e n) r l l' \<longleftrightarrow> (case r of None \<Rightarrow> l' = l
     | Some p \<Rightarrow> l p = None \<and> (\<exists>c \<ge> n. l' = l(p \<mapsto> c) \<and> regions_apart l'))"
| "sstep (Release p) r l l' \<longleftrightarrow> r = None \<and> l p \<noteq> None \<and> l' = l(p := None)"

fun srun :: "'e aop list \<Rightarrow> nat option list \<Rightarrow> (nat \<rightharpoonup> nat) \<Rightarrow> (nat \<rightharpoonup> nat) \<Rightarrow> bool" where
  "srun [] rs l l' \<longleftrightarrow> rs = [] \<and> l' = l"
| "srun (op # ops) rs l l' \<longleftrightarrow> (\<exists>r rs' l1. rs = r # rs' \<and> sstep op r l l1 \<and> srun ops rs' l1 l')"

lemma srun_keeps:
  "srun ops rs l l' \<Longrightarrow> l p = Some c \<Longrightarrow> Release p \<notin> set ops \<Longrightarrow> l' p = Some c"
proof (induction ops arbitrary: rs l)
  case (Cons op ops)
  then obtain r rs' l1 where s: "rs = r # rs'" "sstep op r l l1" "srun ops rs' l1 l'" by auto
  have "l1 p = Some c" using s(2) Cons.prems(2,3) by (cases op) (auto split: option.splits)
  then show ?case using Cons.IH [OF s(3)] Cons.prems(3) by simp
qed simp

lemma map_eqI:
  assumes "\<And>x y. f x = Some y \<longleftrightarrow> g x = Some y"
  shows "f = g"
proof
  fix x
  show "f x = g x" using assms [of x] by (cases "g x") (metis not_None_eq, simp)
qed

section \<open>Contracts\<close>

locale allocation =
  fixes ok :: "'s \<Rightarrow> bool"
    and env :: "'s \<Rightarrow> 'e \<Rightarrow> nat \<Rightarrow> bool"
    and live :: "'s \<Rightarrow> nat \<rightharpoonup> nat"
    and mem :: "'s \<Rightarrow> nat \<Rightarrow> char"
    and alloc :: "('s, 'e) alloc_op"
  assumes alloc_law: "ok s \<Longrightarrow> env s e n \<Longrightarrow>
        \<exists>r s'. alloc e n s = Some (Inr (r, s')) \<and> ok s' \<and> bytes_kept (live s) (mem s) (mem s') \<and>
          (case r of None \<Rightarrow> live s' = live s
           | Some p \<Rightarrow> live s p = None \<and> (\<exists>c \<ge> n. live s' = (live s)(p \<mapsto> c)))"
    and apart_law: "ok s \<Longrightarrow> regions_apart (live s)"
begin

lemma alloc_disjoint:
  assumes "ok s" and "env s e n" and "alloc e n s = Some (Inr (Some p, s'))" and "live s q = Some d"
  shows "p + n \<le> q \<or> q + d \<le> p"
proof -
  obtain c where c: "live s p = None" "n \<le> c" "live s' = (live s)(p \<mapsto> c)" "ok s'"
    using alloc_law [OF assms(1,2)] assms(3) by auto
  then have "live s' p = Some c" "live s' q = Some d" "p \<noteq> q" using assms(4) by auto
  then have "p + c \<le> q \<or> q + d \<le> p" using apart_law [OF c(4)] unfolding regions_apart_def by blast
  then show ?thesis using c(2) by auto
qed

end

text \<open>An allocator that takes blocks back under a condition.\<close>

locale guarded_allocator = allocation ok env live mem alloc
  for ok :: "'s \<Rightarrow> bool" and env :: "'s \<Rightarrow> 'e \<Rightarrow> nat \<Rightarrow> bool" and live and mem and alloc +
  fixes may :: "'s may_free"
    and free :: "'s free_op"
  assumes free_law: "ok s \<Longrightarrow> live s p \<noteq> None \<Longrightarrow> may s p \<Longrightarrow>
        \<exists>s'. free p s = Some (Inr s') \<and> ok s' \<and> bytes_kept ((live s)(p := None)) (mem s) (mem s') \<and> live s' = (live s)(p := None)"
begin

lemma step_refines:
  assumes "ok s" and "aop_ok env live may op s"
  shows "\<exists>r s'. astep alloc free op s = Some (Inr (r, s')) \<and> ok s' \<and> sstep op r (live s) (live s') \<and>
    (\<forall>p c i. live s p = Some c \<longrightarrow> op \<noteq> Release p \<longrightarrow> i < c \<longrightarrow> mem s' (p + i) = mem s (p + i))"
proof (cases op)
  case (Alloc e n)
  then obtain r s' where "alloc e n s = Some (Inr (r, s'))" "ok s'" "bytes_kept (live s) (mem s) (mem s')"
    "case r of None \<Rightarrow> live s' = live s | Some p \<Rightarrow> live s p = None \<and> (\<exists>c \<ge> n. live s' = (live s)(p \<mapsto> c))"
    using alloc_law [OF assms(1), of e n] assms(2) by auto
  then show ?thesis using Alloc apart_law [of s'] by (intro exI [of _ r] exI [of _ s']) (auto simp: bytes_kept_def split: option.splits)
next
  case (Release q)
  with assms(2) free_law [OF assms(1), of q] show ?thesis by (force simp: bytes_kept_def)
qed

lemma run_refines:
  assumes "ok s" and "atrace_ok env live may alloc free ops s"
  shows "\<exists>rs s'. arun alloc free ops s = Some (Inr (rs, s')) \<and> ok s' \<and> srun ops rs (live s) (live s') \<and>
    (\<forall>p c i. live s p = Some c \<longrightarrow> Release p \<notin> set ops \<longrightarrow> i < c \<longrightarrow> mem s' (p + i) = mem s (p + i))"
  using assms
proof (induction ops arbitrary: s)
  case (Cons op ops)
  obtain r s1 where s1: "astep alloc free op s = Some (Inr (r, s1))" "ok s1" "sstep op r (live s) (live s1)"
    "\<forall>p c i. live s p = Some c \<longrightarrow> op \<noteq> Release p \<longrightarrow> i < c \<longrightarrow> mem s1 (p + i) = mem s (p + i)"
    using step_refines [of s op] Cons.prems by auto
  obtain rs s' where s': "arun alloc free ops s1 = Some (Inr (rs, s'))" "ok s'" "srun ops rs (live s1) (live s')"
    "\<forall>p c i. live s1 p = Some c \<longrightarrow> Release p \<notin> set ops \<longrightarrow> i < c \<longrightarrow> mem s' (p + i) = mem s1 (p + i)"
    using Cons.IH [OF s1(2)] Cons.prems(2) s1(1) by auto
  have "live s1 p = Some c" if "live s p = Some c" "op \<noteq> Release p" for p c
    using srun_keeps [of "[op]" "[r]" "live s" "live s1" p c] s1(3) that by simp
  then have "\<forall>p c i. live s p = Some c \<longrightarrow> Release p \<notin> set (op # ops) \<longrightarrow> i < c \<longrightarrow> mem s' (p + i) = mem s (p + i)"
    using s1(4) s'(4) by (metis list.set_intros)
  then show ?case using s1(1,3) s'(1,2,3) by auto
qed simp

lemma run_safe:
  assumes "ok s" and "atrace_ok env live may alloc free ops s"
  shows "\<exists>rs s'. arun alloc free ops s = Some (Inr (rs, s')) \<and> ok s' \<and> srun ops rs (live s) (live s') \<and> regions_apart (live s') \<and>
    (\<forall>p c. live s p = Some c \<longrightarrow> Release p \<notin> set ops \<longrightarrow>
       live s' p = Some c \<and> (\<forall>i < c. mem s' (p + i) = mem s (p + i)))"
  using run_refines [OF assms] apart_law srun_keeps [of ops _ "live s"] by metis

end

text \<open>An allocator that takes every live block back.\<close>

locale allocator = allocation ok env live mem alloc
  for ok :: "'s \<Rightarrow> bool" and env :: "'s \<Rightarrow> 'e \<Rightarrow> nat \<Rightarrow> bool" and live and mem and alloc +
  fixes free :: "'s free_op"
  assumes free_any_law: "ok s \<Longrightarrow> live s p \<noteq> None \<Longrightarrow>
        \<exists>s'. free p s = Some (Inr s') \<and> ok s' \<and> bytes_kept ((live s)(p := None)) (mem s) (mem s') \<and> live s' = (live s)(p := None)"

sublocale allocator \<subseteq> guarded_allocator ok env live mem alloc "\<lambda>_ _. True" free
  by unfold_locales (rule free_any_law)

end
