(* ===== verification/BreakHeap.thy ===== *)
theory BreakHeap
  imports Allocator
begin

text \<open>
  The two allocators that grow the program break (hw4/wet/test2/malloc_1.cpp and malloc_2.cpp).
  Pointers are byte addresses. A block is its metadata, 32 bytes, and the payload behind it;
  the metadata of all blocks is one map from addresses, the bytes of the payloads another.
  What \<open>sbrk\<close> returned is an argument of the operations that call it.
\<close>

section \<open>malloc_1\<close>

definition smalloc_1 :: "nat option \<Rightarrow> nat \<Rightarrow> nat option" where
  "smalloc_1 sbrk sz = (if sz = 0 \<or> sz > MAX_SIZE_TO_ALLOCATE then None else sbrk)"

text \<open>
  The program break as a client of \<open>smalloc_1\<close> sees it: \<open>sbrk\<close> returns the old break and moves it by the
  size, or fails. There is no release, so the regions granted are those below the break.
\<close>

record program_break =
  break_at :: nat
  granted :: "nat \<rightharpoonup> nat"
  break_bytes :: "nat \<Rightarrow> char"

definition break_alloc :: "bool \<Rightarrow> nat \<Rightarrow> program_break \<Rightarrow> (nat option \<times> program_break) comp" where
  "break_alloc succeeds n s =
     (case smalloc_1 (if succeeds then Some (break_at s) else None) n of None \<Rightarrow> Some (Inr (None, s))
      | Some p \<Rightarrow> Some (Inr (Some p, s\<lparr>break_at := break_at s + n, granted := (granted s)(p \<mapsto> n)\<rparr>)))"

definition break_ok :: "program_break \<Rightarrow> bool" where
  "break_ok s \<longleftrightarrow> regions_apart (granted s) \<and> (\<forall>p c. granted s p = Some c \<longrightarrow> 0 < c \<and> p + c \<le> break_at s)"

lemma granted_below: "break_ok s \<Longrightarrow> granted s (break_at s) = None"
  by (cases "granted s (break_at s)") (fastforce simp: break_ok_def)+

interpretation mb: allocation break_ok "\<lambda>_ _ _. True" granted break_bytes break_alloc
proof (unfold_locales, goal_cases)
  case (1 s e n)
  show ?case
  proof (cases "smalloc_1 (if e then Some (break_at s) else None) n")
    case None
    then show ?thesis using 1 by (simp add: break_alloc_def bytes_kept_def)
  next
    case (Some p)
    then have p: "p = break_at s" "0 < n" by (auto simp: smalloc_1_def split: if_splits)
    have "break_ok (s\<lparr>break_at := break_at s + n, granted := (granted s)(p \<mapsto> n)\<rparr>)"
      using 1 p by (fastforce simp: break_ok_def regions_apart_def)
    then show ?thesis using Some p granted_below [OF 1(1)] by (simp add: break_alloc_def bytes_kept_def) auto
  qed
next
  case (2 s)
  then show ?case by (simp add: break_ok_def)
qed

section \<open>malloc_2: state\<close>

record MallocMetadata =
  msize :: nat
  is_free :: bool
  next_md :: "nat option"
  prev_md :: "nat option"

definition sizeof_md :: nat where "sizeof_md = 32"

record MemList =
  head :: "nat option"
  meta :: "nat \<rightharpoonup> MallocMetadata"
  bytes :: "nat \<Rightarrow> char"

section \<open>Statistics\<close>

definition GetNumberOfFreeBlocks :: "MemList \<Rightarrow> nat comp" where
  "GetNumberOfFreeBlocks s = walk_list next_md (meta s) (\<lambda>_ m n. if is_free m then n + 1 else n) (head s) 0"

definition GetNumberOfFreeBytes :: "MemList \<Rightarrow> nat comp" where
  "GetNumberOfFreeBytes s = walk_list next_md (meta s) (\<lambda>_ m n. if is_free m then n + msize m else n) (head s) 0"

definition GetNumberOfAllocatedBlocks :: "MemList \<Rightarrow> nat comp" where
  "GetNumberOfAllocatedBlocks s = walk_list next_md (meta s) (\<lambda>_ m n. n + 1) (head s) 0"

text \<open>The distance from the first to the last block plus the last size, less the metadata between them.\<close>

definition GetNumberOfAllocatedBytes :: "MemList \<Rightarrow> int comp" where
  "GetNumberOfAllocatedBytes s =
     (case head s of None \<Rightarrow> Some (Inr 0)
      | Some first_ptr \<Rightarrow>
          cbind (walk_list next_md (meta s) (\<lambda>a m (counter, last_ptr). (counter + 1, a)) (Some first_ptr) (0, first_ptr))
            (\<lambda>(counter, last_ptr).
          Some (rbind (deref (meta s) (Some last_ptr)) (\<lambda>m.
            Inr ((int last_ptr - int first_ptr + int (msize m) - int sizeof_md * (counter - 1)) mod 2 ^ 64)))))"

definition num_free_blocks :: "MemList \<Rightarrow> nat comp" where
  "num_free_blocks s = GetNumberOfFreeBlocks s"

definition num_free_bytes :: "MemList \<Rightarrow> nat comp" where
  "num_free_bytes s = GetNumberOfFreeBytes s"

definition num_allocated_blocks :: "MemList \<Rightarrow> nat comp" where
  "num_allocated_blocks s = GetNumberOfAllocatedBlocks s"

definition num_allocated_bytes :: "MemList \<Rightarrow> int comp" where
  "num_allocated_bytes s = GetNumberOfAllocatedBytes s"

definition num_meta_data_bytes :: "MemList \<Rightarrow> nat comp" where
  "num_meta_data_bytes s = cbind (GetNumberOfAllocatedBlocks s) (\<lambda>n. Some (Inr (n * sizeof_md)))"

definition size_meta_data :: nat where
  "size_meta_data = sizeof_md"

section \<open>Allocation\<close>

text \<open>The search: the first free block that is large enough, or the last block of the list.\<close>

partial_function (option) first_fit ::
    "(nat \<rightharpoonup> MallocMetadata) \<Rightarrow> nat \<Rightarrow> nat option \<Rightarrow> nat option \<Rightarrow> (nat + nat option) comp" where
  "first_fit h sz curr_ptr last_ptr =
     (case curr_ptr of None \<Rightarrow> Some (Inr (Inr last_ptr))
      | Some a \<Rightarrow> (case h a of None \<Rightarrow> Some (Inl (UB Bad_deref))
          | Some m \<Rightarrow> if is_free m \<and> sz \<le> msize m then Some (Inr (Inl a))
                      else first_fit h sz (next_md m) (Some a)))"

definition append_block :: "nat \<Rightarrow> nat \<Rightarrow> nat option \<Rightarrow> MemList \<Rightarrow> MemList res" where
  "append_block brk sz last_ptr s =
     (let h = (meta s)(brk \<mapsto> \<lparr>msize = sz, is_free = False, next_md = None, prev_md = last_ptr\<rparr>) in
      if head s = None then Inr (s\<lparr>meta := h, head := Some brk\<rparr>)
      else rbind (deref h last_ptr) (\<lambda>m. Inr (s\<lparr>meta := h(the last_ptr \<mapsto> m\<lparr>next_md := Some brk\<rparr>)\<rparr>)))"

definition Malloc :: "nat option \<Rightarrow> nat \<Rightarrow> MemList \<Rightarrow> (nat option \<times> MemList) comp" where
  "Malloc sbrk sz s =
     cbind (first_fit (meta s) sz (head s) (head s)) (\<lambda>r.
     case r of
       Inl a \<Rightarrow> Some (rbind (deref (meta s) (Some a)) (\<lambda>m.
         Inr (Some (a + sizeof_md), s\<lparr>meta := (meta s)(a \<mapsto> m\<lparr>is_free := False\<rparr>)\<rparr>)))
     | Inr last_ptr \<Rightarrow>
         (case sbrk of None \<Rightarrow> Some (Inr (None, s))
          | Some brk \<Rightarrow> Some (rbind (append_block brk sz last_ptr s) (\<lambda>s'. Inr (Some (brk + sizeof_md), s')))))"

text \<open>\<open>p - 1\<close> on a metadata pointer; a NULL argument gives an address that holds no metadata.\<close>

definition meta_of :: "nat option \<Rightarrow> MemList \<Rightarrow> (nat \<times> MallocMetadata) res" where
  "meta_of p s =
     (case p of None \<Rightarrow> Inl (UB Null_deref)
      | Some q \<Rightarrow> rbind (deref (meta s) (Some (q - sizeof_md))) (\<lambda>m. Inr (q - sizeof_md, m)))"

definition Free :: "nat option \<Rightarrow> MemList \<Rightarrow> MemList res" where
  "Free p s = rbind (meta_of p s) (\<lambda>(a, m). Inr (s\<lparr>meta := (meta s)(a \<mapsto> m\<lparr>is_free := True\<rparr>)\<rparr>))"

definition Srealloc :: "nat option \<Rightarrow> nat \<Rightarrow> nat \<Rightarrow> MemList \<Rightarrow> (nat option \<times> MemList) comp" where
  "Srealloc sbrk oldp sz s =
     cbind (Some (meta_of (Some oldp) s)) (\<lambda>(start_ptr, m).
     if sz \<le> msize m then Some (Inr (Some oldp, s))
     else cbind (Malloc sbrk sz s) (\<lambda>(addr, s1).
       case addr of None \<Rightarrow> Some (Inr (None, s1))
       | Some a \<Rightarrow>
           Some (rbind (Free (Some oldp) (s1\<lparr>bytes := copy_bytes a oldp (msize m) (bytes s1)\<rparr>)) (\<lambda>s2. Inr (Some a, s2)))))"

definition smalloc :: "nat option \<Rightarrow> nat \<Rightarrow> MemList \<Rightarrow> (nat option \<times> MemList) comp" where
  "smalloc sbrk sz s =
     (if sz = 0 \<or> sz > MAX_SIZE_TO_ALLOCATE then Some (Inr (None, s)) else Malloc sbrk sz s)"

text \<open>\<open>num * size\<close> wraps at 64 bits.\<close>

definition scalloc :: "nat option \<Rightarrow> nat \<Rightarrow> nat \<Rightarrow> MemList \<Rightarrow> (nat option \<times> MemList) comp" where
  "scalloc sbrk num sz s =
     (let total_size = num * sz mod 2 ^ 64 in
      if sz = 0 \<or> num = 0 \<or> total_size > MAX_SIZE_TO_ALLOCATE then Some (Inr (None, s))
      else cbind (Malloc sbrk total_size s) (\<lambda>(addr, s1).
        case addr of None \<Rightarrow> Some (Inr (None, s1))
        | Some a \<Rightarrow> Some (Inr (Some a, s1\<lparr>bytes := fill_bytes a total_size (bytes s1)\<rparr>))))"

definition sfree :: "nat option \<Rightarrow> MemList \<Rightarrow> MemList res" where
  "sfree p s = Free p s"

definition srealloc :: "nat option \<Rightarrow> nat option \<Rightarrow> nat \<Rightarrow> MemList \<Rightarrow> (nat option \<times> MemList) comp" where
  "srealloc sbrk oldp sz s =
     (if sz = 0 \<or> sz > MAX_SIZE_TO_ALLOCATE then Some (Inr (None, s))
      else case oldp of None \<Rightarrow> smalloc sbrk sz s | Some p \<Rightarrow> Srealloc sbrk p sz s)"

section \<open>What a heap represents\<close>

text \<open>
  A heap is a list of blocks, each with its address, size and whether it is free, one behind
  the other without gaps. \<open>bump\<close> is the program break, the end of the last block.
\<close>

type_synonym block = "nat \<times> nat \<times> bool"

definition baddr :: "block \<Rightarrow> nat" where "baddr b = fst b"
definition bsize :: "block \<Rightarrow> nat" where "bsize b = fst (snd b)"
definition bfree :: "block \<Rightarrow> bool" where "bfree b = snd (snd b)"

fun tiled :: "nat \<Rightarrow> block list \<Rightarrow> nat \<Rightarrow> bool" where
  "tiled a [] bump \<longleftrightarrow> a = bump"
| "tiled a (b # bs) bump \<longleftrightarrow> baddr b = a \<and> tiled (a + sizeof_md + bsize b) bs bump"

fun linked :: "(nat \<rightharpoonup> MallocMetadata) \<Rightarrow> nat option \<Rightarrow> nat option \<Rightarrow> block list \<Rightarrow> bool" where
  "linked h p prv [] \<longleftrightarrow> p = None"
| "linked h p prv (b # bs) \<longleftrightarrow> p = Some (baddr b) \<and>
     (\<exists>nx. h (baddr b) = Some \<lparr>msize = bsize b, is_free = bfree b, next_md = nx, prev_md = prv\<rparr> \<and>
       linked h nx (Some (baddr b)) bs)"

definition heap_rep :: "MemList \<Rightarrow> block list \<Rightarrow> nat \<Rightarrow> bool" where
  "heap_rep s bs bump \<longleftrightarrow> linked (meta s) (head s) None bs \<and> (\<exists>base. tiled base bs bump) \<and>
     dom (meta s) = baddr ` set bs"

lemma block_simps [simp]: "baddr (a, n, f) = a" "bsize (a, n, f) = n" "bfree (a, n, f) = f"
  by (simp_all add: baddr_def bsize_def bfree_def)

lemma tiled_append [simp]: "tiled a (us @ vs) z \<longleftrightarrow> (\<exists>m. tiled a us m \<and> tiled m vs z)"
  by (induction us arbitrary: a) auto

lemma tiled_le: "tiled a bs z \<Longrightarrow> a \<le> z"
  by (induction bs arbitrary: a) fastforce+

lemma tiled_bounds:
  "tiled a bs z \<Longrightarrow> b \<in> set bs \<Longrightarrow> a \<le> baddr b \<and> baddr b + sizeof_md + bsize b \<le> z"
proof (induction bs arbitrary: a)
  case (Cons c bs)
  then show ?case using tiled_le [of "a + sizeof_md + bsize c" bs z] by fastforce
qed simp

lemma tiled_distinct: "tiled a bs z \<Longrightarrow> distinct (map baddr bs)"
proof (induction bs arbitrary: a)
  case (Cons b bs)
  have "baddr b \<notin> baddr ` set bs"
  proof
    assume "baddr b \<in> baddr ` set bs"
    then obtain c where "c \<in> set bs" "baddr c = baddr b" by auto
    with tiled_bounds [of "a + sizeof_md + bsize b" bs z c] Cons.prems show False by (auto simp: sizeof_md_def)
  qed
  with Cons show ?case by auto
qed simp

lemma tiled_apart:
  assumes "tiled a bs z" and "b \<in> set bs" and "c \<in> set bs" and "baddr b < baddr c"
  shows "baddr b + sizeof_md + bsize b \<le> baddr c"
proof -
  obtain us vs where bs: "bs = us @ b # vs" using split_list [OF assms(2)] by blast
  obtain m where m: "tiled a us m" "tiled (baddr b + sizeof_md + bsize b) vs z" "baddr b = m"
    using assms(1) bs by auto
  have "c \<notin> set us" using tiled_bounds [OF m(1)] m(3) assms(4) by fastforce
  then have "c \<in> set vs" using assms(3,4) bs by auto
  then show ?thesis using tiled_bounds [OF m(2)] by blast
qed

lemma linked_update_other:
  "a \<notin> baddr ` set bs \<Longrightarrow> linked (h(a := v)) p prv bs = linked h p prv bs"
  by (induction bs arbitrary: p prv) auto

lemma linked_lookup:
  "linked h p prv bs \<Longrightarrow> b \<in> set bs \<Longrightarrow>
     \<exists>nx pv. h (baddr b) = Some \<lparr>msize = bsize b, is_free = bfree b, next_md = nx, prev_md = pv\<rparr>"
  by (induction bs arbitrary: p prv) auto

lemma linked_set_free:
  "linked h p prv (us @ b # vs) \<Longrightarrow> distinct (map baddr (us @ b # vs)) \<Longrightarrow> h (baddr b) = Some m \<Longrightarrow>
     linked (h(baddr b \<mapsto> m\<lparr>is_free := f\<rparr>)) p prv (us @ (baddr b, bsize b, f) # vs)"
proof (induction us arbitrary: p prv)
  case Nil
  then have "linked (h(baddr b \<mapsto> m\<lparr>is_free := f\<rparr>)) nx pv vs = linked h nx pv vs" for nx pv
    by (intro linked_update_other) simp
  with Nil show ?case by (auto simp del: fun_upd_apply simp add: fun_upd_same)
next
  case (Cons c us)
  then show ?case by auto
qed

lemma linked_snoc:
  "linked h p prv bs \<Longrightarrow> bs \<noteq> [] \<Longrightarrow> distinct (map baddr bs) \<Longrightarrow> a \<notin> baddr ` set bs \<Longrightarrow>
     h (baddr (last bs)) = Some m \<Longrightarrow>
     linked (h(a \<mapsto> \<lparr>msize = n, is_free = False, next_md = None, prev_md = Some (baddr (last bs))\<rparr>,
               baddr (last bs) \<mapsto> m\<lparr>next_md := Some a\<rparr>)) p prv (bs @ [(a, n, False)])"
proof (induction bs arbitrary: p prv)
  case Nil
  then show ?case by simp
next
  case (Cons b bs)
  show ?case
  proof (cases "bs = []")
    case True
    with Cons.prems show ?thesis by auto
  next
    case False
    have "last bs \<in> set bs" using False by simp
    then have "baddr (last bs) \<in> baddr ` set bs" by (rule imageI)
    moreover have "baddr b \<notin> baddr ` set bs" using Cons.prems(3) by simp
    ultimately have ne: "baddr (last bs) \<noteq> baddr b" by metis
    show ?thesis using Cons.IH Cons.prems False ne by auto
  qed
qed

lemma walk_list_linked:
  assumes "\<And>a m acc. f a m acc = g (a, msize m, is_free m) acc"
    and "linked h p prv bs"
  shows "walk_list next_md h f p acc = Some (Inr (fold g bs acc))"
proof -
  have f: "f = (\<lambda>a m. g (a, msize m, is_free m))" using assms(1) by (simp add: fun_eq_iff)
  show ?thesis using assms(2) unfolding f
  proof (induction bs arbitrary: p prv acc)
    case Nil
    then show ?case by (subst walk_list.simps) simp
  next
    case (Cons b bs)
    then show ?case by (subst walk_list.simps) (auto simp: baddr_def bsize_def bfree_def)
  qed
qed

definition fits :: "nat \<Rightarrow> block \<Rightarrow> bool" where
  "fits n b \<longleftrightarrow> bfree b \<and> n \<le> bsize b"

lemma first_fit_none:
  "linked h p prv bs \<Longrightarrow> \<forall>b \<in> set bs. \<not> fits n b \<Longrightarrow>
     first_fit h n p l = Some (Inr (Inr (if bs = [] then l else Some (baddr (last bs)))))"
proof (induction bs arbitrary: p prv l)
  case Nil
  then show ?case by (subst first_fit.simps) simp
next
  case (Cons b bs)
  then show ?case by (subst first_fit.simps) (auto simp: fits_def)
qed

lemma first_fit_some:
  "linked h p prv (us @ b # vs) \<Longrightarrow> \<forall>c \<in> set us. \<not> fits n c \<Longrightarrow> fits n b \<Longrightarrow>
     first_fit h n p l = Some (Inr (Inl (baddr b)))"
proof (induction us arbitrary: p prv l)
  case Nil
  then show ?case by (subst first_fit.simps) (auto simp: fits_def)
next
  case (Cons c us)
  then show ?case by (subst first_fit.simps) (auto simp: fits_def)
qed

lemma heap_rep_distinct: "heap_rep s bs bump \<Longrightarrow> distinct (map baddr bs)"
  by (auto simp: heap_rep_def intro: tiled_distinct)

lemma heap_rep_set_free:
  assumes "heap_rep s (us @ b # vs) bump" and "meta s (baddr b) = Some m"
  shows "heap_rep (s\<lparr>meta := (meta s)(baddr b \<mapsto> m\<lparr>is_free := f\<rparr>)\<rparr>) (us @ (baddr b, bsize b, f) # vs) bump"
  using assms linked_set_free [of "meta s" "head s" None us b vs m f] heap_rep_distinct [OF assms(1)]
  by (auto simp: heap_rep_def)

lemma append_block_rep:
  assumes "heap_rep s bs bump"
  shows "\<exists>s'. append_block bump n (if bs = [] then head s else Some (baddr (last bs))) s = Inr s' \<and>
     heap_rep s' (bs @ [(bump, n, False)]) (bump + sizeof_md + n) \<and> bytes s' = bytes s"
proof (cases "bs = []")
  case True
  then show ?thesis using assms by (auto simp: append_block_def heap_rep_def)
next
  case False
  obtain base where t: "tiled base bs bump" and l: "linked (meta s) (head s) None bs"
    and d: "dom (meta s) = baddr ` set bs" using assms by (auto simp: heap_rep_def)
  obtain m where m: "meta s (baddr (last bs)) = Some m" using linked_lookup [OF l, of "last bs"] False by auto
  have new: "bump \<notin> baddr ` set bs" using tiled_bounds [OF t] by (fastforce simp: sizeof_md_def)
  have hd: "head s \<noteq> None" "baddr (last bs) \<noteq> bump" using l False new by (cases bs; auto)+
  let ?s = "s\<lparr>meta := (meta s)(bump \<mapsto> \<lparr>msize = n, is_free = False, next_md = None, prev_md = Some (baddr (last bs))\<rparr>,
      baddr (last bs) \<mapsto> m\<lparr>next_md := Some bump\<rparr>)\<rparr>"
  have "append_block bump n (Some (baddr (last bs))) s = Inr ?s"
    using hd m by (auto simp: append_block_def Let_def deref_def)
  moreover have "heap_rep ?s (bs @ [(bump, n, False)]) (bump + sizeof_md + n)"
    using linked_snoc [OF l False tiled_distinct [OF t] new m] t d False
    by (auto simp: heap_rep_def add.assoc)
  ultimately show ?thesis using False by simp
qed

section \<open>Allocation is first fit\<close>

lemma Malloc_reuse:
  assumes "heap_rep s (us @ (a, m, True) # vs) bump" and "\<forall>c \<in> set us. \<not> fits n c" and "n \<le> m"
  shows "\<exists>s'. Malloc sbrk n s = Some (Inr (Some (a + sizeof_md), s')) \<and>
     heap_rep s' (us @ (a, m, False) # vs) bump \<and> bytes s' = bytes s"
proof -
  have l: "linked (meta s) (head s) None (us @ (a, m, True) # vs)" using assms(1) by (simp add: heap_rep_def)
  obtain md where md: "meta s a = Some md" using linked_lookup [OF l, of "(a, m, True)"] by auto
  have "first_fit (meta s) n (head s) (head s) = Some (Inr (Inl a))"
    using first_fit_some [OF l assms(2)] assms(3) by (simp add: fits_def)
  then show ?thesis using md heap_rep_set_free [OF assms(1), of md False] by (simp add: Malloc_def)
qed

lemma Malloc_extend:
  assumes "heap_rep s bs bump" and "\<forall>c \<in> set bs. \<not> fits n c"
  shows "Malloc None n s = Some (Inr (None, s))"
    and "\<exists>s'. Malloc (Some bump) n s = Some (Inr (Some (bump + sizeof_md), s')) \<and>
      heap_rep s' (bs @ [(bump, n, False)]) (bump + sizeof_md + n) \<and> bytes s' = bytes s"
proof -
  have "linked (meta s) (head s) None bs" using assms(1) by (simp add: heap_rep_def)
  from first_fit_none [OF this assms(2), of "head s"]
  have ff: "first_fit (meta s) n (head s) (head s) = Some (Inr (Inr (if bs = [] then head s else Some (baddr (last bs)))))" .
  show "Malloc None n s = Some (Inr (None, s))" by (simp add: Malloc_def ff)
  show "\<exists>s'. Malloc (Some bump) n s = Some (Inr (Some (bump + sizeof_md), s')) \<and>
      heap_rep s' (bs @ [(bump, n, False)]) (bump + sizeof_md + n) \<and> bytes s' = bytes s"
    using append_block_rep [OF assms(1), of n] by (auto simp: Malloc_def ff)
qed

text \<open>The list of blocks after a request, as a function of the list before it.\<close>

fun place :: "nat \<Rightarrow> block list \<Rightarrow> (nat \<times> block list) option" where
  "place n [] = None"
| "place n ((a, m, f) # bs) =
     (if f \<and> n \<le> m then Some (a, (a, m, False) # bs)
      else map_option (\<lambda>(p, bs'). (p, (a, m, f) # bs')) (place n bs))"

lemma place_None: "place n bs = None \<longleftrightarrow> (\<forall>b \<in> set bs. \<not> fits n b)"
  by (induction n bs rule: place.induct) (auto simp: fits_def)

lemma place_Some:
  "place n bs = Some (a, bs') \<Longrightarrow>
     \<exists>us m vs. bs = us @ (a, m, True) # vs \<and> bs' = us @ (a, m, False) # vs \<and> n \<le> m \<and> (\<forall>c \<in> set us. \<not> fits n c)"
proof (induction n bs arbitrary: a bs' rule: place.induct)
  case (2 n a0 m f bs)
  show ?case
  proof (cases "f \<and> n \<le> m")
    case True
    with "2.prems" show ?thesis by (intro exI [of _ "[]"]) auto
  next
    case False
    then obtain bs1 where bs1: "place n bs = Some (a, bs1)" "bs' = (a0, m, f) # bs1"
      using "2.prems" by (auto split: if_splits)
    from "2.IH" [OF False bs1(1)] obtain us k vs where
      "bs = us @ (a, k, True) # vs" "bs1 = us @ (a, k, False) # vs" "n \<le> k" "\<forall>c \<in> set us. \<not> fits n c" by blast
    with bs1(2) False show ?thesis by (intro exI [of _ "(a0, m, f) # us"]) (auto simp: fits_def)
  qed
qed simp

lemma Malloc_rep:
  assumes "heap_rep s bs bump" and "sbrk = None \<or> sbrk = Some bump"
  shows "\<exists>r s'. Malloc sbrk n s = Some (Inr (r, s')) \<and> bytes s' = bytes s \<and>
     (case place n bs of
        Some (a, bs') \<Rightarrow> r = Some (a + sizeof_md) \<and> heap_rep s' bs' bump
      | None \<Rightarrow> (case sbrk of None \<Rightarrow> r = None \<and> s' = s
          | Some b \<Rightarrow> r = Some (b + sizeof_md) \<and> heap_rep s' (bs @ [(b, n, False)]) (b + sizeof_md + n)))"
proof (cases "place n bs")
  case None
  then have "\<forall>c \<in> set bs. \<not> fits n c" by (simp add: place_None)
  from Malloc_extend [OF assms(1) this] assms(2) None show ?thesis by auto
next
  case (Some p)
  obtain a bs' where p: "p = (a, bs')" by (cases p)
  from place_Some [of n bs a bs'] Some p obtain us m vs where
    "bs = us @ (a, m, True) # vs" "bs' = us @ (a, m, False) # vs" "n \<le> m" "\<forall>c \<in> set us. \<not> fits n c" by auto
  with Malloc_reuse [of s us a m vs bump n sbrk] assms(1) Some p show ?thesis by auto
qed

lemma Free_rep:
  assumes "heap_rep s (us @ b # vs) bump"
  shows "\<exists>s'. Free (Some (baddr b + sizeof_md)) s = Inr s' \<and>
     heap_rep s' (us @ (baddr b, bsize b, True) # vs) bump \<and> bytes s' = bytes s"
proof -
  have "linked (meta s) (head s) None (us @ b # vs)" using assms by (simp add: heap_rep_def)
  then obtain m where m: "meta s (baddr b) = Some m" using linked_lookup [of _ _ _ _ b] by fastforce
  then show ?thesis using heap_rep_set_free [OF assms m, of True] by (simp add: Free_def meta_of_def)
qed

section \<open>The contract\<close>

definition payload_of :: "MemList \<Rightarrow> nat \<rightharpoonup> nat" where
  "payload_of s p = (if sizeof_md \<le> p then
     (case meta s (p - sizeof_md) of None \<Rightarrow> None | Some m \<Rightarrow> if is_free m then None else Some (msize m)) else None)"

definition heap_ok :: "MemList \<Rightarrow> bool" where
  "heap_ok s \<longleftrightarrow> (\<exists>bs bump. heap_rep s bs bump)"

text \<open>\<open>sbrk\<close> fails or returns the end of the heap: nobody else moves the program break.\<close>

definition sbrk_ok :: "MemList \<Rightarrow> nat option \<Rightarrow> nat \<Rightarrow> bool" where
  "sbrk_ok s e n \<longleftrightarrow> e = None \<or> (\<exists>bs bump. heap_rep s bs bump \<and> e = Some bump)"

lemma payload_blocks:
  assumes "heap_rep s bs bump"
  shows "payload_of s p = Some c \<longleftrightarrow> (\<exists>a. p = a + sizeof_md \<and> (a, c, False) \<in> set bs)"
proof
  assume "payload_of s p = Some c"
  then obtain m where m: "sizeof_md \<le> p" "meta s (p - sizeof_md) = Some m" "\<not> is_free m" "msize m = c"
    by (auto simp: payload_of_def split: if_splits option.splits)
  have "p - sizeof_md \<in> baddr ` set bs" using m(2) assms by (auto simp: heap_rep_def)
  then obtain b where b: "b \<in> set bs" "baddr b = p - sizeof_md" by auto
  then have "bsize b = c" "\<not> bfree b"
    using m linked_lookup [of "meta s" "head s" None bs b] assms by (auto simp: heap_rep_def)
  then have "b = (p - sizeof_md, c, False)" using b(2) by (cases b) auto
  with b(1) m(1) show "\<exists>a. p = a + sizeof_md \<and> (a, c, False) \<in> set bs"
    by (intro exI [of _ "p - sizeof_md"]) auto
next
  assume "\<exists>a. p = a + sizeof_md \<and> (a, c, False) \<in> set bs"
  then obtain a where a: "p = a + sizeof_md" "(a, c, False) \<in> set bs" by blast
  from linked_lookup [of "meta s" "head s" None bs, OF _ a(2)] assms a(1) show "payload_of s p = Some c"
    by (auto simp: heap_rep_def payload_of_def)
qed

lemma payload_replace:
  assumes "heap_rep s (us @ (a, m, f) # vs) bump" and "heap_rep s' (us @ (a, m, f') # vs) bump"
  shows "payload_of s' = (payload_of s)(a + sizeof_md := (if f' then None else Some m))"
proof (rule map_eqI)
  fix q c
  have d: "a \<notin> baddr ` set us" "a \<notin> baddr ` set vs" using heap_rep_distinct [OF assms(1)] by auto
  then have "(a, c, g) \<notin> set us" "(a, c, g) \<notin> set vs" for c g by (force simp: image_iff)+
  then show "payload_of s' q = Some c \<longleftrightarrow> ((payload_of s)(a + sizeof_md := (if f' then None else Some m))) q = Some c"
    using payload_blocks [OF assms(1), of q c] payload_blocks [OF assms(2), of q c] by auto
qed

lemma payload_snoc:
  assumes "heap_rep s bs bump" and "heap_rep s' (bs @ [(bump, n, False)]) bump'"
  shows "payload_of s (bump + sizeof_md) = None" and "payload_of s' = (payload_of s)(bump + sizeof_md \<mapsto> n)"
proof -
  obtain base where t: "tiled base bs bump" using assms(1) by (auto simp: heap_rep_def)
  have new: "(bump, c, g) \<notin> set bs" for c g
    using tiled_bounds [OF t, of "(bump, c, g)"] by (auto simp: sizeof_md_def)
  then show "payload_of s (bump + sizeof_md) = None"
    using payload_blocks [OF assms(1), of "bump + sizeof_md"] by (cases "payload_of s (bump + sizeof_md)") auto
  show "payload_of s' = (payload_of s)(bump + sizeof_md \<mapsto> n)"
    using new payload_blocks [OF assms(1)] payload_blocks [OF assms(2)] by (intro map_eqI) auto
qed

lemma payload_apart:
  assumes "heap_rep s bs bump"
  shows "regions_apart (payload_of s)"
  unfolding regions_apart_def
proof (intro allI impI)
  fix p q c d
  assume "payload_of s p = Some c" "payload_of s q = Some d" "p \<noteq> q"
  then obtain a b where ab: "p = a + sizeof_md" "(a, c, False) \<in> set bs" "q = b + sizeof_md" "(b, d, False) \<in> set bs" "a \<noteq> b"
    using payload_blocks [OF assms] by auto
  obtain base where t: "tiled base bs bump" using assms by (auto simp: heap_rep_def)
  from tiled_apart [OF t ab(2,4)] tiled_apart [OF t ab(4,2)] ab show "p + c \<le> q \<or> q + d \<le> p"
    by (cases "a < b") auto
qed

lemma sbrk_ok_rep:
  assumes "heap_ok s" and "sbrk_ok s e n"
  obtains bs bump where "heap_rep s bs bump" and "e = None \<or> e = Some bump"
  using assms unfolding heap_ok_def sbrk_ok_def by blast

lemma smalloc_law:
  assumes "heap_ok s" and "sbrk_ok s e n"
  shows "\<exists>r s'. smalloc e n s = Some (Inr (r, s')) \<and> heap_ok s' \<and> bytes s' = bytes s \<and>
    (case r of None \<Rightarrow> payload_of s' = payload_of s
     | Some p \<Rightarrow> payload_of s p = None \<and> (\<exists>c \<ge> n. payload_of s' = (payload_of s)(p \<mapsto> c)))"
proof (cases "n = 0 \<or> n > MAX_SIZE_TO_ALLOCATE")
  case True
  then show ?thesis using assms(1) by (auto simp: smalloc_def)
next
  case False
  obtain bs bump where rep: "heap_rep s bs bump" and e: "e = None \<or> e = Some bump"
    using sbrk_ok_rep [OF assms] .
  from Malloc_rep [OF rep e, of n] obtain r s' where m: "Malloc e n s = Some (Inr (r, s'))" "bytes s' = bytes s"
    and out: "case place n bs of
        Some (a, bs') \<Rightarrow> r = Some (a + sizeof_md) \<and> heap_rep s' bs' bump
      | None \<Rightarrow> (case e of None \<Rightarrow> r = None \<and> s' = s
          | Some b \<Rightarrow> r = Some (b + sizeof_md) \<and> heap_rep s' (bs @ [(b, n, False)]) (b + sizeof_md + n))" by blast
  have "heap_ok s' \<and> (case r of None \<Rightarrow> payload_of s' = payload_of s
     | Some p \<Rightarrow> payload_of s p = None \<and> (\<exists>c \<ge> n. payload_of s' = (payload_of s)(p \<mapsto> c)))"
  proof (cases "place n bs")
    case None
    then show ?thesis using out e assms(1) payload_snoc [OF rep]
      by (auto simp: heap_ok_def split: option.splits)
  next
    case (Some p)
    obtain a bs' where p: "p = (a, bs')" by (cases p)
    then obtain us m vs where u: "bs = us @ (a, m, True) # vs" "bs' = us @ (a, m, False) # vs" "n \<le> m"
      using place_Some [of n bs a bs'] Some by auto
    have s': "r = Some (a + sizeof_md)" "heap_rep s' (us @ (a, m, False) # vs) bump" using out Some p u by auto
    have rep': "heap_rep s (us @ (a, m, True) # vs) bump" using rep u(1) by simp
    have "a \<notin> baddr ` set us" "a \<notin> baddr ` set vs" using heap_rep_distinct [OF rep'] by auto
    then have "(a, c, False) \<notin> set (us @ (a, m, True) # vs)" for c by (force simp: image_iff)
    then have "payload_of s (a + sizeof_md) = None"
      using payload_blocks [OF rep', of "a + sizeof_md"] by (cases "payload_of s (a + sizeof_md)") auto
    then show ?thesis using payload_replace [OF rep' s'(2)] s' u(3) by (auto simp: heap_ok_def)
  qed
  then show ?thesis using m False by (auto simp: smalloc_def)
qed

lemma sfree_law:
  assumes "heap_ok s" and "payload_of s p \<noteq> None"
  shows "\<exists>s'. sfree (Some p) s = Inr s' \<and> heap_ok s' \<and> bytes s' = bytes s \<and> payload_of s' = (payload_of s)(p := None)"
proof -
  obtain bs bump where rep: "heap_rep s bs bump" using assms(1) by (auto simp: heap_ok_def)
  obtain a c where a: "p = a + sizeof_md" "(a, c, False) \<in> set bs"
    using assms(2) payload_blocks [OF rep, of p] by auto
  obtain us vs where bs: "bs = us @ (a, c, False) # vs" using split_list [OF a(2)] by blast
  have rep': "heap_rep s (us @ (a, c, False) # vs) bump" using rep bs by simp
  from Free_rep [OF this] obtain s' where "Free (Some (a + sizeof_md)) s = Inr s'"
    "heap_rep s' (us @ (a, c, True) # vs) bump" "bytes s' = bytes s" by auto
  then show ?thesis using payload_replace [OF rep', of s' True] a(1) by (auto simp: sfree_def heap_ok_def)
qed

interpretation bh: allocator heap_ok sbrk_ok payload_of bytes smalloc "\<lambda>p s. Some (sfree (Some p) s)"
proof (unfold_locales, goal_cases)
  case (1 s e n)
  then show ?case using smalloc_law [of s e n] by (auto simp: bytes_kept_def)
next
  case (2 s)
  then show ?case using payload_apart by (auto simp: heap_ok_def)
next
  case (3 s p)
  then show ?case using sfree_law [of s p] by (auto simp: bytes_kept_def)
qed

section \<open>Properties\<close>


text \<open>
  Claim C29. \<open>smalloc\<close> is first fit: on a valid size it takes the first free block that is large
  enough, without splitting it, and only when there is none appends a block of exactly the
  requested size at the program break; it returns NULL only for an invalid size or when \<open>sbrk\<close>
  fails. No byte of any payload changes.
\<close>

theorem smalloc_first_fit:
  assumes "heap_rep s bs bump" and "sbrk = None \<or> sbrk = Some bump"
  shows "\<exists>r s'. smalloc sbrk n s = Some (Inr (r, s')) \<and> bytes s' = bytes s \<and>
    (if n = 0 \<or> n > MAX_SIZE_TO_ALLOCATE then r = None \<and> s' = s
     else case place n bs of
        Some (a, bs') \<Rightarrow> r = Some (a + sizeof_md) \<and> heap_rep s' bs' bump
      | None \<Rightarrow> (case sbrk of None \<Rightarrow> r = None \<and> s' = s
          | Some b \<Rightarrow> r = Some (b + sizeof_md) \<and> heap_rep s' (bs @ [(b, n, False)]) (b + sizeof_md + n)))"
  using Malloc_rep [OF assms, of n] by (auto simp: smalloc_def)

lemma fold_last: "fold (\<lambda>b (c, l). (c + 1, baddr b)) bs (c::int, l) =
    (c + int (length bs), if bs = [] then l else baddr (last bs))"
  by (induction bs arbitrary: c l) auto

lemma tiled_length:
  "tiled a bs z \<Longrightarrow> z = a + length bs * sizeof_md + sum_list (map bsize bs)"
proof (induction bs arbitrary: a)
  case (Cons b bs)
  then have "z = a + sizeof_md + bsize b + length bs * sizeof_md + sum_list (map bsize bs)" by simp
  then show ?case by simp
qed simp

lemma allocated_bytes_sum:
  assumes "heap_rep s bs bump" and "bump < 2 ^ 64"
  shows "GetNumberOfAllocatedBytes s = Some (Inr (int (sum_list (map bsize bs))))"
proof (cases bs rule: rev_cases)
  case Nil
  then show ?thesis using assms by (auto simp: GetNumberOfAllocatedBytes_def heap_rep_def)
next
  case (snoc us b)
  have l: "linked (meta s) (head s) None bs" using assms(1) by (simp add: heap_rep_def)
  obtain base where t: "tiled base bs bump" using assms(1) by (auto simp: heap_rep_def)
  obtain c cs where "bs = c # cs" using snoc by (metis append_is_Nil_conv list.distinct(1) neq_Nil_conv)
  then have hd: "head s = Some base" using l t by simp
  have w: "walk_list next_md (meta s) (\<lambda>a m (counter, last_ptr). (counter + 1, a)) (Some base) (0::int, base) =
      Some (Inr (int (length bs), baddr b))"
    using walk_list_linked [of "\<lambda>a m (counter::int, last_ptr). (counter + 1, a)" "\<lambda>b (c, l). (c + 1, baddr b)",
        OF _ l [unfolded hd], of "(0, base)"] fold_last [of bs 0 base] snoc by auto
  obtain m where m: "meta s (baddr b) = Some m" "msize m = bsize b"
    using linked_lookup [OF l, of b] snoc by auto
  have len: "baddr b = base + length us * sizeof_md + sum_list (map bsize us)"
    using t snoc tiled_length [of base us] by auto
  have "sum_list (map bsize bs) < 2 ^ 64" using tiled_length [OF t] assms(2) by simp
  then have "int (sum_list (map bsize us)) + int (bsize b) < 2 ^ 64" using snoc by simp
  then show ?thesis using hd w m len snoc
    by (simp add: GetNumberOfAllocatedBytes_def algebra_simps)
qed

text \<open>
  Claim C31. The statistics are right: on a heap below the address \<open>2^64\<close> they return the number
  and the total size of the free blocks, the number and the total size of all blocks, and 32
  bytes of metadata per block, although the total size is computed from two addresses and not
  by adding.
\<close>

theorem heap_statistics:
  assumes "heap_rep s bs bump" and "bump < 2 ^ 64"
  shows "num_free_blocks s = Some (Inr (length (filter bfree bs))) \<and>
    num_free_bytes s = Some (Inr (sum_list (map bsize (filter bfree bs)))) \<and>
    num_allocated_blocks s = Some (Inr (length bs)) \<and>
    num_allocated_bytes s = Some (Inr (int (sum_list (map bsize bs)))) \<and>
    num_meta_data_bytes s = Some (Inr (size_meta_data * length bs)) \<and> size_meta_data = 32"
proof -
  have l: "linked (meta s) (head s) None bs" using assms(1) by (simp add: heap_rep_def)
  have "GetNumberOfFreeBlocks s = Some (Inr (length (filter bfree bs)))"
    using walk_list_linked [of "\<lambda>_ m (n::nat). if is_free m then n + 1 else n" "\<lambda>b n. if bfree b then n + 1 else n", OF _ l]
      fold_count [of bfree bs 0] by (simp add: GetNumberOfFreeBlocks_def)
  moreover have "GetNumberOfFreeBytes s = Some (Inr (sum_list (map bsize (filter bfree bs))))"
    using walk_list_linked [of "\<lambda>_ m (n::nat). if is_free m then n + msize m else n" "\<lambda>b n. if bfree b then n + bsize b else n", OF _ l]
      fold_sum [of bfree bsize bs 0] by (simp add: GetNumberOfFreeBytes_def)
  moreover have "GetNumberOfAllocatedBlocks s = Some (Inr (length bs))"
    using walk_list_linked [of "\<lambda>_ m (n::nat). n + 1" "\<lambda>b n. if True then n + 1 else n", OF _ l]
      fold_count [of "\<lambda>_. True" bs 0] by (simp add: GetNumberOfAllocatedBlocks_def)
  moreover from this have "num_meta_data_bytes s = Some (Inr (size_meta_data * length bs))" "size_meta_data = 32"
    by (simp_all add: num_meta_data_bytes_def size_meta_data_def sizeof_md_def)
  ultimately show ?thesis using allocated_bytes_sum [OF assms]
    by (simp add: num_free_blocks_def num_free_bytes_def num_allocated_blocks_def num_allocated_bytes_def)
qed

section \<open>Reallocation and zeroed allocation\<close>

lemma bytes_irrelevant [simp]:
  "heap_rep (s\<lparr>bytes := b\<rparr>) bs bump = heap_rep s bs bump"
  "heap_ok (s\<lparr>bytes := b\<rparr>) = heap_ok s"
  "payload_of (s\<lparr>bytes := b\<rparr>) = payload_of s"
  by (auto simp: heap_rep_def heap_ok_def payload_of_def fun_eq_iff)

lemma Malloc_valid: "0 < n \<Longrightarrow> n \<le> MAX_SIZE_TO_ALLOCATE \<Longrightarrow> Malloc e n s = smalloc e n s"
  by (simp add: smalloc_def)

lemma smalloc_bytes:
  assumes "heap_ok s" and "sbrk_ok s e n" and "smalloc e n s = Some (Inr (r, s'))"
  shows "bytes s' = bytes s"
proof -
  obtain bs bump where "heap_rep s bs bump" "e = None \<or> e = Some bump" using sbrk_ok_rep [OF assms(1,2)] .
  from Malloc_rep [OF this, of n] assms(3) show ?thesis by (auto simp: smalloc_def split: if_splits)
qed

lemma Free_bytes: "Free p s = Inr s' \<Longrightarrow> bytes s' = bytes s"
  unfolding Free_def by (cases "meta_of p s") auto

lemma meta_of_payload: "payload_of s p = Some c \<Longrightarrow> \<exists>m. meta_of (Some p) s = Inr (p - sizeof_md, m) \<and> msize m = c"
  by (auto simp: payload_of_def meta_of_def deref_def split: if_splits option.splits)

lemma srealloc_moves:
  assumes "heap_ok s" and "sbrk_ok s e n" and "payload_of s p = Some c" and "c < n" and "n \<le> MAX_SIZE_TO_ALLOCATE"
  shows "\<exists>r s'. srealloc e (Some p) n s = Some (Inr (r, s')) \<and> heap_ok s' \<and>
    (case r of None \<Rightarrow> payload_of s' = payload_of s \<and> bytes s' = bytes s
     | Some q \<Rightarrow> (\<exists>c' \<ge> n. payload_of s' = (payload_of s)(p := None, q \<mapsto> c')) \<and>
         (\<forall>i < min c n. bytes s' (q + i) = bytes s (p + i)) \<and> bytes_kept ((payload_of s)(p := None)) (bytes s) (bytes s'))"
proof -
  obtain m where m: "meta_of (Some p) s = Inr (p - sizeof_md, m)" "msize m = c"
    using meta_of_payload [OF assms(3)] by blast
  obtain r s1 where a: "smalloc e n s = Some (Inr (r, s1))" "heap_ok s1"
    and r: "case r of None \<Rightarrow> payload_of s1 = payload_of s
      | Some q \<Rightarrow> payload_of s q = None \<and> (\<exists>c \<ge> n. payload_of s1 = (payload_of s)(q \<mapsto> c))"
    using smalloc_law [OF assms(1,2)] by blast
  have b: "bytes s1 = bytes s" using smalloc_bytes [OF assms(1,2) a(1)] .
  show ?thesis
  proof (cases r)
    case None
    then show ?thesis using a r b m assms(4,5) by (simp add: srealloc_def Srealloc_def Malloc_valid)
  next
    case (Some q)
    let ?s = "s1\<lparr>bytes := copy_bytes q p c (bytes s)\<rparr>"
    obtain c' where c': "payload_of s q = None" "n \<le> c'" "payload_of s1 = (payload_of s)(q \<mapsto> c')"
      using r Some by auto
    have pq: "p \<noteq> q" using assms(3) c'(1) by auto
    then have "payload_of ?s p \<noteq> None" using c'(3) assms(3) by simp
    then obtain s2 where s2: "sfree (Some p) ?s = Inr s2" "heap_ok s2" "payload_of s2 = (payload_of s1)(p := None)"
      using sfree_law [of ?s p] a(2) by auto
    have b2: "bytes s2 = copy_bytes q p c (bytes s)" using Free_bytes [OF s2(1) [unfolded sfree_def]] by simp
    have dis: "payload_of s p' = Some d \<Longrightarrow> q + c \<le> p' \<or> p' + d \<le> q" for p' d
      using bh.alloc_disjoint [OF assms(1,2) a(1) [unfolded Some], of p' d] assms(4) by auto
    have "srealloc e (Some p) n s = Some (Inr (Some q, s2))"
      using a(1) b m Some s2(1) assms(4,5) by (simp add: srealloc_def Srealloc_def Malloc_valid sfree_def)
    moreover have "payload_of s2 = (payload_of s)(p := None, q \<mapsto> c')"
      using s2(3) c'(3) pq by (simp add: fun_upd_twist)
    moreover have "bytes_kept ((payload_of s)(p := None)) (bytes s) (bytes s2)"
      unfolding b2 by (rule bytes_kept_copy) (use dis in \<open>auto split: if_splits\<close>)
    moreover have "\<forall>i < min c n. bytes s2 (q + i) = bytes s (p + i)" by (simp add: b2 copy_bytes_def)
    ultimately show ?thesis using s2(2) c'(2) by (intro exI [of _ "Some q"] exI [of _ s2]) auto
  qed
qed

text \<open>
  Claim C30. \<open>srealloc\<close> of a live block to a valid size returns NULL and leaves every block and byte as
  it was, or returns a block of at least that size that holds the old contents, up to the smaller
  of the two sizes; the old block is no longer live unless it is the one returned, and the
  contents of every other live block are untouched.
\<close>

theorem srealloc_keeps_contents:
  assumes "heap_ok s" and "sbrk_ok s e n" and "payload_of s p = Some c" and "0 < n" and "n \<le> MAX_SIZE_TO_ALLOCATE"
  shows "\<exists>r s'. srealloc e (Some p) n s = Some (Inr (r, s')) \<and> heap_ok s' \<and>
    (case r of None \<Rightarrow> payload_of s' = payload_of s \<and> bytes s' = bytes s
     | Some q \<Rightarrow> (\<exists>c' \<ge> n. payload_of s' = (payload_of s)(p := None, q \<mapsto> c')) \<and>
         (\<forall>i < min c n. bytes s' (q + i) = bytes s (p + i)) \<and> bytes_kept ((payload_of s)(p := None)) (bytes s) (bytes s'))"
proof (cases "n \<le> c")
  case True
  obtain m where "meta_of (Some p) s = Inr (p - sizeof_md, m)" "msize m = c"
    using meta_of_payload [OF assms(3)] by blast
  then have "srealloc e (Some p) n s = Some (Inr (Some p, s))"
    using True assms(4,5) by (simp add: srealloc_def Srealloc_def)
  moreover have "payload_of s = (payload_of s)(p := None, p \<mapsto> c)" using assms(3) by auto
  ultimately show ?thesis using assms(1) True
    by (intro exI [of _ "Some p"] exI [of _ s]) (auto simp: bytes_kept_def)
next
  case False
  then show ?thesis using srealloc_moves [OF assms(1-3)] assms(5) by simp
qed

text \<open>
  \<open>scalloc\<close> returns NULL or a new block of which all bytes are zero up to the product of its
  arguments as the machine computes it, modulo \<open>2^64\<close>; no other live block changes.
\<close>

theorem scalloc_zeroes:
  assumes "heap_ok s" and "sbrk_ok s e n" and "0 < num * n mod 2 ^ 64"
  shows "\<exists>r s'. scalloc e num n s = Some (Inr (r, s')) \<and> heap_ok s' \<and>
    (case r of None \<Rightarrow> payload_of s' = payload_of s \<and> bytes s' = bytes s
     | Some q \<Rightarrow> payload_of s q = None \<and> (\<exists>c \<ge> num * n mod 2 ^ 64. payload_of s' = (payload_of s)(q \<mapsto> c)) \<and>
         (\<forall>i < num * n mod 2 ^ 64. bytes s' (q + i) = CHR 0x00) \<and> bytes_kept (payload_of s) (bytes s) (bytes s'))"
proof -
  define t where "t = num * n mod 2 ^ 64"
  have pos: "0 < n" "0 < num" "0 < t" using assms(3) by (auto simp: t_def intro!: gr0I)
  show ?thesis
  proof (cases "t \<le> MAX_SIZE_TO_ALLOCATE")
    case False
    then show ?thesis using assms(1) by (auto simp: scalloc_def t_def Let_def)
  next
    case True
    have env: "sbrk_ok s e t" using assms(2) by (simp add: sbrk_ok_def)
    obtain r s1 where a: "smalloc e t s = Some (Inr (r, s1))" "heap_ok s1"
      and r: "case r of None \<Rightarrow> payload_of s1 = payload_of s
        | Some q \<Rightarrow> payload_of s q = None \<and> (\<exists>c \<ge> t. payload_of s1 = (payload_of s)(q \<mapsto> c))"
      using smalloc_law [OF assms(1) env] by blast
    have b: "bytes s1 = bytes s" using smalloc_bytes [OF assms(1) env a(1)] .
    have sc: "scalloc e num n s = (case r of None \<Rightarrow> Some (Inr (None, s1))
        | Some q \<Rightarrow> Some (Inr (Some q, s1\<lparr>bytes := fill_bytes q t (bytes s)\<rparr>)))"
      using pos True a(1) b unfolding scalloc_def Let_def t_def [symmetric]
      by (simp add: Malloc_valid split: option.splits)
    show ?thesis
    proof (cases r)
      case None
      then show ?thesis using sc r b a(2) by simp
    next
      case (Some q)
      have "bytes_kept (payload_of s) (bytes s) (fill_bytes q t (bytes s))"
        using bh.alloc_disjoint [OF assms(1) env a(1) [unfolded Some]] by (rule bytes_kept_fill)
      then show ?thesis using sc r a(2) Some unfolding t_def [symmetric]
        by (auto simp: fill_bytes_def)
    qed
  qed
qed

section \<open>Error behaviour\<close>

definition empty_heap :: MemList where
  "empty_heap = \<lparr>head = None, meta = Map.empty, bytes = (\<lambda>_. CHR 0x2A)\<rparr>"

text \<open>
  \<open>num * size\<close> is not checked for overflow: asked for 4 objects of \<open>2^62 + 1\<close> bytes
  each, \<open>scalloc\<close> on an empty heap returns a block of 4 bytes. And \<open>sfree\<close> of NULL, which
  free of the C library ignores, writes through an address that holds no block, on every heap.
\<close>

theorem scalloc_overflow_and_free_null:
  "(\<exists>s'. scalloc (Some 0) 4 (2 ^ 62 + 1) empty_heap = Some (Inr (Some sizeof_md, s')) \<and>
      payload_of s' = [sizeof_md \<mapsto> 4]) \<and>
   sfree None s = Inl (UB Null_deref)"
proof -
  have "(4 * (2 ^ 62 + 1)) mod 2 ^ 64 = (4::nat)" by simp
  then show ?thesis
    by (auto simp: scalloc_def empty_heap_def MAX_SIZE_TO_ALLOCATE_def Malloc_def first_fit.simps append_block_def
        payload_of_def sizeof_md_def sfree_def Free_def meta_of_def fun_eq_iff)
qed

section \<open>A concrete heap\<close>

definition demo_heap :: MemList where
  "demo_heap = \<lparr>head = Some 0,
     meta = [0 \<mapsto> \<lparr>msize = 8, is_free = False, next_md = Some 40, prev_md = None\<rparr>,
             40 \<mapsto> \<lparr>msize = 16, is_free = True, next_md = Some 88, prev_md = Some 0\<rparr>,
             88 \<mapsto> \<lparr>msize = 4, is_free = False, next_md = None, prev_md = Some 40\<rparr>],
     bytes = (\<lambda>i. if i < 40 then CHR ''a'' else CHR ''b'')\<rparr>"

lemma demo_rep: "heap_rep demo_heap [(0, 8, False), (40, 16, True), (88, 4, False)] 124"
  by (auto simp: heap_rep_def demo_heap_def sizeof_md_def)

lemma demo_ok: "heap_ok demo_heap" "sbrk_ok demo_heap (Some 124) n"
  using demo_rep unfolding heap_ok_def sbrk_ok_def by blast+

lemma demo_payload: "payload_of demo_heap 32 = Some 8"
  by (simp add: payload_of_def demo_heap_def sizeof_md_def)


theorem smalloc_first_fit_witness:
  "\<exists>s'. smalloc (Some 124) 20 demo_heap = Some (Inr (Some 156, s')) \<and>
    heap_rep s' [(0, 8, False), (40, 16, True), (88, 4, False), (124, 20, False)] 176"
  using smalloc_first_fit [OF demo_rep, of "Some 124" 20]
  by (auto simp: sizeof_md_def MAX_SIZE_TO_ALLOCATE_def)

theorem heap_statistics_witness:
  "num_free_blocks demo_heap = Some (Inr 1) \<and> num_allocated_bytes demo_heap = Some (Inr 28)"
  using heap_statistics [OF demo_rep] by simp

lemma map_upt_cong: "\<forall>i < n. f i = g i \<Longrightarrow> map f [0..<n] = map g [0..<n]"
  by simp

theorem srealloc_keeps_contents_witness:
  "\<exists>r s'. srealloc (Some 124) (Some 32) 12 demo_heap = Some (Inr (r, s')) \<and> heap_ok s' \<and>
    (case r of None \<Rightarrow> bytes s' = bytes demo_heap
     | Some q \<Rightarrow> map (\<lambda>i. bytes s' (q + i)) [0..<8] = map (\<lambda>i. bytes demo_heap (32 + i)) [0..<8])"
proof -
  have "(12::nat) \<le> MAX_SIZE_TO_ALLOCATE" by (simp add: MAX_SIZE_TO_ALLOCATE_def)
  from srealloc_keeps_contents [OF demo_ok demo_payload _ this] obtain r s' where
    "srealloc (Some 124) (Some 32) 12 demo_heap = Some (Inr (r, s'))" "heap_ok s'"
    and r: "case r of None \<Rightarrow> bytes s' = bytes demo_heap | Some q \<Rightarrow> \<forall>i < 8. bytes s' (q + i) = bytes demo_heap (32 + i)"
    by (fastforce split: option.splits)
  moreover from r have "case r of None \<Rightarrow> bytes s' = bytes demo_heap
     | Some q \<Rightarrow> map (\<lambda>i. bytes s' (q + i)) [0..<8] = map (\<lambda>i. bytes demo_heap (32 + i)) [0..<8]"
    by (cases r) (simp, simp only: option.case map_upt_cong)
  ultimately show ?thesis by blast
qed

theorem scalloc_zeroes_witness:
  "\<exists>r s'. scalloc (Some 124) 3 5 demo_heap = Some (Inr (r, s')) \<and> heap_ok s' \<and>
    (case r of None \<Rightarrow> bytes s' = bytes demo_heap
     | Some q \<Rightarrow> map (\<lambda>i. bytes s' (q + i)) [0..<15] = map (\<lambda>_. CHR 0x00) [0..<15])"
proof -
  have "(3 * 5) mod 2 ^ 64 = (15::nat)" by simp
  with scalloc_zeroes [OF demo_ok, of 3 5] obtain r s' where
    "scalloc (Some 124) 3 5 demo_heap = Some (Inr (r, s'))" "heap_ok s'"
    and r: "case r of None \<Rightarrow> bytes s' = bytes demo_heap | Some q \<Rightarrow> \<forall>i < 15. bytes s' (q + i) = CHR 0x00"
    by (fastforce split: option.splits)
  moreover from r have "case r of None \<Rightarrow> bytes s' = bytes demo_heap
     | Some q \<Rightarrow> map (\<lambda>i. bytes s' (q + i)) [0..<15] = map (\<lambda>_. CHR 0x00) [0..<15]"
    by (cases r) (simp, simp only: option.case map_upt_cong)
  ultimately show ?thesis by blast
qed

end
