(* ===== verification/Buddy.thy ===== *)
theory Buddy
  imports Allocator "HOL-Library.Word"
begin

unbundle bit_operations_syntax

text \<open>
  The buddy allocator (hw4/wet/test2/malloc_3.cpp): 32 blocks of 128 KiB, split in halves down to
  128 bytes, and anonymous mappings for larger requests. As in the theory of malloc_2 the metadata
  is a map from addresses; what a merged block leaves behind stays in the map, as it stays in
  memory. What the system answers to \<open>sbrk\<close> and \<open>mmap\<close> is an argument.
\<close>

section \<open>State\<close>

definition MAX_ORDER :: nat where "MAX_ORDER = 10"
definition MAX_SIZE :: nat where "MAX_SIZE = 128 * 1024"
definition START_SIZE :: nat where "START_SIZE = 128"

record MallocMetadata3 =
  cookie :: nat
  bsz :: nat
  is_free3 :: bool
  is_mmap :: bool
  order :: int
  nxt :: "nat option"
  prv :: "nat option"

definition sizeof_md3 :: nat where "sizeof_md3 = 40"

record MemList3 =
  head3 :: "nat option"
  MMAPhead :: "nat option"
  freed :: "nat list list"
  EXPECTED_COOKIE_VALUE :: nat
  meta3 :: "nat \<rightharpoonup> MallocMetadata3"
  bytes3 :: "nat \<Rightarrow> char"

definition MemList_ctor :: "nat \<Rightarrow> (nat \<Rightarrow> char) \<Rightarrow> MemList3" where
  "MemList_ctor c mem = \<lparr>head3 = None, MMAPhead = None, freed = replicate (MAX_ORDER + 1) [],
     EXPECTED_COOKIE_VALUE = c, meta3 = Map.empty, bytes3 = mem\<rparr>"

text \<open>The current break, whether \<open>sbrk\<close> succeeds, and what \<open>mmap\<close> returns.\<close>

record env3 =
  brk :: nat
  sbrk_succeeds :: bool
  mmap_result :: "nat option"

section \<open>Accesses\<close>

definition load :: "nat \<Rightarrow> MemList3 \<Rightarrow> MallocMetadata3 res" where
  "load a s = deref (meta3 s) (Some a)"

definition upd :: "nat \<Rightarrow> (MallocMetadata3 \<Rightarrow> MallocMetadata3) \<Rightarrow> MemList3 \<Rightarrow> MemList3 res" where
  "upd a f s = rbind (load a s) (\<lambda>m. Inr (s\<lparr>meta3 := (meta3 s)(a \<mapsto> f m)\<rparr>))"

definition set_prev :: "nat option \<Rightarrow> nat \<Rightarrow> MemList3 \<Rightarrow> MemList3 res" where
  "set_prev p a s = (case p of None \<Rightarrow> Inr s | Some q \<Rightarrow> upd q (\<lambda>m. m\<lparr>prv := Some a\<rparr>) s)"

text \<open>The array of free lists, indexed by an \<open>int\<close>.\<close>

definition freed_upd :: "int \<Rightarrow> (nat list \<Rightarrow> nat list) \<Rightarrow> MemList3 \<Rightarrow> MemList3 res" where
  "freed_upd i f s =
     (if 0 \<le> i \<and> nat i < length (freed s) then Inr (s\<lparr>freed := (freed s)[nat i := f (freed s ! nat i)]\<rparr>)
      else Inl (UB Bad_bound))"

definition pow2 :: "int \<Rightarrow> int res" where
  "pow2 i = (if 0 \<le> i \<and> i < 31 then Inr (2 ^ nat i) else Inl (UB Int_overflow))"

definition scaled :: "int \<Rightarrow> nat res" where
  "scaled i = rbind (pow2 i) (\<lambda>v. if v * int START_SIZE < 2 ^ 31 then Inr (nat v * START_SIZE) else Inl (UB Int_overflow))"

text \<open>\<open>(intptr_t) addr ^ pow2(order) * START_SIZE\<close> and \<open>pow2(order) * START_SIZE - sizeof(MallocMetadata)\<close>.\<close>

definition buddy_of :: "nat \<Rightarrow> int \<Rightarrow> nat res" where
  "buddy_of addr i = rbind (scaled i) (\<lambda>v. Inr (addr XOR v))"

definition order_size :: "int \<Rightarrow> nat res" where
  "order_size i = rbind (scaled i) (\<lambda>v. Inr ((v + 2 ^ 64 - sizeof_md3) mod 2 ^ 64))"

section \<open>Statistics\<close>

definition GetNumberOfFreeBlocks_3 :: "MemList3 \<Rightarrow> nat comp" where
  "GetNumberOfFreeBlocks_3 s = walk_list nxt (meta3 s) (\<lambda>_ m n. if is_free3 m then n + 1 else n) (head3 s) 0"

definition GetNumberOfFreeBytes_3 :: "MemList3 \<Rightarrow> nat comp" where
  "GetNumberOfFreeBytes_3 s = walk_list nxt (meta3 s) (\<lambda>_ m n. if is_free3 m then n + bsz m else n) (head3 s) 0"

definition GetNumberOfAllocatedBlocks_3 :: "MemList3 \<Rightarrow> nat comp" where
  "GetNumberOfAllocatedBlocks_3 s =
     cbind (walk_list nxt (meta3 s) (\<lambda>_ m n. n + 1) (head3 s) 0) (\<lambda>counter.
     walk_list nxt (meta3 s) (\<lambda>_ m n. n + 1) (MMAPhead s) counter)"

definition GetNumberOfAllocatedBytes_3 :: "MemList3 \<Rightarrow> int comp" where
  "GetNumberOfAllocatedBytes_3 s =
     (case head3 s of None \<Rightarrow> Some (Inr 0)
      | Some first_ptr \<Rightarrow>
          cbind (walk_list nxt (meta3 s) (\<lambda>a m (counter, last_ptr). (counter + 1, a)) (Some first_ptr) (0, first_ptr))
            (\<lambda>(counter, last_ptr).
          cbind (Some (load last_ptr s)) (\<lambda>m.
          walk_list nxt (meta3 s) (\<lambda>_ m n. (n + int (bsz m)) mod 2 ^ 64) (MMAPhead s)
            ((int last_ptr - int first_ptr + int (bsz m) - int sizeof_md3 * (counter - 1)) mod 2 ^ 64))))"

definition num_free_blocks_3 :: "MemList3 \<Rightarrow> nat comp" where
  "num_free_blocks_3 s = GetNumberOfFreeBlocks_3 s"

definition num_free_bytes_3 :: "MemList3 \<Rightarrow> nat comp" where
  "num_free_bytes_3 s = GetNumberOfFreeBytes_3 s"

definition num_allocated_blocks_3 :: "MemList3 \<Rightarrow> nat comp" where
  "num_allocated_blocks_3 s = GetNumberOfAllocatedBlocks_3 s"

definition num_allocated_bytes_3 :: "MemList3 \<Rightarrow> int comp" where
  "num_allocated_bytes_3 s = GetNumberOfAllocatedBytes_3 s"

definition num_meta_data_bytes_3 :: "MemList3 \<Rightarrow> nat comp" where
  "num_meta_data_bytes_3 s = cbind (GetNumberOfAllocatedBlocks_3 s) (\<lambda>n. Some (Inr (n * sizeof_md3)))"

definition size_meta_data_3 :: nat where
  "size_meta_data_3 = sizeof_md3"

section \<open>Free lists\<close>

text \<open>
  \<open>std::lower_bound\<close> on a list that is kept sorted: the position before the first address that is
  not smaller.
\<close>

definition insert_sorted :: "nat \<Rightarrow> nat list \<Rightarrow> nat list" where
  "insert_sorted a xs = takeWhile (\<lambda>x. x < a) xs @ a # dropWhile (\<lambda>x. x < a) xs"

definition AddToFreeOrder :: "nat \<Rightarrow> int \<Rightarrow> MemList3 \<Rightarrow> MemList3 res" where
  "AddToFreeOrder addr i s = freed_upd i (insert_sorted addr) s"

text \<open>The loop of \<open>GetFreeBlock\<close> over the orders \<open>is\<close> still to try.\<close>

fun find_order :: "nat \<Rightarrow> nat list list \<Rightarrow> nat list \<Rightarrow> nat option res" where
  "find_order sz fl [] = Inr None"
| "find_order sz fl (i # is) =
     rbind (order_size (int i)) (\<lambda>n.
     if sz \<le> n then
       (if i < length fl then if fl ! i \<noteq> [] then Inr (Some i) else find_order sz fl is
        else Inl (UB Bad_bound))
     else find_order sz fl is)"

definition GetFreeBlock :: "nat \<Rightarrow> MemList3 \<Rightarrow> (nat option \<times> MemList3) res" where
  "GetFreeBlock sz s =
     rbind (find_order sz (freed s) [0..<11]) (\<lambda>r.
     case r of None \<Rightarrow> Inr (None, s)
     | Some i \<Rightarrow> Inr (Some (hd (freed s ! i)), s\<lparr>freed := (freed s)[i := tl (freed s ! i)]\<rparr>))"

section \<open>Splitting\<close>

text \<open>One turn of the loop of \<open>SplitIfPossible\<close>; \<open>m\<close> is the metadata of \<open>addr\<close> at its start.\<close>

definition split_step :: "nat \<Rightarrow> MallocMetadata3 \<Rightarrow> MemList3 \<Rightarrow> MemList3 res" where
  "split_step addr m s =
     rbind (buddy_of addr (order m - 1)) (\<lambda>buddy.
     rbind (order_size (order m - 1)) (\<lambda>sz.
     rbind (AddToFreeOrder buddy (order m - 1)
       (s\<lparr>meta3 := (meta3 s)(buddy \<mapsto> \<lparr>cookie = EXPECTED_COOKIE_VALUE s, bsz = sz, is_free3 = True,
          is_mmap = False, order = order m - 1, nxt = nxt m, prv = Some addr\<rparr>)\<rparr>)) (\<lambda>s1.
     rbind (set_prev (nxt m) buddy s1) (\<lambda>s2.
     upd addr (\<lambda>m. m\<lparr>order := order m - 1, nxt := Some buddy, bsz := sz\<rparr>) s2))))"

partial_function (option) split_loop :: "nat \<Rightarrow> nat \<Rightarrow> MemList3 \<Rightarrow> MemList3 comp" where
  "split_loop addr sz s =
     cbind (Some (load addr s)) (\<lambda>m.
     if order m > 0 \<and> sz \<le> (bsz m + 2 ^ 64 - sizeof_md3) mod 2 ^ 64 div 2
     then cbind (Some (split_step addr m s)) (\<lambda>s1. split_loop addr sz s1)
     else Some (Inr s))"

definition SplitIfPossible :: "nat \<Rightarrow> nat \<Rightarrow> MemList3 \<Rightarrow> MemList3 comp" where
  "SplitIfPossible addr sz s =
     cbind (Some (load addr s)) (\<lambda>m.
     if cookie m \<noteq> EXPECTED_COOKIE_VALUE s then Some (Inl (Exit 0xDEADBEEF []))
     else cbind (split_loop addr sz s) (\<lambda>s1. Some (upd addr (\<lambda>m. m\<lparr>is_free3 := False\<rparr>) s1)))"

section \<open>Merging\<close>

text \<open>
  One turn of the loops of \<open>UnionIfPossible\<close> and \<open>SreallocUnion\<close>: \<open>low\<close> takes over \<open>high\<close>, and both
  leave the free list of the order \<open>i\<close> the buddy has.
\<close>

definition absorb :: "nat \<Rightarrow> nat \<Rightarrow> int \<Rightarrow> MemList3 \<Rightarrow> MemList3 res" where
  "absorb low high i s =
     rbind (freed_upd i (\<lambda>l. removeAll high (removeAll low l)) s) (\<lambda>s1.
     rbind (load high s1) (\<lambda>hm.
     rbind (load low s1) (\<lambda>lm.
     rbind (order_size (order lm + 1)) (\<lambda>sz.
     rbind (upd low (\<lambda>m. m\<lparr>nxt := nxt hm, order := order lm + 1, bsz := sz, is_free3 := True\<rparr>) s1) (\<lambda>s2.
     set_prev (nxt hm) low s2)))))"

text \<open>The loops themselves. \<open>go\<close> is what \<open>SreallocUnion\<close> asks of the block in addition.\<close>

partial_function (option) merge_loop ::
    "(MallocMetadata3 \<Rightarrow> bool) \<Rightarrow> nat \<Rightarrow> MemList3 \<Rightarrow> (nat \<times> nat \<times> MemList3) comp" where
  "merge_loop go addr s =
     cbind (Some (load addr s)) (\<lambda>m.
     cbind (Some (buddy_of addr (order m))) (\<lambda>buddy.
     cbind (Some (load buddy s)) (\<lambda>bm.
     if is_free3 bm \<and> order bm < 10 \<and> go m then
       if cookie bm \<noteq> EXPECTED_COOKIE_VALUE s \<or> cookie m \<noteq> EXPECTED_COOKIE_VALUE s
       then Some (Inl (Exit 0xDEADBEEF []))
       else if buddy > addr then cbind (Some (absorb addr buddy (order bm) s)) (\<lambda>s1. merge_loop go addr s1)
       else cbind (Some (absorb buddy addr (order bm) s)) (\<lambda>s1. merge_loop go buddy s1)
     else Some (Inr (addr, buddy, s)))))"

definition UnionIfPossible :: "nat \<Rightarrow> MemList3 \<Rightarrow> MemList3 comp" where
  "UnionIfPossible addr s =
     cbind (Some (load addr s)) (\<lambda>m.
     if is_mmap m then Some (Inr s)
     else cbind (merge_loop (\<lambda>_. True) addr s) (\<lambda>(a, buddy, s1).
       cbind (Some (upd a (\<lambda>m. m\<lparr>is_free3 := True\<rparr>) s1)) (\<lambda>s2.
       cbind (Some (load a s2)) (\<lambda>m1. Some (AddToFreeOrder a (order m1) s2)))))"

text \<open>
  The loop of \<open>CheckIfUnionIsPossible\<close>: the pointers \<open>fake_addr\<close>, \<open>fake_buddy\<close> and the local copies of
  their metadata. The copies \<open>fake_addr_mm.next\<close>, \<open>fake_buddy_mm.next\<close> are never read.
\<close>

partial_function (option) check_loop ::
    "nat \<Rightarrow> nat \<Rightarrow> nat \<Rightarrow> MallocMetadata3 \<Rightarrow> nat \<Rightarrow> MallocMetadata3 \<Rightarrow> MemList3 \<Rightarrow> MallocMetadata3 comp" where
  "check_loop addr sz fake_addr fam fake_buddy fbm s =
     (if is_free3 fbm \<and> order fbm < 10 \<and> bsz fam < sz then
        if cookie fbm \<noteq> EXPECTED_COOKIE_VALUE s \<or> cookie fam \<noteq> EXPECTED_COOKIE_VALUE s
        then Some (Inl (Exit 0xDEADBEEF []))
        else if fake_buddy > fake_addr then
          cbind (Some (order_size (order fam + 1))) (\<lambda>n.
          cbind (Some (buddy_of addr (order fam + 1))) (\<lambda>b.
          cbind (Some (load b s)) (\<lambda>bm.
          check_loop addr sz fake_addr (fam\<lparr>order := order fam + 1, bsz := n\<rparr>) b bm s)))
        else
          cbind (Some (load fake_buddy s)) (\<lambda>am.
          cbind (Some (buddy_of addr (order am))) (\<lambda>b.
          cbind (Some (load b s)) (\<lambda>bm.
          check_loop addr sz fake_buddy am b bm s)))
      else Some (Inr fam))"

definition CheckIfUnionIsPossible :: "nat \<Rightarrow> nat \<Rightarrow> MemList3 \<Rightarrow> bool comp" where
  "CheckIfUnionIsPossible addr sz s =
     cbind (Some (load addr s)) (\<lambda>am.
     cbind (Some (buddy_of addr (order am))) (\<lambda>buddy.
     cbind (Some (load buddy s)) (\<lambda>bm.
     cbind (check_loop addr sz addr am buddy bm s) (\<lambda>fam. Some (Inr (bsz fam \<ge> sz))))))"

definition SreallocUnion :: "nat \<Rightarrow> nat \<Rightarrow> MemList3 \<Rightarrow> (nat \<times> MemList3) comp" where
  "SreallocUnion addr sz s =
     cbind (merge_loop (\<lambda>m. bsz m < sz) addr s) (\<lambda>(a, buddy, s1).
     cbind (Some (upd a (\<lambda>m. m\<lparr>is_free3 := False\<rparr>) s1)) (\<lambda>s2.
     cbind (Some (load a s2)) (\<lambda>m.
     cbind (Some (AddToFreeOrder buddy (order m) s2)) (\<lambda>s3. Some (Inr (a, s3))))))"

section \<open>Allocation\<close>

definition block_md :: "nat \<Rightarrow> nat \<Rightarrow> nat \<Rightarrow> MallocMetadata3" where
  "block_md c base i = \<lparr>cookie = c, bsz = MAX_SIZE - sizeof_md3, is_free3 = True, is_mmap = False,
     order = int MAX_ORDER, nxt = (if i = 31 then None else Some (base + (i + 1) * MAX_SIZE)),
     prv = (if i = 0 then None else Some (base + (i - 1) * MAX_SIZE))\<rparr>"

definition arena :: nat where "arena = 32 * 128 * 1024"

text \<open>
  The first call lays out the arena at the next multiple of its size. The memory is there only
  when \<open>sbrk\<close> was called, which it is not when the break is aligned already, and succeeded; its
  result is not looked at.
\<close>

definition init_heap :: "env3 \<Rightarrow> MemList3 \<Rightarrow> MemList3 res" where
  "init_heap e s =
     (let alignmentOffset = brk e mod arena;
          bytesToAlign = (if alignmentOffset = 0 then 0 else arena - alignmentOffset);
          base = brk e + bytesToAlign in
      if bytesToAlign > 0 \<and> sbrk_succeeds e then
        rbind (freed_upd (int MAX_ORDER) (\<lambda>l. l @ map (\<lambda>i. base + i * MAX_SIZE) [0..<32]) s) (\<lambda>s1.
        Inr (s1\<lparr>head3 := Some base,
          meta3 := fold (\<lambda>i h. h(base + i * MAX_SIZE \<mapsto> block_md (EXPECTED_COOKIE_VALUE s) base i)) [0..<32] (meta3 s)\<rparr>))
      else Inl (UB Bad_deref))"

definition mmap_md :: "nat \<Rightarrow> nat \<Rightarrow> nat option \<Rightarrow> MallocMetadata3" where
  "mmap_md c sz p = \<lparr>cookie = c, bsz = sz, is_free3 = False, is_mmap = True, order = -1, nxt = None, prv = p\<rparr>"

definition mmap_block :: "nat \<Rightarrow> nat \<Rightarrow> MemList3 \<Rightarrow> MemList3 comp" where
  "mmap_block a sz s =
     (case MMAPhead s of
        None \<Rightarrow> Some (Inr (s\<lparr>MMAPhead := Some a, meta3 := (meta3 s)(a \<mapsto> mmap_md (EXPECTED_COOKIE_VALUE s) sz None)\<rparr>))
      | Some h \<Rightarrow>
          cbind (walk_list nxt (meta3 s) (\<lambda>q m _. q) (Some h) h) (\<lambda>last_ptr.
          cbind (Some (upd last_ptr (\<lambda>m. m\<lparr>nxt := Some a\<rparr>) s)) (\<lambda>s1.
          Some (Inr (s1\<lparr>meta3 := (meta3 s1)(a \<mapsto> mmap_md (EXPECTED_COOKIE_VALUE s) sz (Some last_ptr))\<rparr>)))))"

definition Malloc_3 :: "env3 \<Rightarrow> nat \<Rightarrow> MemList3 \<Rightarrow> (nat option \<times> MemList3) comp" where
  "Malloc_3 e sz s0 =
     cbind (Some (if head3 s0 = None then init_heap e s0 else Inr s0)) (\<lambda>s.
     if sz = 0 \<or> sz > MAX_SIZE_TO_ALLOCATE then Some (Inr (None, s))
     else if sz \<ge> MAX_SIZE then
       (case mmap_result e of None \<Rightarrow> Some (Inr (None, s))
        | Some a \<Rightarrow> cbind (mmap_block a sz s) (\<lambda>s1. Some (Inr (Some (a + sizeof_md3), s1))))
     else cbind (Some (GetFreeBlock sz s)) (\<lambda>(r, s1).
       case r of None \<Rightarrow> Some (Inr (None, s1))
       | Some a \<Rightarrow> cbind (SplitIfPossible a sz s1) (\<lambda>s2. Some (Inr (Some (a + sizeof_md3), s2)))))"

section \<open>Release\<close>

text \<open>The loop that looks for the predecessor of a mapping.\<close>

partial_function (option) find_mmap ::
    "nat \<Rightarrow> nat option \<Rightarrow> nat option \<Rightarrow> MemList3 \<Rightarrow> (nat \<times> nat option) comp" where
  "find_mmap start_ptr curr_ptr last_ptr s =
     (if curr_ptr = Some start_ptr then Some (Inr (start_ptr, last_ptr))
      else cbind (Some (deref (meta3 s) curr_ptr)) (\<lambda>m. find_mmap start_ptr (nxt m) curr_ptr s))"

definition free_mmap :: "nat \<Rightarrow> MemList3 \<Rightarrow> MemList3 comp" where
  "free_mmap start_ptr s =
     (if MMAPhead s = Some start_ptr then
        Some (rbind (load start_ptr s) (\<lambda>m. Inr (s\<lparr>MMAPhead := nxt m\<rparr>)))
      else cbind (find_mmap start_ptr (MMAPhead s) (MMAPhead s) s) (\<lambda>(curr_ptr, last_ptr).
        cbind (Some (load curr_ptr s)) (\<lambda>m.
        cbind (Some (rbind (deref (meta3 s) last_ptr) (\<lambda>_. upd (the last_ptr) (\<lambda>l. l\<lparr>nxt := nxt m\<rparr>) s))) (\<lambda>s1.
        cbind (Some (case nxt m of None \<Rightarrow> Inr s1 | Some q \<Rightarrow> upd q (\<lambda>k. k\<lparr>prv := last_ptr\<rparr>) s1)) (\<lambda>s2.
        if cookie m \<noteq> EXPECTED_COOKIE_VALUE s then Some (Inl (Exit 0xDEADBEEF []))
        else Some (Inr (s2\<lparr>meta3 := (meta3 s2)(start_ptr := None)\<rparr>)))))))"

definition Free_3 :: "nat option \<Rightarrow> MemList3 \<Rightarrow> MemList3 comp" where
  "Free_3 p s =
     (case p of None \<Rightarrow> Some (Inr s)
      | Some q \<Rightarrow> cbind (Some (load (q - sizeof_md3) s)) (\<lambda>m.
          if is_mmap m then free_mmap (q - sizeof_md3) s else UnionIfPossible (q - sizeof_md3) s))"

section \<open>Reallocation and the interface\<close>

definition Srealloc_3 :: "env3 \<Rightarrow> nat \<Rightarrow> nat \<Rightarrow> MemList3 \<Rightarrow> (nat option \<times> MemList3) comp" where
  "Srealloc_3 e oldp sz s =
     (let start_ptr = oldp - sizeof_md3 in
      cbind (Some (load start_ptr s)) (\<lambda>m.
      if sz \<le> bsz m then Some (Inr (Some oldp, s))
      else cbind (CheckIfUnionIsPossible start_ptr sz s) (\<lambda>possible.
        if possible then
          cbind (SreallocUnion start_ptr sz s) (\<lambda>(a, s1).
          Some (Inr (Some (a + sizeof_md3), s1\<lparr>bytes3 := copy_bytes (a + sizeof_md3) oldp (bsz m) (bytes3 s1)\<rparr>)))
        else
          cbind (Malloc_3 e sz s) (\<lambda>(r, s1).
          case r of None \<Rightarrow> Some (Inr (None, s1))
          | Some a \<Rightarrow> cbind (Free_3 (Some oldp) (s1\<lparr>bytes3 := copy_bytes a oldp (bsz m) (bytes3 s1)\<rparr>)) (\<lambda>s2.
              Some (Inr (Some a, s2)))))))"

definition smalloc_3 :: "env3 \<Rightarrow> nat \<Rightarrow> MemList3 \<Rightarrow> (nat option \<times> MemList3) comp" where
  "smalloc_3 e sz s = Malloc_3 e sz s"

definition scalloc_3 :: "env3 \<Rightarrow> nat \<Rightarrow> nat \<Rightarrow> MemList3 \<Rightarrow> (nat option \<times> MemList3) comp" where
  "scalloc_3 e num sz s =
     (let total_size = num * sz mod 2 ^ 64 in
      if sz = 0 \<or> num = 0 \<or> total_size > MAX_SIZE_TO_ALLOCATE then Some (Inr (None, s))
      else cbind (Malloc_3 e total_size s) (\<lambda>(r, s1).
        case r of None \<Rightarrow> Some (Inr (None, s1))
        | Some a \<Rightarrow> Some (Inr (Some a, s1\<lparr>bytes3 := fill_bytes a total_size (bytes3 s1)\<rparr>))))"

definition sfree_3 :: "nat option \<Rightarrow> MemList3 \<Rightarrow> MemList3 comp" where
  "sfree_3 p s = Free_3 p s"

definition srealloc_3 :: "env3 \<Rightarrow> nat option \<Rightarrow> nat \<Rightarrow> MemList3 \<Rightarrow> (nat option \<times> MemList3) comp" where
  "srealloc_3 e oldp sz s =
     (if sz = 0 \<or> sz > MAX_SIZE_TO_ALLOCATE then Some (Inr (None, s))
      else case oldp of None \<Rightarrow> smalloc_3 e sz s | Some p \<Rightarrow> Srealloc_3 e p sz s)"

end
