(* ===== verification/BuddyInv.thy ===== *)
theory BuddyInv
  imports Buddy
begin

unbundle bit_operations_syntax

text \<open>
  What a state of the buddy allocator represents, and what its operations do to it: the arena
  as a list of blocks, each with its address, order and whether it is free; the free lists as a
  function of that list.
\<close>

section \<open>Sizes and buddies\<close>

definition blk :: "nat \<Rightarrow> nat" where "blk k = 2 ^ (k + 7)"

lemma blk_Suc: "blk (Suc k) = 2 * blk k"
  by (simp add: blk_def power_add)

lemma blk_ge: "128 \<le> blk k"
proof -
  have "(2::nat) ^ 7 \<le> 2 ^ (k + 7)" by (rule power_increasing) auto
  then show ?thesis by (simp add: blk_def)
qed

lemma blk_pos [simp]: "0 < blk k" "blk k \<noteq> 0"
  by (simp_all add: blk_def)

lemma blk_dvd: "j \<le> k \<Longrightarrow> blk j dvd blk k"
  by (simp add: blk_def le_imp_power_dvd)

lemma blk_le: "j \<le> k \<Longrightarrow> blk j \<le> blk k"
  by (simp add: blk_def)

lemma blk_less_iff [simp]: "blk j < blk k \<longleftrightarrow> j < k"
  by (simp add: blk_def)

lemma blk_10: "blk 10 = MAX_SIZE"
  by (simp add: blk_def MAX_SIZE_def)

lemma arena_blk: "arena = blk 15"
  by (simp add: blk_def arena_def)

lemma scaled_blk [simp]: "k < 24 \<Longrightarrow> scaled (int k) = Inr (blk k)"
proof -
  assume k: "k < 24"
  then have "(2::int) ^ k \<le> 2 ^ 23" by (intro power_increasing) auto
  with k show ?thesis by (simp add: scaled_def pow2_def START_SIZE_def blk_def power_add)
qed

lemma order_size_blk [simp]: "k < 24 \<Longrightarrow> order_size (int k) = Inr (blk k - 40)"
proof -
  assume k: "k < 24"
  then have "blk k \<le> 2 ^ 30" unfolding blk_def by (intro power_increasing) auto
  then have "(blk k + 2 ^ 64 - 40) mod 2 ^ 64 = blk k - 40"
    using blk_ge [of k] by (simp add: le_mod_geq)
  then show ?thesis using k by (simp add: order_size_def sizeof_md3_def)
qed

lemma xor_low:
  assumes "2 ^ Suc n dvd (a::nat)"
  shows "a XOR 2 ^ n = a + 2 ^ n"
proof -
  obtain q where "a = 2 ^ Suc n * q" using assms by (auto elim: dvdE)
  then have "a div 2 ^ n = 2 * q" by simp
  then have "\<not> bit a n" by (simp add: bit_iff_odd)
  then have d: "\<not> bit a i \<or> \<not> bit (2 ^ n :: nat) i" for i by (auto simp: bit_exp_iff)
  then have "a AND 2 ^ n = 0" by (intro bit_eqI) (auto simp: bit_and_iff)
  moreover have "a XOR 2 ^ n = a OR 2 ^ n" using d by (intro bit_eqI) (auto simp: bit_xor_iff bit_or_iff)
  ultimately show ?thesis by (simp add: disjunctive_add_eq_or)
qed

lemma buddy_low: "blk (Suc k) dvd a \<Longrightarrow> a XOR blk k = a + blk k"
  unfolding blk_def by (rule xor_low) simp

lemma xor_twice: "(a XOR b) XOR b = (a::nat)"
  by (simp add: xor.assoc)

text \<open>A block of order \<open>k\<close> is the lower or the upper half of a block of order \<open>k + 1\<close>.\<close>

lemma buddy_high:
  assumes "blk k dvd a" and "\<not> blk (Suc k) dvd a"
  shows "blk k \<le> a" and "a XOR blk k = a - blk k" and "blk (Suc k) dvd a - blk k"
proof -
  obtain q where q: "a = blk k * q" using assms(1) by (auto elim: dvdE)
  have "odd q" using assms(2) q by (auto simp: blk_Suc elim!: evenE)
  then obtain r where r: "q = 2 * r + 1" by (auto elim: oddE)
  then have a: "a = blk (Suc k) * r + blk k" using q by (simp add: blk_Suc algebra_simps)
  then show "blk k \<le> a" "blk (Suc k) dvd a - blk k" by simp_all
  from buddy_low [of k "blk (Suc k) * r"] have "(blk (Suc k) * r) XOR blk k = a" using a by simp
  then have "a XOR blk k = blk (Suc k) * r" using xor_twice by metis
  then show "a XOR blk k = a - blk k" using a by simp
qed

lemma buddy_dvd: "blk k dvd a \<Longrightarrow> blk k dvd a XOR blk k"
  using buddy_low [of k a] buddy_high [of k a] blk_dvd [of k "Suc k"]
  by (cases "blk (Suc k) dvd a") (auto intro: dvd_trans)

section \<open>Blocks\<close>

type_synonym bblock = "nat \<times> nat \<times> bool"

fun btiled :: "nat \<Rightarrow> bblock list \<Rightarrow> nat \<Rightarrow> bool" where
  "btiled a [] z \<longleftrightarrow> a = z"
| "btiled a ((p, k, f) # bs) z \<longleftrightarrow> p = a \<and> k \<le> 10 \<and> blk k dvd a \<and> btiled (a + blk k) bs z"

lemma btiled_append [simp]: "btiled a (us @ vs) z \<longleftrightarrow> (\<exists>m. btiled a us m \<and> btiled m vs z)"
  by (induction us arbitrary: a) auto

lemma btiled_le: "btiled a bs z \<Longrightarrow> a \<le> z"
  by (induction a bs z rule: btiled.induct) auto

lemma btiled_block:
  "btiled a bs z \<Longrightarrow> (p, k, f) \<in> set bs \<Longrightarrow> a \<le> p \<and> p + blk k \<le> z \<and> k \<le> 10 \<and> blk k dvd p"
proof (induction a bs z rule: btiled.induct)
  case (2 a q j g bs z)
  then show ?case using btiled_le [of "a + blk j" bs z] by fastforce
qed simp

lemma block_addrs_inside: "btiled base bs z \<Longrightarrow> x \<in> fst ` set bs \<Longrightarrow> base \<le> x \<and> x < z"
proof -
  assume t: "btiled base bs z" and "x \<in> fst ` set bs"
  then obtain k f where "(x, k, f) \<in> set bs" by force
  then show ?thesis using btiled_block [OF t, of x k f] blk_ge [of k] by auto
qed

lemma btiled_split:
  assumes "btiled a bs z" and "(p, k, f) \<in> set bs" and "(q, j, g) \<in> set bs"
  shows "p + blk k \<le> q \<or> q + blk j \<le> p \<or> (p, k, f) = (q, j, g)"
  using assms
proof (induction a bs z rule: btiled.induct)
  case (2 a q0 j0 g0 bs z)
  then have t: "btiled (a + blk j0) bs z" "q0 = a" by simp_all
  consider "(p, k, f) = (a, j0, g0)" "(q, j, g) = (a, j0, g0)" | "(p, k, f) = (a, j0, g0)" "(q, j, g) \<in> set bs"
    | "(p, k, f) \<in> set bs" "(q, j, g) = (a, j0, g0)" | "(p, k, f) \<in> set bs" "(q, j, g) \<in> set bs"
    using "2.prems"(2,3) t(2) by auto
  then show ?case
  proof cases
    case 2
    then show ?thesis using btiled_block [OF t(1), of q j g] by simp
  next
    case 3
    then show ?thesis using btiled_block [OF t(1), of p k f] by simp
  next
    case 4
    then show ?thesis using "2.IH" [OF t(1)] by simp
  qed simp
qed simp

lemma btiled_cover:
  "btiled a bs z \<Longrightarrow> a \<le> x \<Longrightarrow> x < z \<Longrightarrow> \<exists>p k f. (p, k, f) \<in> set bs \<and> p \<le> x \<and> x < p + blk k"
proof (induction a bs z rule: btiled.induct)
  case (2 a q j g bs z)
  show ?case
  proof (cases "x < a + blk j")
    case True
    then have "(a, j, g) \<in> set ((q, j, g) # bs) \<and> a \<le> x \<and> x < a + blk j" using "2.prems" by simp
    then show ?thesis by blast
  next
    case False
    then obtain p k f where "(p, k, f) \<in> set bs" "p \<le> x" "x < p + blk k" using 2 by auto
    then show ?thesis by (meson list.set_intros(2))
  qed
qed simp

lemma btiled_same_start:
  assumes "btiled a bs z" and "(p, k, f) \<in> set bs" and "(p, j, g) \<in> set bs"
  shows "j = k \<and> g = f"
  using btiled_split [OF assms] by auto

lemma btiled_distinct: "btiled a bs z \<Longrightarrow> distinct (map fst bs)"
proof (induction a bs z rule: btiled.induct)
  case (2 a q j g bs z)
  have "(a, k, f) \<notin> set bs" for k f using "2.prems" btiled_block [of "a + blk j" bs z a k f] by auto
  then have "a \<notin> fst ` set bs" by force
  then show ?case using 2 by auto
qed simp

text \<open>
  The buddy address of a block is the start of a block, of at most the same order: the region
  of the two cannot be part of a larger block, and a smaller one that covers the address starts
  there.
\<close>

lemma buddy_region:
  assumes "blk k dvd a" and "k < 15" and "base \<le> a" and "a + blk k \<le> base + arena" and "arena dvd base"
  shows "base \<le> a XOR blk k \<and> (a XOR blk k) + blk k \<le> base + arena"
proof -
  have d: "blk (Suc k) dvd arena" using assms(2) by (auto simp: arena_blk intro: blk_dvd)
  then have b: "blk (Suc k) dvd base" using assms(5) by (rule dvd_trans)
  show ?thesis
  proof (cases "blk (Suc k) dvd a")
    case True
    have "blk (Suc k) dvd base + arena - a" using True b d assms(3,4) by (auto intro: dvd_diff_nat dvd_add)
    moreover have "0 < base + arena - a" using assms(4) blk_ge [of k] by linarith
    ultimately have "blk (Suc k) \<le> base + arena - a" by (rule dvd_imp_le)
    then show ?thesis using buddy_low [OF True] assms(3) blk_ge [of k] assms(4) by (simp add: blk_Suc)
  next
    case False
    note h = buddy_high [OF assms(1) False]
    have "a \<noteq> base" using b False by auto
    then have "base < a" using assms(3) by simp
    have "base \<le> a - blk k"
    proof (rule ccontr)
      assume "\<not> base \<le> a - blk k"
      then have "0 < base - (a - blk k)" "base - (a - blk k) < blk k" using h(1) \<open>base < a\<close> by auto
      moreover have "blk (Suc k) dvd base - (a - blk k)" using b h(3) by (rule dvd_diff_nat)
      ultimately show False using dvd_imp_le [of "blk (Suc k)" "base - (a - blk k)"] by (simp add: blk_Suc)
    qed
    then show ?thesis using h assms(4) by auto
  qed
qed

lemma buddy_start:
  assumes t: "btiled base bs (base + arena)" and base: "arena dvd base" and a: "(a, k, f) \<in> set bs"
  shows "\<exists>j g. (a XOR blk k, j, g) \<in> set bs \<and> j \<le> k"
proof -
  let ?b = "a XOR blk k"
  have k: "base \<le> a" "a + blk k \<le> base + arena" "k \<le> 10" "blk k dvd a" using btiled_block [OF t a] by auto
  have r: "base \<le> ?b" "?b + blk k \<le> base + arena" using buddy_region [OF k(4) _ k(1,2) base] k(3) by auto
  then have "?b < base + arena" using blk_ge [of k] by linarith
  then obtain c j g where c: "(c, j, g) \<in> set bs" "c \<le> ?b" "?b < c + blk j"
    using btiled_cover [OF t r(1)] by blast
  have jc: "blk j dvd c" "j \<le> 10" using btiled_block [OF t c(1)] by auto
  have "j \<le> k"
  proof (rule ccontr)
    assume "\<not> j \<le> k"
    then have jk: "blk (Suc k) dvd blk j" by (intro blk_dvd) simp
    then have cd: "blk (Suc k) dvd c" using jc(1) by (rule dvd_trans)
    have ov: "c \<le> a \<and> a < c + blk j"
    proof (cases "blk (Suc k) dvd a")
      case True
      then have "blk (Suc k) dvd c - a" using cd by (auto intro: dvd_diff_nat)
      then have "c \<le> a" using c(2) buddy_low [OF True] dvd_imp_le [of "blk (Suc k)" "c - a"] blk_ge [of k]
        by (fastforce simp: blk_Suc)
      then show ?thesis using c(3) buddy_low [OF True] by simp
    next
      case False
      note h = buddy_high [OF k(4) False]
      have "blk (Suc k) dvd c + blk j - (a - blk k)" using cd jk h(3) by (auto intro: dvd_diff_nat dvd_add)
      then have "blk (Suc k) \<le> c + blk j - (a - blk k)" using c(3) h(2) by (intro dvd_imp_le) auto
      then show ?thesis using c(2,3) h(1,2) blk_ge [of k] by (auto simp: blk_Suc)
    qed
    then have "(c, j, g) = (a, k, f)" using btiled_split [OF t c(1) a] blk_ge [of k] by auto
    with \<open>\<not> j \<le> k\<close> show False by simp
  qed
  then have "blk j dvd ?b - c" using jc(1) buddy_dvd [OF k(4)] blk_dvd [of j k] by (auto intro: dvd_diff_nat dvd_trans)
  then have "?b = c" using c(2,3) dvd_imp_le [of "blk j" "?b - c"] by (cases "?b = c") auto
  then show ?thesis using c(1) \<open>j \<le> k\<close> by auto
qed

section \<open>The list of blocks\<close>

definition md3 :: "nat \<Rightarrow> nat \<Rightarrow> bool \<Rightarrow> nat option \<Rightarrow> nat option \<Rightarrow> MallocMetadata3" where
  "md3 c k f nx pv = \<lparr>cookie = c, bsz = blk k - 40, is_free3 = f, is_mmap = False, order = int k, nxt = nx, prv = pv\<rparr>"

lemma md3_simps [simp]:
  "cookie (md3 c k f nx pv) = c" "bsz (md3 c k f nx pv) = blk k - 40" "is_free3 (md3 c k f nx pv) = f"
  "\<not> is_mmap (md3 c k f nx pv)" "order (md3 c k f nx pv) = int k" "nxt (md3 c k f nx pv) = nx"
  "prv (md3 c k f nx pv) = pv"
  "(md3 c k f nx pv)\<lparr>is_free3 := g\<rparr> = md3 c k g nx pv"
  "(md3 c k f nx pv)\<lparr>prv := p\<rparr> = md3 c k f nx p"
  by (simp_all add: md3_def)

fun hdp :: "bblock list \<Rightarrow> nat option \<Rightarrow> nat option" where
  "hdp [] q = q"
| "hdp (b # bs) q = Some (fst b)"

definition lastp :: "nat option \<Rightarrow> bblock list \<Rightarrow> nat option" where
  "lastp pv bs = (if bs = [] then pv else Some (fst (last bs)))"

text \<open>Segments of the doubly linked list, \<open>pv\<close> and \<open>q\<close> being the pointers that leave them.\<close>

fun dseg :: "nat \<Rightarrow> (nat \<rightharpoonup> MallocMetadata3) \<Rightarrow> nat option \<Rightarrow> bblock list \<Rightarrow> nat option \<Rightarrow> bool" where
  "dseg c h pv [] q \<longleftrightarrow> True"
| "dseg c h pv ((a, k, f) # bs) q \<longleftrightarrow> h a = Some (md3 c k f (hdp bs q) pv) \<and> dseg c h (Some a) bs q"

lemma hdp_append [simp]: "hdp (us @ vs) q = hdp us (hdp vs q)"
  by (cases us) auto

lemma lastp_simps [simp]: "lastp pv [] = pv" "lastp pv (bs @ [b]) = Some (fst b)" "lastp pv (b # bs) = lastp (Some (fst b)) bs"
  by (auto simp: lastp_def)

lemma dseg_append [simp]: "dseg c h pv (us @ vs) q \<longleftrightarrow> dseg c h pv us (hdp vs q) \<and> dseg c h (lastp pv us) vs q"
proof (induction us arbitrary: pv)
  case (Cons b us)
  then show ?case by (cases b) auto
qed simp

lemma dseg_frame: "(\<And>x. x \<in> fst ` set bs \<Longrightarrow> h' x = h x) \<Longrightarrow> dseg c h' pv bs q = dseg c h pv bs q"
proof (induction bs arbitrary: pv)
  case (Cons b bs)
  then show ?case by (cases b) auto
qed simp

lemma dseg_lookup: "dseg c h pv bs q \<Longrightarrow> (a, k, f) \<in> set bs \<Longrightarrow> \<exists>nx pv. h a = Some (md3 c k f nx pv)"
proof (induction bs arbitrary: pv)
  case (Cons b bs)
  then show ?case by (cases b) auto
qed simp

text \<open>The first block of a segment gets a new predecessor.\<close>

definition relink :: "nat option \<Rightarrow> nat \<Rightarrow> (nat \<rightharpoonup> MallocMetadata3) \<Rightarrow> nat \<rightharpoonup> MallocMetadata3" where
  "relink p a h = (case p of None \<Rightarrow> h
     | Some q \<Rightarrow> (case h q of None \<Rightarrow> h | Some m \<Rightarrow> h(q \<mapsto> m\<lparr>prv := Some a\<rparr>)))"

lemma relink_other: "p \<noteq> Some x \<Longrightarrow> relink p a h x = h x"
  by (auto simp: relink_def split: option.splits)

lemma set_prev_relink:
  assumes "\<And>q. p = Some q \<Longrightarrow> meta3 s q \<noteq> None"
  shows "set_prev p a s = Inr (s\<lparr>meta3 := relink p a (meta3 s)\<rparr>)"
  using assms by (cases p) (auto simp: set_prev_def upd_def load_def relink_def)

lemma dseg_relink:
  assumes "dseg c h pv bs None" and "distinct (map fst bs)"
  shows "dseg c (relink (hdp bs None) a h) (Some a) bs None"
proof (cases bs)
  case (Cons b bs')
  obtain p k f where b: "b = (p, k, f)" by (cases b)
  have "dseg c (relink (Some p) a h) (Some p) bs' None = dseg c h (Some p) bs' None"
    by (rule dseg_frame, rule relink_other) (use assms(2) Cons b in auto)
  then show ?thesis using assms(1) Cons b by (simp add: relink_def)
qed simp

lemma hdp_in: "hdp bs None = Some q \<Longrightarrow> q \<in> fst ` set bs"
  by (cases bs) auto

lemma hdp_notin: "x \<notin> fst ` set bs \<Longrightarrow> hdp bs None \<noteq> Some x"
  using hdp_in by blast

lemma hdp_mapped: "dseg c h pv bs None \<Longrightarrow> hdp bs None = Some q \<Longrightarrow> h q \<noteq> None"
  by (cases bs) auto

section \<open>The free lists\<close>

definition free_addrs :: "nat \<Rightarrow> bblock list \<Rightarrow> nat list" where
  "free_addrs k bs = map fst (filter (\<lambda>(a, j, f). f \<and> j = k) bs)"

definition flists :: "bblock list \<Rightarrow> nat list list" where
  "flists bs = map (\<lambda>k. free_addrs k bs) [0..<11]"

lemma free_addrs_append [simp]: "free_addrs k (us @ vs) = free_addrs k us @ free_addrs k vs"
  by (simp add: free_addrs_def)

lemma free_addrs_Cons: "free_addrs k ((a, j, f) # bs) = (if f \<and> j = k then a # free_addrs k bs else free_addrs k bs)"
  by (simp add: free_addrs_def)

lemma free_addrs_Nil [simp]: "free_addrs k [] = []"
  by (simp add: free_addrs_def)

lemma free_addrs_set: "set (free_addrs k bs) = {a. (a, k, True) \<in> set bs}"
  by (force simp: free_addrs_def)

lemma flists_nth [simp]: "k < 11 \<Longrightarrow> flists bs ! k = free_addrs k bs" "length (flists bs) = 11"
  by (simp_all add: flists_def)

lemma flists_update:
  assumes "k < 11" and "free_addrs k bs' = xs" and "\<And>j. j \<noteq> k \<Longrightarrow> free_addrs j bs' = free_addrs j bs"
  shows "(flists bs)[k := xs] = flists bs'"
  by (rule nth_equalityI) (use assms in \<open>auto simp: nth_list_update\<close>)

lemma insert_sorted_between:
  "\<forall>x \<in> set xs. x < a \<Longrightarrow> \<forall>y \<in> set ys. a < y \<Longrightarrow> insert_sorted a (xs @ ys) = xs @ a # ys"
proof -
  assume x: "\<forall>x \<in> set xs. x < a" and y: "\<forall>y \<in> set ys. a < y"
  have "takeWhile (\<lambda>x. x < a) ys = []" "dropWhile (\<lambda>x. x < a) ys = ys"
    using y by (cases ys; force)+
  then show ?thesis using x by (simp add: insert_sorted_def takeWhile_append2 dropWhile_append2)
qed

lemma btiled_order:
  assumes "btiled base (us @ (a, k, f) # vs) z"
  shows "\<forall>(p, j, g) \<in> set us. p < a" and "\<forall>(p, j, g) \<in> set vs. a < p"
proof -
  from assms have t: "btiled base us a" "btiled (a + blk k) vs z" by auto
  show "\<forall>(p, j, g) \<in> set us. p < a"
  proof clarify
    fix p j g
    assume "(p, j, g) \<in> set us"
    then have "p + blk j \<le> a" using btiled_block [OF t(1)] by blast
    then show "p < a" using blk_ge [of j] by linarith
  qed
  show "\<forall>(p, j, g) \<in> set vs. a < p"
  proof clarify
    fix p j g
    assume "(p, j, g) \<in> set vs"
    then have "a + blk k \<le> p" using btiled_block [OF t(2)] by blast
    then show "a < p" using blk_ge [of k] by linarith
  qed
qed

lemma AddToFreeOrder_flists:
  assumes o: "\<forall>(p, j, g) \<in> set us. p < a" "\<forall>(p, j, g) \<in> set vs. a < p"
    and k: "k < 11" and fr: "freed s = flists (us @ vs)"
  shows "AddToFreeOrder a (int k) s = Inr (s\<lparr>freed := flists (us @ (a, k, True) # vs)\<rparr>)"
proof -
  have "\<forall>x \<in> set (free_addrs k us). x < a" "\<forall>y \<in> set (free_addrs k vs). a < y"
    using o by (auto simp: free_addrs_set)
  then have "insert_sorted a (free_addrs k us @ free_addrs k vs) = free_addrs k us @ a # free_addrs k vs"
    by (rule insert_sorted_between)
  then have "(flists (us @ vs))[k := insert_sorted a (free_addrs k (us @ vs))] = flists (us @ (a, k, True) # vs)"
    by (intro flists_update) (use k in \<open>auto simp: free_addrs_Cons\<close>)
  then show ?thesis using k fr by (simp add: AddToFreeOrder_def freed_upd_def)
qed

section \<open>Splitting\<close>

lemma btiled_halve:
  "btiled base (us @ (a, Suc k, f) # ws) z \<Longrightarrow> btiled base (us @ (a, k, f) # (a + blk k, k, g) # ws) z"
  using blk_dvd [of k "Suc k"] by (auto simp: blk_Suc mult_2 add.assoc intro: dvd_trans)

lemma dseg_focus:
  "dseg c h pv (us @ (a, k, f) # ws) q \<longleftrightarrow>
     dseg c h pv us (Some a) \<and> h a = Some (md3 c k f (hdp ws q) (lastp pv us)) \<and> dseg c h (Some a) ws q"
  by simp

lemma btiled_apart:
  assumes "btiled base (us @ (a, k, f) # ws) z"
  shows "a \<notin> fst ` set us" "a \<notin> fst ` set ws" "fst ` set us \<inter> fst ` set ws = {}" "distinct (map fst ws)"
  using btiled_distinct [OF assms] by auto

lemma split_step_rep:
  assumes t: "btiled base (us @ (a, Suc k, f) # ws) z"
    and d: "dseg (EXPECTED_COOKIE_VALUE s) (meta3 s) None (us @ (a, Suc k, f) # ws) None"
    and fr: "freed s = flists (us @ ws)" and m: "meta3 s a = Some m"
  shows "\<exists>h. split_step a m s = Inr (s\<lparr>meta3 := h, freed := flists (us @ (a + blk k, k, True) # ws)\<rparr>) \<and>
    dseg (EXPECTED_COOKIE_VALUE s) h None (us @ (a, k, f) # (a + blk k, k, True) # ws) None \<and>
    (\<forall>x. x < base \<or> z \<le> x \<longrightarrow> h x = meta3 s x)"
proof -
  let ?c = "EXPECTED_COOKIE_VALUE s" and ?b = "a + blk k"
  let ?h1 = "(meta3 s)(?b \<mapsto> md3 ?c k True (hdp ws None) (Some a))"
  let ?h2 = "relink (hdp ws None) ?b ?h1"
  let ?h3 = "?h2(a \<mapsto> md3 ?c k f (Some ?b) (lastp None us))"
  have t': "btiled base (us @ (a, k, f) # (?b, k, True) # ws) z" using btiled_halve [OF t] .
  have ad: "blk (Suc k) dvd a" "k < 10" using t by auto
  have mm: "m = md3 ?c (Suc k) f (hdp ws None) (lastp None us)" using d m by simp
  have dis: "?b \<noteq> a" "?b \<notin> fst ` set us" "?b \<notin> fst ` set ws" "a \<notin> fst ` set us" "a \<notin> fst ` set ws" "distinct (map fst ws)"
    "fst ` set us \<inter> fst ` set ws = {}"
    using btiled_distinct [OF t'] by auto
  have ws1: "dseg ?c ?h1 (Some a) ws None"
    using d dis(3) by (subst dseg_frame [of ws _ "meta3 s"]) (auto simp: image_iff)
  have add: "AddToFreeOrder ?b (int k) (s\<lparr>meta3 := ?h1\<rparr>) = Inr (s\<lparr>meta3 := ?h1, freed := flists (us @ (?b, k, True) # ws)\<rparr>)"
    using btiled_order [of base "us @ [(a, k, f)]" ?b k True ws z] t' ad(2) fr
    by (subst AddToFreeOrder_flists [of us ?b ws]) auto
  have b1: "buddy_of a (int k) = Inr ?b" using ad buddy_low [of k a] by (simp add: buddy_of_def)
  have sz: "order_size (int k) = Inr (blk k - 40)" using ad(2) by simp
  have h2a: "?h2 a = Some m" using m dis(1,5) hdp_in [of ws a] by (subst relink_other) auto
  have sp: "set_prev (hdp ws None) ?b (s\<lparr>meta3 := ?h1, freed := flists (us @ (?b, k, True) # ws)\<rparr>) =
      Inr (s\<lparr>meta3 := ?h2, freed := flists (us @ (?b, k, True) # ws)\<rparr>)"
    using hdp_mapped [OF ws1] by (subst set_prev_relink) auto
  have "split_step a m s = Inr (s\<lparr>meta3 := ?h3, freed := flists (us @ (?b, k, True) # ws)\<rparr>)"
    using b1 sz add sp h2a by (simp add: split_step_def mm md3_def upd_def load_def)
  moreover have "dseg ?c ?h3 None (us @ (a, k, f) # (?b, k, True) # ws) None"
  proof -
    have "dseg ?c ?h3 None us (Some a) = dseg ?c (meta3 s) None us (Some a)"
    proof (rule dseg_frame)
      fix x
      assume x: "x \<in> fst ` set us"
      then have "x \<notin> fst ` set ws" "x \<noteq> a" "x \<noteq> ?b" using dis x by blast+
      then show "?h3 x = meta3 s x" using hdp_notin [of x ws] by (simp add: relink_other)
    qed
    moreover have "?h3 ?b = Some (md3 ?c k True (hdp ws None) (Some a))"
      using dis(1) hdp_notin [OF dis(3)] by (simp add: relink_other)
    moreover have "dseg ?c ?h3 (Some ?b) ws None = dseg ?c ?h2 (Some ?b) ws None"
      by (rule dseg_frame) (use dis(5) in auto)
    ultimately show ?thesis using d dseg_relink [OF ws1 dis(6), of ?b] by simp
  qed
  moreover have "?h3 x = meta3 s x" if x: "x < base \<or> z \<le> x" for x
  proof -
    have "x \<notin> fst ` set (us @ (a, k, f) # (?b, k, True) # ws)" using block_addrs_inside [OF t', of x] x by linarith
    then have "x \<noteq> a" "x \<noteq> ?b" "x \<notin> fst ` set ws" by auto
    then show ?thesis using hdp_notin [of x ws] by (simp add: relink_other)
  qed
  ultimately show ?thesis by blast
qed

text \<open>The smallest order at most \<open>k\<close> that holds \<open>n\<close> bytes, and the halves that are split off on the way to it.\<close>

fun tight :: "nat \<Rightarrow> nat \<Rightarrow> nat" where
  "tight n 0 = 0"
| "tight n (Suc k) = (if n \<le> blk k - 40 then tight n k else Suc k)"

definition halves :: "nat \<Rightarrow> nat \<Rightarrow> nat \<Rightarrow> bblock list" where
  "halves a j k = map (\<lambda>i. (a + blk i, i, True)) [j..<k]"

lemma tight_le: "tight n k \<le> k"
  by (induction k) auto

lemma tight_fits: "n \<le> blk k - 40 \<Longrightarrow> n \<le> blk (tight n k) - 40"
  by (induction k) auto

lemma tight_least: "n \<le> blk j - 40 \<Longrightarrow> j \<le> k \<Longrightarrow> tight n k \<le> j"
proof (induction k)
  case (Suc k)
  show ?case
  proof (cases "j = Suc k")
    case True
    then show ?thesis using tight_le [of n "Suc k"] by simp
  next
    case False
    then have "j \<le> k" using Suc.prems by simp
    then show ?thesis using Suc blk_le [of j k] by auto
  qed
qed simp

lemma halves_Suc: "j \<le> k \<Longrightarrow> halves a j (Suc k) = halves a j k @ [(a + blk k, k, True)]"
  by (simp add: halves_def)

lemma halves_empty [simp]: "halves a k k = []"
  by (simp add: halves_def)

lemma half_size: "Suc k < 24 \<Longrightarrow> (blk (Suc k) - 40 + 2 ^ 64 - sizeof_md3) mod 2 ^ 64 div 2 = blk k - 40"
proof -
  assume "Suc k < 24"
  then have "blk (Suc k) \<le> 2 ^ 30" unfolding blk_def by (intro power_increasing) auto
  then have "(blk (Suc k) - 40 + 2 ^ 64 - sizeof_md3) mod 2 ^ 64 = 2 * (blk k - 40)"
    using blk_ge [of k] by (simp add: le_mod_geq sizeof_md3_def blk_Suc)
  then show ?thesis by simp
qed

lemma split_loop_rep:
  assumes "btiled base (us @ (a, k, f) # ws) z"
    and "dseg (EXPECTED_COOKIE_VALUE s) (meta3 s) None (us @ (a, k, f) # ws) None"
    and "freed s = flists (us @ ws)"
  shows "\<exists>h. split_loop a n s = Some (Inr (s\<lparr>meta3 := h, freed := flists (us @ halves a (tight n k) k @ ws)\<rparr>)) \<and>
    dseg (EXPECTED_COOKIE_VALUE s) h None (us @ (a, tight n k, f) # halves a (tight n k) k @ ws) None \<and>
    btiled base (us @ (a, tight n k, f) # halves a (tight n k) k @ ws) z \<and>
    (\<forall>x. x < base \<or> z \<le> x \<longrightarrow> h x = meta3 s x)"
  using assms
proof (induction k arbitrary: s ws)
  case 0
  then have "split_loop a n s = Some (Inr s)" by (subst split_loop.simps) (simp add: load_def)
  with 0 show ?case by (intro exI [of _ "meta3 s"]) simp
next
  case (Suc k)
  obtain m where m: "meta3 s a = Some m" "m = md3 (EXPECTED_COOKIE_VALUE s) (Suc k) f (hdp ws None) (lastp None us)"
    using Suc.prems(2) by simp
  have k: "Suc k \<le> 10" using Suc.prems(1) by simp
  then have half: "(blk (Suc k) - 40 + 2 ^ 64 - sizeof_md3) mod 2 ^ 64 div 2 = blk k - 40" by (intro half_size) simp
  have unf: "split_loop a n s = (if n \<le> blk k - 40 then cbind (Some (split_step a m s)) (\<lambda>s1. split_loop a n s1)
      else Some (Inr s))"
    using m half by (subst split_loop.simps) (simp add: load_def)
  show ?case
  proof (cases "n \<le> blk k - 40")
    case False
    then show ?thesis using unf Suc.prems by (intro exI [of _ "meta3 s"]) simp
  next
    case True
    let ?s = "\<lambda>h. s\<lparr>meta3 := h, freed := flists (us @ (a + blk k, k, True) # ws)\<rparr>"
    obtain h1 where h1: "split_step a m s = Inr (?s h1)"
      "dseg (EXPECTED_COOKIE_VALUE s) h1 None (us @ (a, k, f) # (a + blk k, k, True) # ws) None"
      "\<forall>x. x < base \<or> z \<le> x \<longrightarrow> h1 x = meta3 s x"
      using split_step_rep [OF Suc.prems m(1)] by blast
    have t1: "btiled base (us @ (a, k, f) # (a + blk k, k, True) # ws) z" by (rule btiled_halve [OF Suc.prems(1)])
    from Suc.IH [of "(a + blk k, k, True) # ws" "?s h1"] t1 h1(2) obtain h where
      "split_loop a n (?s h1) = Some (Inr ((?s h1)\<lparr>meta3 := h, freed := flists (us @ halves a (tight n k) k @ (a + blk k, k, True) # ws)\<rparr>))"
      "dseg (EXPECTED_COOKIE_VALUE s) h None (us @ (a, tight n k, f) # halves a (tight n k) k @ (a + blk k, k, True) # ws) None"
      "btiled base (us @ (a, tight n k, f) # halves a (tight n k) k @ (a + blk k, k, True) # ws) z"
      "\<forall>x. x < base \<or> z \<le> x \<longrightarrow> h x = h1 x" by auto
    then show ?thesis using unf True h1(1,3) tight_le [of n k] by (intro exI [of _ h]) (simp add: halves_Suc)
  qed
qed

lemma dseg_set_free:
  assumes "dseg c h None (us @ (a, k, f) # ws) None" and "btiled base (us @ (a, k, f) # ws) z"
  shows "\<exists>m. h a = Some m \<and> dseg c (h(a \<mapsto> m\<lparr>is_free3 := g\<rparr>)) None (us @ (a, k, g) # ws) None"
proof -
  let ?h = "h(a \<mapsto> md3 c k g (hdp ws None) (lastp None us))"
  have "dseg c ?h None us (Some a) = dseg c h None us (Some a)" "dseg c ?h (Some a) ws None = dseg c h (Some a) ws None"
    using btiled_apart(1,2) [OF assms(2)] by (intro dseg_frame; force)+
  then show ?thesis using assms(1) by simp
qed

lemma SplitIfPossible_rep:
  assumes t: "btiled base (us @ (a, k, f) # ws) z"
    and d: "dseg (EXPECTED_COOKIE_VALUE s) (meta3 s) None (us @ (a, k, f) # ws) None"
    and fr: "freed s = flists (us @ ws)"
  shows "\<exists>h. SplitIfPossible a n s = Some (Inr (s\<lparr>meta3 := h, freed := flists (us @ halves a (tight n k) k @ ws)\<rparr>)) \<and>
    dseg (EXPECTED_COOKIE_VALUE s) h None (us @ (a, tight n k, False) # halves a (tight n k) k @ ws) None \<and>
    btiled base (us @ (a, tight n k, False) # halves a (tight n k) k @ ws) z \<and>
    (\<forall>x. x < base \<or> z \<le> x \<longrightarrow> h x = meta3 s x)"
proof -
  obtain h1 where h1: "split_loop a n s = Some (Inr (s\<lparr>meta3 := h1, freed := flists (us @ halves a (tight n k) k @ ws)\<rparr>))"
    "dseg (EXPECTED_COOKIE_VALUE s) h1 None (us @ (a, tight n k, f) # halves a (tight n k) k @ ws) None"
    "btiled base (us @ (a, tight n k, f) # halves a (tight n k) k @ ws) z"
    "\<forall>x. x < base \<or> z \<le> x \<longrightarrow> h1 x = meta3 s x"
    using split_loop_rep [OF assms, of n] by blast
  obtain m where m: "h1 a = Some m"
    "dseg (EXPECTED_COOKIE_VALUE s) (h1(a \<mapsto> m\<lparr>is_free3 := False\<rparr>)) None (us @ (a, tight n k, False) # halves a (tight n k) k @ ws) None"
    using dseg_set_free [OF h1(2,3), of False] by blast
  have "SplitIfPossible a n s =
      Some (Inr (s\<lparr>meta3 := h1(a \<mapsto> m\<lparr>is_free3 := False\<rparr>), freed := flists (us @ halves a (tight n k) k @ ws)\<rparr>))"
    using d h1(1) m(1) by (simp add: SplitIfPossible_def load_def upd_def)
  moreover have "base \<le> a" "a < z" using btiled_block [OF t, of a k f] blk_ge [of k] by auto
  moreover from this have "\<forall>x. x < base \<or> z \<le> x \<longrightarrow> (h1(a \<mapsto> m\<lparr>is_free3 := False\<rparr>)) x = meta3 s x"
    using h1(4) by simp
  moreover have "btiled base (us @ (a, tight n k, False) # halves a (tight n k) k @ ws) z" using h1(3) by simp
  ultimately show ?thesis using m(2) by blast
qed

section \<open>Mappings\<close>

fun mseg :: "nat \<Rightarrow> (nat \<rightharpoonup> MallocMetadata3) \<Rightarrow> nat option \<Rightarrow> (nat \<times> nat) list \<Rightarrow> bool" where
  "mseg c h p [] \<longleftrightarrow> p = None"
| "mseg c h p ((a, n) # ms) \<longleftrightarrow> p = Some a \<and>
     (\<exists>nx pv. h a = Some \<lparr>cookie = c, bsz = n, is_free3 = False, is_mmap = True, order = -1, nxt = nx, prv = pv\<rparr> \<and>
       mseg c h nx ms)"

definition outside :: "nat \<Rightarrow> nat \<Rightarrow> nat \<Rightarrow> bool" where
  "outside base a n \<longleftrightarrow> a + 40 + n \<le> base \<or> base + arena \<le> a"

definition clear_of :: "nat \<times> nat \<Rightarrow> nat \<times> nat \<Rightarrow> bool" where
  "clear_of x y \<longleftrightarrow> fst x + 40 + snd x \<le> fst y \<or> fst y + 40 + snd y \<le> fst x"

definition maps_ok :: "nat \<Rightarrow> (nat \<times> nat) list \<Rightarrow> bool" where
  "maps_ok base ms \<longleftrightarrow> (\<forall>(a, n) \<in> set ms. outside base a n) \<and> pairwise clear_of (set ms) \<and> distinct ms"

lemma maps_out: "maps_ok base ms \<Longrightarrow> x \<in> fst ` set ms \<Longrightarrow> \<not> (base \<le> x \<and> x < base + arena)"
  by (fastforce simp: maps_ok_def outside_def)

lemma maps_apart: "btiled base bs (base + arena) \<Longrightarrow> maps_ok base ms \<Longrightarrow> x \<in> fst ` set bs \<Longrightarrow> (x, n) \<notin> set ms"
  using maps_out [of base ms x] block_addrs_inside [of base bs "base + arena" x] by force

lemma mseg_frame: "(\<And>a n. (a, n) \<in> set ms \<Longrightarrow> h' a = h a) \<Longrightarrow> mseg c h' p ms = mseg c h p ms"
proof (induction ms arbitrary: p)
  case (Cons b ms)
  obtain a n where b: "b = (a, n)" by (cases b)
  have "h' a = h a" using Cons.prems [of a n] b by simp
  moreover have "mseg c h' q ms = mseg c h q ms" for q
    by (rule Cons.IH, rule Cons.prems, rule list.set_intros(2), assumption)
  ultimately show ?case by (simp add: b)
qed simp

text \<open>
  What a state represents: the arena at \<open>base\<close> cut into the blocks \<open>bs\<close>, the mappings \<open>ms\<close> with
  their sizes.
\<close>

definition buddy_rep :: "MemList3 \<Rightarrow> nat \<Rightarrow> bblock list \<Rightarrow> (nat \<times> nat) list \<Rightarrow> bool" where
  "buddy_rep s base bs ms \<longleftrightarrow> head3 s = Some base \<and>
     dseg (EXPECTED_COOKIE_VALUE s) (meta3 s) None bs None \<and> btiled base bs (base + arena) \<and> arena dvd base \<and>
     freed s = flists bs \<and> mseg (EXPECTED_COOKIE_VALUE s) (meta3 s) (MMAPhead s) ms \<and> maps_ok base ms"

lemma maps_frame:
  assumes "maps_ok base ms" and "\<forall>x. x < base \<or> base + arena \<le> x \<longrightarrow> h' x = h x"
  shows "mseg c h' p ms = mseg c h p ms"
  using assms by (intro mseg_frame) (fastforce simp: maps_ok_def outside_def)

section \<open>Requests from the arena\<close>

definition pick :: "nat \<Rightarrow> bblock list \<Rightarrow> nat option" where
  "pick n bs = find (\<lambda>i. n \<le> blk i - 40 \<and> free_addrs i bs \<noteq> []) [0..<11]"

text \<open>The first free block of order \<open>i\<close>, cut down to the order that \<open>n\<close> needs.\<close>

fun carve :: "nat \<Rightarrow> nat \<Rightarrow> bblock list \<Rightarrow> (nat \<times> bblock list) option" where
  "carve n i [] = None"
| "carve n i ((a, k, f) # bs) =
     (if f \<and> k = i then Some (a, (a, tight n k, False) # halves a (tight n k) k @ bs)
      else map_option (\<lambda>(p, bs'). (p, (a, k, f) # bs')) (carve n i bs))"

definition balloc :: "nat \<Rightarrow> bblock list \<Rightarrow> (nat \<times> bblock list) option" where
  "balloc n bs = (case pick n bs of None \<Rightarrow> None | Some i \<Rightarrow> carve n i bs)"

lemma carve_Some:
  assumes "free_addrs i bs \<noteq> []"
  shows "\<exists>us a vs. bs = us @ (a, i, True) # vs \<and> free_addrs i us = [] \<and>
    carve n i bs = Some (a, us @ (a, tight n i, False) # halves a (tight n i) i @ vs)"
  using assms
proof (induction bs)
  case (Cons b bs)
  obtain a k f where b: "b = (a, k, f)" by (cases b)
  show ?case
  proof (cases "f \<and> k = i")
    case True
    then show ?thesis using b by (intro exI [of _ "[]"] exI [of _ a] exI [of _ bs]) auto
  next
    case False
    then obtain us p vs where "bs = us @ (p, i, True) # vs" "free_addrs i us = []"
      "carve n i bs = Some (p, us @ (p, tight n i, False) # halves p (tight n i) i @ vs)"
      using Cons b by (auto simp: free_addrs_Cons)
    then show ?thesis using b False by (intro exI [of _ "b # us"] exI [of _ p] exI [of _ vs]) (auto simp: free_addrs_Cons)
  qed
qed simp

lemma pick_Some:
  "pick n bs = Some i \<Longrightarrow> i < 11 \<and> n \<le> blk i - 40 \<and> free_addrs i bs \<noteq> []"
  by (auto simp: pick_def find_Some_iff)

lemma balloc_Some:
  assumes "balloc n bs = Some (a, bs')"
  shows "\<exists>us i vs. bs = us @ (a, i, True) # vs \<and> bs' = us @ (a, tight n i, False) # halves a (tight n i) i @ vs \<and>
    pick n bs = Some i \<and> n \<le> blk i - 40 \<and> i < 11 \<and> free_addrs i us = []"
proof -
  obtain i where i: "pick n bs = Some i" "carve n i bs = Some (a, bs')"
    using assms by (auto simp: balloc_def split: option.splits)
  then show ?thesis using pick_Some [OF i(1)] carve_Some [of i bs n] by auto
qed

lemma find_order_find:
  "\<forall>i \<in> set is. i < 11 \<Longrightarrow>
     find_order n (flists bs) is = Inr (find (\<lambda>i. n \<le> blk i - 40 \<and> free_addrs i bs \<noteq> []) is)"
  by (induction "is") auto

lemma balloc_None: "balloc n bs = None \<longleftrightarrow> pick n bs = None"
proof (cases "pick n bs")
  case (Some i)
  then show ?thesis using pick_Some [OF Some] carve_Some [of i bs n] by (auto simp: balloc_def)
qed (simp add: balloc_def)

lemma GetFreeBlock_None:
  assumes "freed s = flists bs" and "balloc n bs = None"
  shows "GetFreeBlock n s = Inr (None, s)"
proof -
  have "find_order n (freed s) [0..<11] = Inr None"
    using assms(2) unfolding assms(1) by (subst find_order_find) (auto simp: balloc_None pick_def)
  then show ?thesis by (simp add: GetFreeBlock_def)
qed

lemma pick_None:
  assumes "pick n bs = None" and "(a, k, True) \<in> set bs" and "k \<le> 10"
  shows "blk k - 40 < n"
proof (rule ccontr)
  assume "\<not> blk k - 40 < n"
  moreover have "free_addrs k bs \<noteq> []" using assms(2) free_addrs_set [of k bs] by auto
  moreover have "k \<in> set [0..<11]" using assms(3) by auto
  ultimately show False using assms(1) unfolding pick_def find_None_iff by auto
qed

lemma pick_least:
  assumes "pick n bs = Some i" and "(b, j, True) \<in> set bs" and "n \<le> blk j - 40"
  shows "i \<le> j"
proof (rule ccontr)
  assume ji: "\<not> i \<le> j"
  obtain k where k: "k < 11" "i = k" "\<forall>l < k. \<not> (n \<le> blk l - 40 \<and> free_addrs l bs \<noteq> [])"
    using assms(1) by (auto simp: pick_def find_Some_iff)
  then have "free_addrs j bs = []" using ji assms(3) by auto
  then show False using assms(2) free_addrs_set [of j bs] by auto
qed

lemma GetFreeBlock_Some:
  assumes "freed s = flists bs" and "pick n bs = Some i" and "bs = us @ (a, i, True) # vs" and "free_addrs i us = []"
  shows "GetFreeBlock n s = Inr (Some a, s\<lparr>freed := flists (us @ vs)\<rparr>)"
proof -
  have i: "i < 11" using pick_Some [OF assms(2)] by simp
  have "free_addrs i bs = a # free_addrs i vs" using assms(3,4) by (simp add: free_addrs_Cons)
  moreover have "(flists bs)[i := free_addrs i vs] = flists (us @ vs)"
    by (rule flists_update) (use i assms(3,4) in \<open>auto simp: free_addrs_Cons\<close>)
  moreover have "find_order n (flists bs) [0..<11] = Inr (Some i)"
    using find_order_find [of "[0..<11]" n bs] assms(2) by (simp add: pick_def)
  ultimately show ?thesis using assms(1) i by (simp add: GetFreeBlock_def)
qed

lemma Malloc_small:
  assumes rep: "buddy_rep s base bs ms" and n: "0 < n" "n < MAX_SIZE"
  shows "case balloc n bs of
      None \<Rightarrow> Malloc_3 e n s = Some (Inr (None, s))
    | Some (a, bs') \<Rightarrow> \<exists>s'. Malloc_3 e n s = Some (Inr (Some (a + 40), s')) \<and> buddy_rep s' base bs' ms \<and> bytes3 s' = bytes3 s"
proof -
  have le: "\<not> MAX_SIZE_TO_ALLOCATE < n" using n(2) by (simp add: MAX_SIZE_def MAX_SIZE_TO_ALLOCATE_def)
  have M: "Malloc_3 e n s = cbind (Some (GetFreeBlock n s)) (\<lambda>(r, s1).
       case r of None \<Rightarrow> Some (Inr (None, s1))
       | Some a \<Rightarrow> cbind (SplitIfPossible a n s1) (\<lambda>s2. Some (Inr (Some (a + sizeof_md3), s2))))"
    using rep n le by (simp add: Malloc_3_def buddy_rep_def)
  show ?thesis
  proof (cases "balloc n bs")
    case None
    then show ?thesis using M GetFreeBlock_None [of s bs n] rep by (simp add: buddy_rep_def)
  next
    case (Some p)
    obtain a bs' where p: "p = (a, bs')" by (cases p)
    obtain us i vs where u: "bs = us @ (a, i, True) # vs" "bs' = us @ (a, tight n i, False) # halves a (tight n i) i @ vs"
      "pick n bs = Some i" "n \<le> blk i - 40" "i < 11" "free_addrs i us = []"
      using balloc_Some [of n bs a bs'] Some p by auto
    let ?s = "s\<lparr>freed := flists (us @ vs)\<rparr>"
    have g: "GetFreeBlock n s = Inr (Some a, ?s)"
      using GetFreeBlock_Some [OF _ u(3,1,6)] rep by (simp add: buddy_rep_def)
    from rep u(1) have t: "btiled base (us @ (a, i, True) # vs) (base + arena)"
      and d: "dseg (EXPECTED_COOKIE_VALUE ?s) (meta3 ?s) None (us @ (a, i, True) # vs) None" by (simp_all add: buddy_rep_def)
    obtain h where h: "SplitIfPossible a n ?s = Some (Inr (?s\<lparr>meta3 := h, freed := flists (us @ halves a (tight n i) i @ vs)\<rparr>))"
      "dseg (EXPECTED_COOKIE_VALUE s) h None bs' None" "btiled base bs' (base + arena)"
      "\<forall>x. x < base \<or> base + arena \<le> x \<longrightarrow> h x = meta3 s x"
      using SplitIfPossible_rep [OF t d, of n] u(2) by auto
    have "flists (us @ halves a (tight n i) i @ vs) = flists bs'" by (simp add: u(2) flists_def free_addrs_Cons)
    moreover have "mseg (EXPECTED_COOKIE_VALUE s) h (MMAPhead s) ms"
      using maps_frame [OF _ h(4)] rep by (simp add: buddy_rep_def)
    ultimately have "buddy_rep (?s\<lparr>meta3 := h, freed := flists (us @ halves a (tight n i) i @ vs)\<rparr>) base bs' ms"
      using rep h by (simp add: buddy_rep_def)
    then show ?thesis using M g h(1) Some p by (simp add: sizeof_md3_def)
  qed
qed

section \<open>Requests for a mapping\<close>

lemma maps_addrs: "maps_ok base ms \<Longrightarrow> distinct (map fst ms)"
proof -
  assume ok: "maps_ok base ms"
  have "inj_on fst (set ms)"
  proof (rule inj_onI, rule ccontr)
    fix x y
    assume "x \<in> set ms" "y \<in> set ms" "fst x = fst y" "x \<noteq> y"
    moreover from this have "clear_of x y" using ok unfolding maps_ok_def pairwise_def by blast
    ultimately show False by (simp add: clear_of_def)
  qed
  then show ?thesis using ok by (simp add: distinct_map maps_ok_def)
qed

lemma mseg_last:
  "mseg c h p ms \<Longrightarrow> walk_list nxt h (\<lambda>q m _. q) p acc = Some (Inr (if ms = [] then acc else fst (last ms)))"
proof (induction ms arbitrary: p acc)
  case Nil
  then show ?case by (subst walk_list.simps) simp
next
  case (Cons b ms)
  then show ?case by (subst walk_list.simps) (cases b, auto)
qed

lemma mseg_mapped: "mseg c h p ms \<Longrightarrow> (a, n) \<in> set ms \<Longrightarrow>
    \<exists>nx pv. h a = Some \<lparr>cookie = c, bsz = n, is_free3 = False, is_mmap = True, order = -1, nxt = nx, prv = pv\<rparr>"
  by (induction c h p ms rule: mseg.induct) auto

lemma mseg_snoc:
  "mseg c h p ms \<Longrightarrow> ms \<noteq> [] \<Longrightarrow> distinct (map fst ms) \<Longrightarrow> a \<notin> fst ` set ms \<Longrightarrow> h (fst (last ms)) = Some m \<Longrightarrow>
     mseg c (h(fst (last ms) \<mapsto> m\<lparr>nxt := Some a\<rparr>, a \<mapsto> mmap_md c n pv)) p (ms @ [(a, n)])"
proof (induction ms arbitrary: p)
  case (Cons b ms)
  obtain b1 b2 where b: "b = (b1, b2)" by (cases b)
  show ?case
  proof (cases "ms = []")
    case True
    then show ?thesis using Cons.prems b by (auto simp: mmap_md_def)
  next
    case False
    then have "fst (last ms) \<noteq> b1" using Cons.prems(3) b last_in_set [OF False] by (auto simp: image_iff)
    then show ?thesis using Cons False b by auto
  qed
qed simp

lemma mmap_block_rep:
  assumes rep: "buddy_rep s base bs ms" and out: "outside base a n" and cl: "\<forall>x \<in> set ms. clear_of (a, n) x"
  shows "\<exists>s'. mmap_block a n s = Some (Inr s') \<and> buddy_rep s' base bs (ms @ [(a, n)]) \<and> bytes3 s' = bytes3 s"
proof -
  let ?c = "EXPECTED_COOKIE_VALUE s"
  have t: "btiled base bs (base + arena)" and mok: "maps_ok base ms" and ms: "mseg ?c (meta3 s) (MMAPhead s) ms"
    using rep by (auto simp: buddy_rep_def)
  have new: "a \<notin> fst ` set ms" using cl by (auto simp: clear_of_def)
  then have ok': "maps_ok base (ms @ [(a, n)])"
    using mok out cl by (auto simp: maps_ok_def pairwise_def clear_of_def)
  have blocks: "dseg ?c h None bs None" if "\<forall>x. x \<in> fst ` set bs \<longrightarrow> h x = meta3 s x" for h
    using rep that dseg_frame [of bs h "meta3 s"] by (simp add: buddy_rep_def)
  have free: "a \<notin> fst ` set bs"
    using block_addrs_inside [OF t, of a] out unfolding outside_def by linarith
  show ?thesis
  proof (cases ms)
    case Nil
    then have "MMAPhead s = None" using ms by simp
    moreover have "dseg ?c ((meta3 s)(a \<mapsto> mmap_md ?c n None)) None bs None" using free by (intro blocks) auto
    ultimately show ?thesis using rep ok' Nil by (auto simp: mmap_block_def buddy_rep_def mmap_md_def)
  next
    case (Cons b ms')
    let ?l = "fst (last ms)"
    obtain n0 where l: "(?l, n0) \<in> set ms" using Cons last_in_set [of ms] by (metis list.distinct(1) prod.collapse)
    then obtain m where m: "meta3 s ?l = Some m" using mseg_mapped [OF ms] by blast
    have lb: "?l \<notin> fst ` set bs" using maps_apart [OF t mok] l by blast
    let ?h = "(meta3 s)(?l \<mapsto> m\<lparr>nxt := Some a\<rparr>, a \<mapsto> mmap_md ?c n (Some ?l))"
    have "dseg ?c ?h None bs None" using free lb by (intro blocks) auto
    moreover have "mseg ?c ?h (MMAPhead s) (ms @ [(a, n)])"
      using mseg_snoc [OF ms _ maps_addrs [OF mok] new m] Cons by simp
    moreover have "mmap_block a n s = Some (Inr (s\<lparr>meta3 := ?h\<rparr>))"
    proof -
      obtain h0 where h0: "MMAPhead s = Some h0" using ms Cons by (cases b) auto
      have "walk_list nxt (meta3 s) (\<lambda>q m _. q) (Some h0) h0 = Some (Inr ?l)"
        using mseg_last [OF ms, of h0] Cons h0 by simp
      then show ?thesis using m h0 by (simp add: mmap_block_def upd_def load_def)
    qed
    ultimately show ?thesis using rep ok' by (auto simp: buddy_rep_def)
  qed
qed

lemma Malloc_large:
  assumes rep: "buddy_rep s base bs ms" and n: "MAX_SIZE \<le> n" "n \<le> MAX_SIZE_TO_ALLOCATE"
    and env: "\<And>a. mmap_result e = Some a \<Longrightarrow> outside base a n \<and> (\<forall>x \<in> set ms. clear_of (a, n) x)"
  shows "case mmap_result e of
      None \<Rightarrow> Malloc_3 e n s = Some (Inr (None, s))
    | Some a \<Rightarrow> \<exists>s'. Malloc_3 e n s = Some (Inr (Some (a + 40), s')) \<and> buddy_rep s' base bs (ms @ [(a, n)]) \<and> bytes3 s' = bytes3 s"
proof -
  have M: "Malloc_3 e n s = (case mmap_result e of None \<Rightarrow> Some (Inr (None, s))
        | Some a \<Rightarrow> cbind (mmap_block a n s) (\<lambda>s1. Some (Inr (Some (a + sizeof_md3), s1))))"
    using rep n by (simp add: Malloc_3_def buddy_rep_def MAX_SIZE_def)
  show ?thesis
  proof (cases "mmap_result e")
    case (Some a)
    then show ?thesis using M mmap_block_rep [OF rep, of a n] env [OF Some] by (auto simp: sizeof_md3_def)
  qed (simp add: M)
qed

section \<open>The first request\<close>

definition fresh :: "MemList3 \<Rightarrow> bool" where
  "fresh s \<longleftrightarrow> head3 s = None \<and> MMAPhead s = None \<and> freed s = replicate 11 []"

definition arena_base :: "env3 \<Rightarrow> nat" where
  "arena_base e = brk e + (arena - brk e mod arena)"

definition whole_arena :: "nat \<Rightarrow> bblock list" where
  "whole_arena base = map (\<lambda>i. (base + i * MAX_SIZE, 10, True)) [0..<32]"

lemma fold_upd_other: "(\<And>i. i \<in> set is \<Longrightarrow> g i \<noteq> x) \<Longrightarrow> fold (\<lambda>i h. h(g i \<mapsto> v i)) is h x = h x"
  by (induction "is" arbitrary: h) auto

lemma fold_upd_at:
  "inj g \<Longrightarrow> distinct is \<Longrightarrow> i \<in> set is \<Longrightarrow> fold (\<lambda>i h. h(g i \<mapsto> v i)) is h (g i) = Some (v i)"
proof (induction "is" arbitrary: h)
  case (Cons j js)
  show ?case
  proof (cases "i = j")
    case True
    have "fold (\<lambda>i h. h(g i \<mapsto> v i)) js (h(g j \<mapsto> v j)) (g j) = (h(g j \<mapsto> v j)) (g j)"
      by (rule fold_upd_other) (use Cons.prems in \<open>auto simp: inj_eq\<close>)
    then show ?thesis using True by (simp only: fold_simps fun_upd_same)
  next
    case False
    then show ?thesis using Cons by simp
  qed
qed simp

lemma btiled_whole:
  assumes "MAX_SIZE dvd base" and "i \<le> 32"
  shows "btiled (base + i * MAX_SIZE) (map (\<lambda>i. (base + i * MAX_SIZE, 10, True)) [i..<32]) (base + arena)"
  using assms(2)
proof (induction rule: inc_induct)
  case base
  then show ?case by (simp add: arena_def MAX_SIZE_def)
next
  case (step i)
  have "MAX_SIZE dvd base + i * MAX_SIZE" using assms(1) by simp
  then show ?case using step by (simp add: upt_conv_Cons blk_10 algebra_simps)
qed

lemma dseg_whole:
  assumes "i \<le> 32" and "\<And>j. j < 32 \<Longrightarrow> h (base + j * MAX_SIZE) = Some (block_md c base j)"
  shows "dseg c h (if i = 0 then None else Some (base + (i - 1) * MAX_SIZE))
    (map (\<lambda>i. (base + i * MAX_SIZE, 10, True)) [i..<32]) None"
  using assms(1)
proof (induction rule: inc_induct)
  case base
  then show ?case by simp
next
  case (step i)
  have "block_md c base i = md3 c 10 True (hdp (map (\<lambda>i. (base + i * MAX_SIZE, 10, True)) [Suc i..<32]) None)
      (if i = 0 then None else Some (base + (i - 1) * MAX_SIZE))"
    using step.hyps by (cases "i = 31") (auto simp: block_md_def md3_def blk_10 sizeof_md3_def MAX_ORDER_def upt_conv_Cons)
  then show ?case using step assms(2) [of i] by (simp add: upt_conv_Cons)
qed

lemma flists_whole: "flists (whole_arena base) = (replicate 11 [])[10 := map (\<lambda>i. base + i * MAX_SIZE) [0..<32]]"
proof (rule nth_equalityI)
  fix k
  assume "k < length (flists (whole_arena base))"
  then have "k < 11" by simp
  then show "flists (whole_arena base) ! k = (replicate 11 [])[10 := map (\<lambda>i. base + i * MAX_SIZE) [0..<32]] ! k"
    by (cases "k = 10") (simp_all add: free_addrs_def whole_arena_def filter_map comp_def)
qed simp

lemma arena_base_aligned: "arena dvd arena_base e"
proof -
  have "brk e mod arena \<le> arena" by (simp add: arena_def mod_le_divisor)
  moreover have "brk e = arena * (brk e div arena) + brk e mod arena" by simp
  ultimately have "arena_base e = arena * (brk e div arena) + arena" unfolding arena_base_def by linarith
  then show ?thesis by simp
qed

lemma init_heap_rep:
  assumes "fresh s" and "brk e mod arena \<noteq> 0" and "sbrk_succeeds e"
  shows "\<exists>s'. init_heap e s = Inr s' \<and> buddy_rep s' (arena_base e) (whole_arena (arena_base e)) [] \<and> bytes3 s' = bytes3 s"
proof -
  let ?b = "arena_base e" and ?c = "EXPECTED_COOKIE_VALUE s"
  let ?h = "fold (\<lambda>i h. h(?b + i * MAX_SIZE \<mapsto> block_md ?c ?b i)) [0..<32] (meta3 s)"
  have pos: "0 < arena - brk e mod arena" by (simp add: arena_def)
  have "?h (?b + j * MAX_SIZE) = Some (block_md ?c ?b j)" if "j < 32" for j
    using that fold_upd_at [of "\<lambda>i. ?b + i * MAX_SIZE" "[0..<32]" j "block_md ?c ?b" "meta3 s"]
    by (simp add: inj_on_def MAX_SIZE_def)
  then have "dseg ?c ?h None (whole_arena ?b) None" using dseg_whole [of 0 ?h ?b ?c] by (simp add: whole_arena_def)
  moreover have "MAX_SIZE dvd arena" by (simp add: arena_def MAX_SIZE_def)
  then have "btiled ?b (whole_arena ?b) (?b + arena)"
    using btiled_whole [of ?b 0] arena_base_aligned [of e] dvd_trans by (auto simp: whole_arena_def)
  moreover have "init_heap e s = Inr (s\<lparr>freed := flists (whole_arena ?b), head3 := Some ?b, meta3 := ?h\<rparr>)"
    using assms pos by (simp add: init_heap_def Let_def fresh_def freed_upd_def MAX_ORDER_def flists_whole flip: arena_base_def)
  ultimately show ?thesis using assms(1) arena_base_aligned [of e]
    by (simp add: buddy_rep_def fresh_def maps_ok_def)
qed

lemma Malloc_first:
  assumes "fresh s" and "init_heap e s = Inr s'" and "head3 s' = Some base"
  shows "Malloc_3 e n s = Malloc_3 e n s'"
proof -
  have "head3 s = None" using assms(1) by (simp add: fresh_def)
  then show ?thesis unfolding Malloc_3_def using assms(2,3) by simp
qed

section \<open>Live blocks\<close>

text \<open>The payloads of the blocks that are not free and of the mappings, as the two lists show them.\<close>

definition live3 :: "MemList3 \<Rightarrow> nat \<rightharpoonup> nat" where
  "live3 s = (case (walk_list nxt (meta3 s) (\<lambda>a m l. if is_free3 m then l else (a + 40, bsz m) # l) (head3 s) [],
                    walk_list nxt (meta3 s) (\<lambda>a m l. (a + 40, bsz m) # l) (MMAPhead s) []) of
     (Some (Inr us), Some (Inr vs)) \<Rightarrow> map_of (us @ vs) | _ \<Rightarrow> Map.empty)"

definition payload3 :: "bblock list \<Rightarrow> (nat \<times> nat) list" where
  "payload3 bs = map (\<lambda>(a, k, f). (a + 40, blk k - 40)) (filter (\<lambda>(a, k, f). \<not> f) bs)"

lemma walk_dseg:
  "dseg c h pv bs None \<Longrightarrow> walk_list nxt h (\<lambda>a m l. if is_free3 m then l else (a + 40, bsz m) # l) (hdp bs None) acc =
     Some (Inr (rev (payload3 bs) @ acc))"
proof (induction bs arbitrary: pv acc)
  case Nil
  then show ?case by (subst walk_list.simps) (simp add: payload3_def)
next
  case (Cons b bs)
  then show ?case by (subst walk_list.simps) (cases b, auto simp: payload3_def)
qed

lemma walk_mseg:
  "mseg c h p ms \<Longrightarrow> walk_list nxt h (\<lambda>a m l. (a + 40, bsz m) # l) p acc =
     Some (Inr (rev (map (\<lambda>(a, n). (a + 40, n)) ms) @ acc))"
proof (induction ms arbitrary: p acc)
  case Nil
  then show ?case by (subst walk_list.simps) simp
next
  case (Cons b ms)
  then show ?case by (subst walk_list.simps) (cases b, auto)
qed

lemma rep_head: "buddy_rep s base bs ms \<Longrightarrow> head3 s = hdp bs None"
  by (cases bs) (auto simp: buddy_rep_def arena_def)

lemma live3_iff:
  assumes rep: "buddy_rep s base bs ms"
  shows "live3 s p = Some c \<longleftrightarrow>
    (\<exists>a k. p = a + 40 \<and> c = blk k - 40 \<and> (a, k, False) \<in> set bs) \<or> (\<exists>a. p = a + 40 \<and> (a, c) \<in> set ms)"
proof -
  let ?us = "rev (payload3 bs)" and ?vs = "rev (map (\<lambda>(a, n). (a + 40, n)) ms)"
  have t: "btiled base bs (base + arena)" and mok: "maps_ok base ms" using rep by (auto simp: buddy_rep_def)
  have l: "live3 s = map_of (?us @ ?vs)"
    using walk_dseg [of _ _ _ bs "[]"] walk_mseg [of _ _ _ ms "[]"] rep rep_head [OF rep] by (auto simp: live3_def buddy_rep_def)
  have fv: "map fst (map (\<lambda>(a, n). (a + 40, n)) ms) = map (\<lambda>a. a + 40) (map fst ms)" by (simp add: case_prod_unfold)
  have fu: "map fst (payload3 bs) = map (\<lambda>a. a + 40) (map fst (filter (\<lambda>(a, k, f). \<not> f) bs))"
    by (simp add: payload3_def case_prod_unfold)
  have "distinct (map fst (payload3 bs))"
    using btiled_distinct [OF t] unfolding fu by (subst distinct_map) (simp add: distinct_map_filter)
  moreover have "distinct (map fst (map (\<lambda>(a, n). (a + 40, n)) ms))"
    using maps_addrs [OF mok] unfolding fv by (subst distinct_map) simp
  moreover have "set (map fst (payload3 bs)) \<inter> set (map fst (map (\<lambda>(a, n). (a + 40, n)) ms)) = {}"
  proof -
    have "a \<notin> fst ` set ms" if "a \<in> fst ` set bs" for a using maps_apart [OF t mok that] by auto
    moreover have "fst ` set (filter (\<lambda>(a, k, f). \<not> f) bs) \<subseteq> fst ` set bs" by auto
    ultimately have "fst ` set (filter (\<lambda>(a, k, f). \<not> f) bs) \<inter> fst ` set ms = {}" by blast
    then show ?thesis unfolding fu fv set_map by (subst image_Int [symmetric]) auto
  qed
  ultimately have "distinct (map fst (?us @ ?vs))" by (simp add: rev_map [symmetric])
  from map_of_eq_Some_iff [OF this, of p c] show ?thesis unfolding l by (auto simp: payload3_def) force+
qed

lemma live3_apart:
  assumes rep: "buddy_rep s base bs ms"
  shows "regions_apart (live3 s)"
  unfolding regions_apart_def
proof (intro allI impI)
  fix p q c d
  assume p: "live3 s p = Some c" and q: "live3 s q = Some d" and ne: "p \<noteq> q"
  have t: "btiled base bs (base + arena)" and mok: "maps_ok base ms" using rep by (auto simp: buddy_rep_def)
  have inside: "base \<le> a \<and> a + blk k \<le> base + arena" if "(a, k, f) \<in> set bs" for a k f using btiled_block [OF t that] by simp
  have out: "outside base a n" if "(a, n) \<in> set ms" for a n using mok that by (auto simp: maps_ok_def)
  have blk40: "40 \<le> blk k" for k using blk_ge [of k] by simp
  from p consider (b) a k where "p = a + 40" "c = blk k - 40" "(a, k, False) \<in> set bs" | (m) a where "p = a + 40" "(a, c) \<in> set ms"
    using live3_iff [OF rep] by blast
  then show "p + c \<le> q \<or> q + d \<le> p"
  proof cases
    case (b a k)
    from q consider (b') a' k' where "q = a' + 40" "d = blk k' - 40" "(a', k', False) \<in> set bs" | (m') a' where "q = a' + 40" "(a', d) \<in> set ms"
      using live3_iff [OF rep] by blast
    then show ?thesis
    proof cases
      case b'
      then show ?thesis using btiled_split [OF t b(3) b'(3)] b ne blk40 [of k] blk40 [of k'] by auto
    next
      case m'
      then show ?thesis using inside [OF b(3)] out [OF m'(2)] b blk40 [of k] unfolding outside_def by linarith
    qed
  next
    case (m a)
    from q consider (b') a' k' where "q = a' + 40" "d = blk k' - 40" "(a', k', False) \<in> set bs" | (m') a' where "q = a' + 40" "(a', d) \<in> set ms"
      using live3_iff [OF rep] by blast
    then show ?thesis
    proof cases
      case b'
      then show ?thesis using inside [OF b'(3)] out [OF m(2)] m blk40 [of k'] unfolding outside_def by linarith
    next
      case m'
      have "(a, c) \<noteq> (a', d)" using ne m(1) m'(1) by simp
      then have "clear_of (a, c) (a', d)" using mok m(2) m'(2) unfolding maps_ok_def pairwise_def by blast
      then show ?thesis using m(1) m'(1) by (auto simp: clear_of_def)
    qed
  qed
qed

lemma live3_carve:
  assumes "buddy_rep s base bs ms" and "buddy_rep s' base bs' ms" and "balloc n bs = Some (a, bs')"
  shows "live3 s (a + 40) = None" and "\<exists>c \<ge> n. live3 s' = (live3 s)(a + 40 \<mapsto> c)"
proof -
  obtain us i vs where u: "bs = us @ (a, i, True) # vs" "bs' = us @ (a, tight n i, False) # halves a (tight n i) i @ vs"
    "n \<le> blk i - 40"
    using balloc_Some [OF assms(3)] by blast
  have t: "btiled base bs (base + arena)" "btiled base bs' (base + arena)" using assms by (simp_all add: buddy_rep_def)
  have "(a, k, False) \<notin> set bs" for k using btiled_same_start [OF t(1), of a i True k False] u(1) by auto
  moreover have nm: "(a, c) \<notin> set ms" for c using maps_apart [OF t(1)] assms(1) u(1) by (simp add: buddy_rep_def)
  ultimately show "live3 s (a + 40) = None" using live3_iff [OF assms(1), of "a + 40"] by (cases "live3 s (a + 40)") auto
  have mem: "(p, k, False) \<in> set bs' \<longleftrightarrow> (if p = a then k = tight n i else (p, k, False) \<in> set bs)" for p k
  proof -
    have "(p, k, False) \<notin> set (halves a (tight n i) i)" by (auto simp: halves_def)
    moreover have "(a, k, False) \<notin> set us" "(a, k, False) \<notin> set vs"
      using \<open>(a, k, False) \<notin> set bs\<close> u(1) by auto
    ultimately show ?thesis using u by auto
  qed
  have "live3 s' q = Some c \<longleftrightarrow> ((live3 s)(a + 40 \<mapsto> blk (tight n i) - 40)) q = Some c" for q c
  proof (cases "q = a + 40")
    case True
    then show ?thesis using nm by (simp add: live3_iff [OF assms(2)] mem) auto
  next
    case False
    then show ?thesis by (simp add: live3_iff [OF assms(1)] live3_iff [OF assms(2)] mem) auto
  qed
  then have "live3 s' = (live3 s)(a + 40 \<mapsto> blk (tight n i) - 40)" by (rule map_eqI)
  then show "\<exists>c \<ge> n. live3 s' = (live3 s)(a + 40 \<mapsto> c)" using tight_fits [OF u(3)] by blast
qed

lemma live3_map:
  assumes "buddy_rep s base bs ms" and "buddy_rep s' base bs (ms @ [(a, n)])"
  shows "live3 s (a + 40) = None" and "live3 s' = (live3 s)(a + 40 \<mapsto> n)"
proof -
  have t: "btiled base bs (base + arena)" and mok: "maps_ok base (ms @ [(a, n)])" using assms by (simp_all add: buddy_rep_def)
  have "a \<notin> fst ` set bs" using maps_apart [OF t mok] by auto
  then have nb: "(a, k, f) \<notin> set bs" for k f by (force simp: image_iff)
  have "a \<notin> fst ` set ms" using maps_addrs [OF mok] by auto
  then have nm: "(a, c) \<notin> set ms" for c by (force simp: image_iff)
  show "live3 s (a + 40) = None" using live3_iff [OF assms(1), of "a + 40"] nb nm by (cases "live3 s (a + 40)") auto
  have "live3 s' q = Some c \<longleftrightarrow> ((live3 s)(a + 40 \<mapsto> n)) q = Some c" for q c
    using live3_iff [OF assms(1), of q c] live3_iff [OF assms(2), of q c] nb nm by auto
  then show "live3 s' = (live3 s)(a + 40 \<mapsto> n)" by (rule map_eqI)
qed

section \<open>The contract\<close>

definition ok3 :: "MemList3 \<Rightarrow> bool" where
  "ok3 s \<longleftrightarrow> fresh s \<or> (\<exists>base bs ms. buddy_rep s base bs ms)"

text \<open>
  The system: before the first call the break is not a multiple of the arena size and \<open>sbrk\<close>
  succeeds; a mapping lies apart from the arena and from the mappings there are.
\<close>

definition env3_ok :: "MemList3 \<Rightarrow> env3 \<Rightarrow> nat \<Rightarrow> bool" where
  "env3_ok s e n \<longleftrightarrow> (fresh s \<longrightarrow> brk e mod arena \<noteq> 0 \<and> sbrk_succeeds e) \<and>
     (\<forall>a. mmap_result e = Some a \<longrightarrow> (fresh s \<longrightarrow> outside (arena_base e) a n) \<and>
       (\<forall>base bs ms. buddy_rep s base bs ms \<longrightarrow> outside base a n \<and> (\<forall>x \<in> set ms. clear_of (a, n) x)))"

lemma walk_list_None [simp]: "walk_list link h g None acc = Some (Inr acc)"
  by (subst walk_list.simps) simp

lemma live3_fresh: "fresh s \<Longrightarrow> live3 s = Map.empty"
  by (simp add: live3_def fresh_def)

lemma live3_whole: "buddy_rep s base (whole_arena base) [] \<Longrightarrow> live3 s = Map.empty"
proof (rule map_eqI)
  fix x y
  assume "buddy_rep s base (whole_arena base) []"
  then show "live3 s x = Some y \<longleftrightarrow> Map.empty x = Some y"
    by (simp add: live3_iff) (auto simp: whole_arena_def)
qed

lemma smalloc_3_rep:
  assumes rep: "buddy_rep s base bs ms"
    and env: "\<And>a. mmap_result e = Some a \<Longrightarrow> outside base a n \<and> (\<forall>x \<in> set ms. clear_of (a, n) x)"
  shows "\<exists>r s'. smalloc_3 e n s = Some (Inr (r, s')) \<and> ok3 s' \<and> bytes3 s' = bytes3 s \<and>
    (case r of None \<Rightarrow> live3 s' = live3 s
     | Some p \<Rightarrow> live3 s p = None \<and> (\<exists>c \<ge> n. live3 s' = (live3 s)(p \<mapsto> c)))"
proof -
  consider (bad) "n = 0 \<or> MAX_SIZE_TO_ALLOCATE < n" | (small) "0 < n" "n < MAX_SIZE" | (large) "MAX_SIZE \<le> n" "n \<le> MAX_SIZE_TO_ALLOCATE"
    by linarith
  then show ?thesis
  proof cases
    case bad
    then have "smalloc_3 e n s = Some (Inr (None, s))" using rep by (auto simp: smalloc_3_def Malloc_3_def buddy_rep_def)
    then show ?thesis using rep by (auto simp: ok3_def)
  next
    case small
    show ?thesis
    proof (cases "balloc n bs")
      case None
      then show ?thesis using Malloc_small [OF rep small, of e] rep by (auto simp: smalloc_3_def ok3_def)
    next
      case (Some p)
      obtain a bs' where p: "p = (a, bs')" by (cases p)
      then obtain s' where s': "Malloc_3 e n s = Some (Inr (Some (a + 40), s'))" "buddy_rep s' base bs' ms" "bytes3 s' = bytes3 s"
        using Malloc_small [OF rep small, of e] Some by auto
      then show ?thesis using live3_carve [OF rep s'(2), of n a] Some p
        by (auto simp: smalloc_3_def ok3_def)
    qed
  next
    case large
    show ?thesis
    proof (cases "mmap_result e")
      case None
      then show ?thesis using Malloc_large [OF rep large, of e] rep env by (auto simp: smalloc_3_def ok3_def)
    next
      case (Some a)
      then obtain s' where s': "Malloc_3 e n s = Some (Inr (Some (a + 40), s'))" "buddy_rep s' base bs (ms @ [(a, n)])" "bytes3 s' = bytes3 s"
        using Malloc_large [OF rep large, of e] env by auto
      then show ?thesis using live3_map [OF rep s'(2)] by (auto simp: smalloc_3_def ok3_def)
    qed
  qed
qed

lemma smalloc_3_law:
  assumes "ok3 s" and env: "env3_ok s e n"
  shows "\<exists>r s'. smalloc_3 e n s = Some (Inr (r, s')) \<and> ok3 s' \<and> bytes3 s' = bytes3 s \<and>
    (case r of None \<Rightarrow> live3 s' = live3 s
     | Some p \<Rightarrow> live3 s p = None \<and> (\<exists>c \<ge> n. live3 s' = (live3 s)(p \<mapsto> c)))"
proof (cases "fresh s")
  case True
  then obtain s0 where s0: "init_heap e s = Inr s0" "buddy_rep s0 (arena_base e) (whole_arena (arena_base e)) []" "bytes3 s0 = bytes3 s"
    using env init_heap_rep [of s e] by (auto simp: env3_ok_def)
  have eq: "smalloc_3 e n s = smalloc_3 e n s0"
    using Malloc_first [OF True s0(1)] s0(2) by (simp add: smalloc_3_def buddy_rep_def)
  have live: "live3 s = live3 s0" using live3_fresh [OF True] live3_whole [OF s0(2)] by simp
  have "mmap_result e = Some a \<Longrightarrow> outside (arena_base e) a n" for a using env True by (simp add: env3_ok_def)
  then show ?thesis unfolding eq live s0(3) [symmetric] by (intro smalloc_3_rep [OF s0(2)]) simp
next
  case False
  then obtain base bs ms where rep: "buddy_rep s base bs ms" using assms(1) by (auto simp: ok3_def)
  show ?thesis by (rule smalloc_3_rep [OF rep]) (use env rep in \<open>auto simp: env3_ok_def\<close>)
qed

lemma ok3_apart: "ok3 s \<Longrightarrow> regions_apart (live3 s)"
  unfolding ok3_def by (elim disjE exE) (simp add: live3_fresh regions_apart_def, rule live3_apart)

section \<open>Properties\<close>

text \<open>
  Claim C32. A request below 128 KiB is best fit: of the free blocks that can hold it those of
  the smallest order are considered, of these the one at the lowest address is taken and halved
  down to the smallest order that holds the request (\<open>tight_least\<close>); the halves split off become
  free blocks, nothing else changes, and NULL is returned exactly when no free block is large
  enough.
\<close>

theorem smalloc_3_best_fit:
  assumes "buddy_rep s base bs ms" and "0 < n" and "n < MAX_SIZE"
  shows "\<exists>r s'. smalloc_3 e n s = Some (Inr (r, s')) \<and> bytes3 s' = bytes3 s \<and>
    (case r of
       None \<Rightarrow> s' = s \<and> (\<forall>(a, k, f) \<in> set bs. f \<longrightarrow> blk k - 40 < n)
     | Some p \<Rightarrow> (\<exists>us a k vs. p = a + 40 \<and> bs = us @ (a, k, True) # vs \<and>
         buddy_rep s' base (us @ (a, tight n k, False) # halves a (tight n k) k @ vs) ms \<and>
         (\<forall>(b, j, f) \<in> set bs. f \<longrightarrow> n \<le> blk j - 40 \<longrightarrow> k \<le> j) \<and> (\<forall>(b, j, f) \<in> set us. f \<longrightarrow> j \<noteq> k)))"
proof (cases "balloc n bs")
  case None
  have "blk k - 40 < n" if "(a, k, True) \<in> set bs" for a k
    using None that btiled_block [of base bs "base + arena" a k True] assms(1)
    by (intro pick_None [of n bs a k]) (simp_all add: balloc_None buddy_rep_def)
  then show ?thesis using Malloc_small [OF assms, of e] None by (auto simp: smalloc_3_def)
next
  case (Some p)
  obtain a bs' where p: "p = (a, bs')" by (cases p)
  obtain us i vs where u: "bs = us @ (a, i, True) # vs" "bs' = us @ (a, tight n i, False) # halves a (tight n i) i @ vs"
    "pick n bs = Some i" "free_addrs i us = []"
    using balloc_Some [of n bs a bs'] Some p by auto
  have "i \<le> j" if "(b, j, True) \<in> set bs" "n \<le> blk j - 40" for b j using pick_least [OF u(3) that] .
  then have "\<forall>(b, j, f) \<in> set bs. f \<longrightarrow> n \<le> blk j - 40 \<longrightarrow> i \<le> j" by auto
  moreover have "\<forall>(b, j, f) \<in> set us. f \<longrightarrow> j \<noteq> i" using u(4) free_addrs_set [of i us] by auto
  moreover obtain s' where "smalloc_3 e n s = Some (Inr (Some (a + 40), s'))" "buddy_rep s' base bs' ms" "bytes3 s' = bytes3 s"
    using Malloc_small [OF assms, of e] Some p by (auto simp: smalloc_3_def)
  ultimately show ?thesis using u(1,2)
    by (intro exI [of _ "Some (a + 40)"] exI [of _ s'] conjI) (simp_all only: option.case, blast)
qed

end
