(* ===== verification/BuddyFree.thy ===== *)
theory BuddyFree
  imports BuddyInv
begin

unbundle bit_operations_syntax

text \<open>
  Release in the buddy allocator: what merging does when every free buddy it meets has the order
  of the block, that frees in the reverse order of the requests always meet that condition,
  and what happens when it fails.
\<close>

section \<open>One merge\<close>

lemma btiled_join:
  "btiled base (us @ (a, k, f) # (a + blk k, k, g) # vs) z \<Longrightarrow> blk (Suc k) dvd a \<Longrightarrow> k < 10 \<Longrightarrow>
     btiled base (us @ (a, Suc k, f') # vs) z"
  by (auto simp: blk_Suc mult_2 add.assoc)

lemma flists_drop:
  assumes "k < 11" and "a \<notin> fst ` set us" "a \<notin> fst ` set vs" "b \<notin> fst ` set us" "b \<notin> fst ` set vs"
    and "\<forall>(p, j, f) \<in> set xs. p \<in> {a, b} \<and> j = k"
  shows "(flists (us @ xs @ vs))[k := removeAll b (removeAll a (flists (us @ xs @ vs) ! k))] = flists (us @ vs)"
proof (rule flists_update)
  have "set (free_addrs k us) \<subseteq> fst ` set us" "set (free_addrs k vs) \<subseteq> fst ` set vs" by (force simp: free_addrs_set)+
  moreover have "set (free_addrs k xs) \<subseteq> {a, b}" using assms(6) by (auto simp: free_addrs_set)
  then have "removeAll b (removeAll a (free_addrs k xs)) = []"
    by (auto simp: filter_empty_conv removeAll_filter_not_eq)
  ultimately show "free_addrs k (us @ vs) = removeAll b (removeAll a (flists (us @ xs @ vs) ! k))"
    using assms(1-5) by simp (metis removeAll_id subsetD)
  show "free_addrs j (us @ vs) = free_addrs j (us @ xs @ vs)" if "j \<noteq> k" for j
  proof -
    have "set (free_addrs j xs) = {}" using assms(6) that by (auto simp: free_addrs_set)
    then show ?thesis by simp
  qed
qed (rule assms(1))

lemma absorb_rep:
  assumes t: "btiled base (us @ (a, k, f) # (a + blk k, k, g) # vs) z" and ad: "blk (Suc k) dvd a" "k < 10"
    and d: "dseg (EXPECTED_COOKIE_VALUE s) (meta3 s) None (us @ (a, k, f) # (a + blk k, k, g) # vs) None"
    and fr: "freed s = flists (us @ xs @ vs)" and xs: "\<forall>(p, j, f) \<in> set xs. p \<in> {a, a + blk k} \<and> j = k"
  shows "\<exists>h. absorb a (a + blk k) (int k) s = Inr (s\<lparr>meta3 := h, freed := flists (us @ vs)\<rparr>) \<and>
    dseg (EXPECTED_COOKIE_VALUE s) h None (us @ (a, Suc k, True) # vs) None \<and>
    (\<forall>x. x < base \<or> z \<le> x \<longrightarrow> h x = meta3 s x)"
proof -
  let ?c = "EXPECTED_COOKIE_VALUE s" and ?b = "a + blk k"
  let ?h1 = "(meta3 s)(a \<mapsto> md3 ?c (Suc k) True (hdp vs None) (lastp None us))"
  let ?h2 = "relink (hdp vs None) a ?h1"
  have dis: "a \<notin> fst ` set us" "a \<notin> fst ` set vs" "?b \<notin> fst ` set us" "?b \<notin> fst ` set vs" "distinct (map fst vs)"
    "fst ` set us \<inter> fst ` set vs = {}"
    using btiled_distinct [OF t] by auto
  have m: "meta3 s a = Some (md3 ?c k f (Some ?b) (lastp None us))" "meta3 s ?b = Some (md3 ?c k g (hdp vs None) (Some a))"
    using d by auto
  have k11: "k < 11" using ad(2) by simp
  have fu: "freed_upd (int k) (\<lambda>l. removeAll ?b (removeAll a l)) s = Inr (s\<lparr>freed := flists (us @ vs)\<rparr>)"
  proof -
    have "(flists (us @ xs @ vs))[k := removeAll ?b (removeAll a (flists (us @ xs @ vs) ! k))] = flists (us @ vs)"
      by (rule flists_drop [OF k11 dis(1-4) xs])
    then show ?thesis using k11 fr by (simp add: freed_upd_def)
  qed
  have sz: "order_size (int k + 1) = Inr (blk (Suc k) - 40)" using order_size_blk [of "Suc k"] ad(2) by (simp add: add.commute)
  have vs1: "dseg ?c ?h1 (Some ?b) vs None" using d dis(2) by (subst dseg_frame [of vs _ "meta3 s"]) auto
  have mm: "(md3 ?c k f (Some ?b) (lastp None us))\<lparr>nxt := hdp vs None, order := int k + 1, bsz := blk (Suc k) - 40, is_free3 := True\<rparr> =
      md3 ?c (Suc k) True (hdp vs None) (lastp None us)"
    by (simp add: md3_def)
  have sp: "set_prev (hdp vs None) a (s\<lparr>freed := flists (us @ vs), meta3 := ?h1\<rparr>) =
      Inr (s\<lparr>freed := flists (us @ vs), meta3 := ?h2\<rparr>)"
    using hdp_mapped [OF vs1] by (subst set_prev_relink) auto
  have "absorb a ?b (int k) s = Inr (s\<lparr>meta3 := ?h2, freed := flists (us @ vs)\<rparr>)"
    using fu m sz sp by (simp add: absorb_def load_def upd_def mm)
  moreover have "dseg ?c ?h2 None (us @ (a, Suc k, True) # vs) None"
  proof -
    have "dseg ?c ?h2 None us (Some a) = dseg ?c (meta3 s) None us (Some a)"
    proof (rule dseg_frame)
      fix x
      assume "x \<in> fst ` set us"
      then have "x \<notin> fst ` set vs" "x \<noteq> a" using dis by blast+
      then show "?h2 x = meta3 s x" using hdp_notin [of x vs] by (simp add: relink_other)
    qed
    moreover have "?h2 a = ?h1 a" using hdp_notin [OF dis(2)] by (rule relink_other)
    ultimately show ?thesis using d dseg_relink [OF vs1 dis(5), of a] by simp
  qed
  moreover have "?h2 x = meta3 s x" if x: "x < base \<or> z \<le> x" for x
  proof -
    have "x \<notin> fst ` set (us @ (a, k, f) # (?b, k, g) # vs)" using block_addrs_inside [OF t, of x] x by linarith
    then have "x \<noteq> a" "x \<notin> fst ` set vs" by auto
    then show ?thesis using hdp_notin [of x vs] by (simp add: relink_other)
  qed
  ultimately show ?thesis by blast
qed

section \<open>The loop\<close>

text \<open>
  The blocks before and behind the block that is released, which grows as long as its buddy is
  a free block of its own order.
\<close>

type_synonym focus = "bblock list \<times> nat \<times> nat \<times> bblock list"

inductive coalesce :: "focus \<Rightarrow> focus \<Rightarrow> bool" where
  co_stop: "(a XOR blk k, j, g) \<in> set (us @ vs) \<Longrightarrow> \<not> (g \<and> j < 10) \<Longrightarrow> coalesce (us, a, k, vs) (us, a, k, vs)"
| co_low: "blk (Suc k) dvd a \<Longrightarrow> k < 10 \<Longrightarrow> coalesce (us, a, Suc k, vs) r \<Longrightarrow>
    coalesce (us, a, k, (a + blk k, k, True) # vs) r"
| co_high: "\<not> blk (Suc k) dvd b + blk k \<Longrightarrow> k < 10 \<Longrightarrow> coalesce (us, b, Suc k, vs) r \<Longrightarrow>
    coalesce (us @ [(b, k, True)], b + blk k, k, vs) r"

fun blocks_of :: "bool \<Rightarrow> focus \<Rightarrow> bblock list" where
  "blocks_of f (us, a, k, vs) = us @ (a, k, f) # vs"

lemma buddy_of_blk: "k \<le> 10 \<Longrightarrow> buddy_of a (int k) = Inr (a XOR blk k)"
  by (simp add: buddy_of_def)

lemma merge_loop_step:
  assumes "meta3 s a = Some m" and "order m = int k" and "k \<le> 10" and "meta3 s (a XOR blk k) = Some bm"
    and "cookie m = EXPECTED_COOKIE_VALUE s" and "cookie bm = EXPECTED_COOKIE_VALUE s"
  shows "merge_loop go a s =
    (if is_free3 bm \<and> order bm < 10 \<and> go m then
       if a XOR blk k > a then cbind (Some (absorb a (a XOR blk k) (order bm) s)) (\<lambda>s1. merge_loop go a s1)
       else cbind (Some (absorb (a XOR blk k) a (order bm) s)) (\<lambda>s1. merge_loop go (a XOR blk k) s1)
     else Some (Inr (a, a XOR blk k, s)))"
  using assms by (subst merge_loop.simps) (simp add: load_def buddy_of_blk)

definition merged :: "MemList3 \<Rightarrow> nat \<Rightarrow> nat \<Rightarrow> nat \<Rightarrow> focus \<Rightarrow> bool" where
  "merged s base z a r \<longleftrightarrow> (\<exists>h f. merge_loop (\<lambda>_. True) a s =
       Some (Inr (fst (snd r), fst (snd r) XOR blk (fst (snd (snd r))), s\<lparr>meta3 := h, freed := flists (fst r @ snd (snd (snd r)))\<rparr>)) \<and>
     dseg (EXPECTED_COOKIE_VALUE s) h None (blocks_of f r) None \<and> btiled base (blocks_of f r) z \<and>
     (\<forall>x. x < base \<or> z \<le> x \<longrightarrow> h x = meta3 s x))"

lemma merged_step:
  assumes "merge_loop (\<lambda>_. True) a s = merge_loop (\<lambda>_. True) b (s\<lparr>meta3 := h, freed := fl\<rparr>)"
    and "\<forall>x. x < base \<or> z \<le> x \<longrightarrow> h x = meta3 s x" and "merged (s\<lparr>meta3 := h, freed := fl\<rparr>) base z b r"
  shows "merged s base z a r"
  using assms unfolding merged_def by fastforce

lemma merge_loop_rep:
  "coalesce (us, a, k, vs) r \<Longrightarrow> btiled base (us @ (a, k, f) # vs) z \<Longrightarrow>
     dseg (EXPECTED_COOKIE_VALUE s) (meta3 s) None (us @ (a, k, f) # vs) None \<Longrightarrow> freed s = flists (us @ vs) \<Longrightarrow>
     merged s base z a r"
proof (induction "(us, a, k, vs)" r arbitrary: us a k vs f s rule: coalesce.induct)
  case (co_stop a k j g us vs)
  have k: "k \<le> 10" using co_stop.prems(1) by simp
  obtain nx pv where bm: "meta3 s (a XOR blk k) = Some (md3 (EXPECTED_COOKIE_VALUE s) j g nx pv)"
    using dseg_lookup [OF co_stop.prems(2), of "a XOR blk k" j g] co_stop.hyps(1) by auto
  have "merge_loop (\<lambda>_. True) a s = Some (Inr (a, a XOR blk k, s))"
    using co_stop.prems(2) co_stop.hyps(2) by (subst merge_loop_step [OF _ _ k bm]) auto
  then show ?case unfolding merged_def using co_stop.prems by (intro exI [of _ "meta3 s"] exI [of _ f]) simp
next
  case (co_low k a us vs r)
  let ?b = "a + blk k"
  have b: "a XOR blk k = ?b" by (rule buddy_low [OF co_low.hyps(1)])
  have bm: "meta3 s (a XOR blk k) = Some (md3 (EXPECTED_COOKIE_VALUE s) k True (hdp vs None) (Some a))"
    and am: "meta3 s a = Some (md3 (EXPECTED_COOKIE_VALUE s) k f (Some ?b) (lastp None us))"
    using co_low.prems(2) b by simp_all
  obtain h where h: "absorb a ?b (int k) s = Inr (s\<lparr>meta3 := h, freed := flists (us @ vs)\<rparr>)"
    "dseg (EXPECTED_COOKIE_VALUE s) h None (us @ (a, Suc k, True) # vs) None" "\<forall>x. x < base \<or> z \<le> x \<longrightarrow> h x = meta3 s x"
    using absorb_rep [OF co_low.prems(1) co_low.hyps(1,2) co_low.prems(2), of "[(?b, k, True)]"] co_low.prems(3) by auto
  have "merge_loop (\<lambda>_. True) a s = merge_loop (\<lambda>_. True) a (s\<lparr>meta3 := h, freed := flists (us @ vs)\<rparr>)"
    using co_low.hyps(2) h(1) b blk_pos [of k] by (subst merge_loop_step [OF am _ _ bm]) simp_all
  moreover have "merged (s\<lparr>meta3 := h, freed := flists (us @ vs)\<rparr>) base z a r"
    using h(2) by (intro co_low.hyps(4) [OF btiled_join [OF co_low.prems(1) co_low.hyps(1,2)]]) simp_all
  ultimately show ?case by (rule merged_step [OF _ h(3)])
next
  case (co_high k b us vs r)
  let ?a = "b + blk k"
  have t: "btiled base (us @ (b, k, True) # (?a, k, f) # vs) z" using co_high.prems(1) by simp
  then have ad: "blk k dvd ?a" by simp
  have xb: "?a XOR blk k = b" and bd: "blk (Suc k) dvd b" using buddy_high [OF ad co_high.hyps(1)] by simp_all
  have d: "dseg (EXPECTED_COOKIE_VALUE s) (meta3 s) None (us @ (b, k, True) # (?a, k, f) # vs) None"
    using co_high.prems(2) by simp
  have bm: "meta3 s (?a XOR blk k) = Some (md3 (EXPECTED_COOKIE_VALUE s) k True (Some ?a) (lastp None us))"
    using d xb by simp
  have am: "meta3 s ?a = Some (md3 (EXPECTED_COOKIE_VALUE s) k f (hdp vs None) (Some b))" using d by simp
  obtain h where h: "absorb b ?a (int k) s = Inr (s\<lparr>meta3 := h, freed := flists (us @ vs)\<rparr>)"
    "dseg (EXPECTED_COOKIE_VALUE s) h None (us @ (b, Suc k, True) # vs) None" "\<forall>x. x < base \<or> z \<le> x \<longrightarrow> h x = meta3 s x"
    using absorb_rep [OF t bd co_high.hyps(2) d, of "[(b, k, True)]"] co_high.prems(3) by auto
  have "merge_loop (\<lambda>_. True) ?a s = merge_loop (\<lambda>_. True) b (s\<lparr>meta3 := h, freed := flists (us @ vs)\<rparr>)"
    using co_high.hyps(2) h(1) xb blk_pos [of k] by (subst merge_loop_step [OF am _ _ bm]) simp_all
  moreover have "merged (s\<lparr>meta3 := h, freed := flists (us @ vs)\<rparr>) base z b r"
    using h(2) by (intro co_high.hyps(4) [OF btiled_join [OF t bd co_high.hyps(2)]]) simp_all
  ultimately show ?case by (rule merged_step [OF _ h(3)])
qed

lemma coalesce_allocated:
  "coalesce x r \<Longrightarrow> filter (\<lambda>(a, k, f). \<not> f) (fst x @ snd (snd (snd x))) = filter (\<lambda>(a, k, f). \<not> f) (fst r @ snd (snd (snd r)))"
  by (induction rule: coalesce.induct) auto

lemma coalesce_in_use:
  assumes "coalesce (us, a, k, vs) (us', a', k', vs')"
  shows "(p, j, False) \<in> set (us' @ vs') \<longleftrightarrow> (p, j, False) \<in> set (us @ vs)"
proof -
  have "set (filter (\<lambda>(a, k, f). \<not> f) (us' @ vs')) = set (filter (\<lambda>(a, k, f). \<not> f) (us @ vs))"
    using coalesce_allocated [OF assms] by simp
  then show ?thesis unfolding set_filter set_eq_iff by simp blast
qed

lemma UnionIfPossible_merged:
  assumes rep: "buddy_rep s base bs ms" and a: "(a, k, g) \<in> set bs" and mg: "merged s base (base + arena) a (us', a', k', vs')"
  shows "\<exists>s'. UnionIfPossible a s = Some (Inr s') \<and> buddy_rep s' base (us' @ (a', k', True) # vs') ms \<and> bytes3 s' = bytes3 s"
proof -
  let ?c = "EXPECTED_COOKIE_VALUE s" and ?z = "base + arena"
  obtain nx pv where d: "meta3 s a = Some (md3 ?c k g nx pv)" using dseg_lookup [of ?c "meta3 s" None bs None a k g] a rep by (auto simp: buddy_rep_def)
  from mg obtain h f where
    m: "merge_loop (\<lambda>_. True) a s = Some (Inr (a', a' XOR blk k', s\<lparr>meta3 := h, freed := flists (us' @ vs')\<rparr>))"
    and h: "dseg ?c h None (us' @ (a', k', f) # vs') None" "btiled base (us' @ (a', k', f) # vs') ?z"
      "\<forall>x. x < base \<or> ?z \<le> x \<longrightarrow> h x = meta3 s x"
    by (auto simp: merged_def)
  let ?s1 = "s\<lparr>meta3 := h, freed := flists (us' @ vs')\<rparr>"
  obtain md where md: "h a' = Some md" "dseg ?c (h(a' \<mapsto> md\<lparr>is_free3 := True\<rparr>)) None (us' @ (a', k', True) # vs') None"
    using dseg_set_free [OF h(1,2), of True] by blast
  let ?h = "h(a' \<mapsto> md\<lparr>is_free3 := True\<rparr>)"
  have "order md = int k'" using h(1) md(1) by simp
  moreover have "AddToFreeOrder a' (int k') (s\<lparr>freed := flists (us' @ vs'), meta3 := ?h\<rparr>) =
      Inr (s\<lparr>meta3 := ?h, freed := flists (us' @ (a', k', True) # vs')\<rparr>)"
    using btiled_order [OF h(2)] h(2) by (subst AddToFreeOrder_flists [of us' a' vs' k']) auto
  ultimately have "UnionIfPossible a s = Some (Inr (s\<lparr>meta3 := ?h, freed := flists (us' @ (a', k', True) # vs')\<rparr>))"
    using d m md(1) by (simp add: UnionIfPossible_def load_def upd_def)
  moreover have "buddy_rep (s\<lparr>meta3 := ?h, freed := flists (us' @ (a', k', True) # vs')\<rparr>) base (us' @ (a', k', True) # vs') ms"
  proof -
    have "base \<le> a'" "a' < ?z" using block_addrs_inside [OF h(2), of a'] by auto
    then have "\<forall>x. x < base \<or> ?z \<le> x \<longrightarrow> ?h x = meta3 s x" using h(3) by auto
    then have "mseg ?c ?h (MMAPhead s) ms" using maps_frame [of base ms ?h "meta3 s"] rep by (simp add: buddy_rep_def)
    moreover have "btiled base (us' @ (a', k', True) # vs') ?z" using h(2) by simp
    ultimately show ?thesis using rep md(2) unfolding buddy_rep_def
      by (simp del: dseg_append dseg.simps btiled_append btiled.simps)
  qed
  ultimately show ?thesis
    by (intro exI [of _ "s\<lparr>meta3 := ?h, freed := flists (us' @ (a', k', True) # vs')\<rparr>"] conjI) simp_all
qed

lemma UnionIfPossible_rep:
  assumes rep: "buddy_rep s base (us @ (a, k, False) # vs) ms" and co: "coalesce (us, a, k, vs) (us', a', k', vs')"
  shows "\<exists>s'. UnionIfPossible a s = Some (Inr s') \<and> buddy_rep s' base (us' @ (a', k', True) # vs') ms \<and> bytes3 s' = bytes3 s"
proof (rule UnionIfPossible_merged [OF rep, of a k False])
  show "merged s base (base + arena) a (us', a', k', vs')"
    using rep by (intro merge_loop_rep [OF co]) (auto simp: buddy_rep_def flists_def free_addrs_Cons)
qed simp

lemma live3_released:
  assumes rep: "buddy_rep s base (us @ (a, k, False) # vs) ms" and rep': "buddy_rep s' base (us' @ (a', k', True) # vs') ms"
    and co: "coalesce (us, a, k, vs) (us', a', k', vs')"
  shows "live3 s' = (live3 s)(a + 40 := None)"
proof (rule map_eqI)
  fix q c
  have t: "btiled base (us @ (a, k, False) # vs) (base + arena)" and mok: "maps_ok base ms" using rep by (auto simp: buddy_rep_def)
  have "(p, j, False) \<in> set (us' @ vs') \<longleftrightarrow> (p, j, False) \<in> set (us @ vs)" for p j by (rule coalesce_in_use [OF co])
  moreover have "(a, j, False) \<notin> set (us @ vs)" for j using btiled_apart(1,2) [OF t] by (force simp: image_iff)
  ultimately have mem: "(p, j, False) \<in> set (us' @ (a', k', True) # vs') \<longleftrightarrow> p \<noteq> a \<and> (p, j, False) \<in> set (us @ (a, k, False) # vs)" for p j
    by auto
  have nm: "(a, n) \<notin> set ms" for n by (rule maps_apart [OF t mok]) simp
  show "live3 s' q = Some c \<longleftrightarrow> ((live3 s)(a + 40 := None)) q = Some c"
  proof (cases "q = a + 40")
    case True
    then show ?thesis using nm by (simp add: live3_iff [OF rep'] mem del: set_append)
  next
    case False
    then show ?thesis by (simp add: live3_iff [OF rep'] live3_iff [OF rep] mem del: set_append) auto
  qed
qed

section \<open>Mappings\<close>

lemma find_mmap_rep:
  "mseg c (meta3 s) p (xs @ (a, n) # ys) \<Longrightarrow> a \<notin> fst ` set xs \<Longrightarrow>
     find_mmap a p l s = Some (Inr (a, if xs = [] then l else Some (fst (last xs))))"
proof (induction xs arbitrary: p l)
  case Nil
  then show ?case by (subst find_mmap.simps) simp
next
  case (Cons x xs)
  obtain b m where x: "x = (b, m)" by (cases x)
  obtain nx pv where "p = Some b"
    "meta3 s b = Some \<lparr>cookie = c, bsz = m, is_free3 = False, is_mmap = True, order = -1, nxt = nx, prv = pv\<rparr>"
    "mseg c (meta3 s) nx (xs @ (a, n) # ys)"
    using Cons.prems(1) x by auto
  then show ?case using Cons.IH [of nx "Some b"] Cons.prems(2) x by (subst find_mmap.simps) auto
qed

lemma mseg_skip:
  "mseg c h p (xs @ (a, n) # ys) \<Longrightarrow> xs \<noteq> [] \<Longrightarrow> distinct (map fst (xs @ (a, n) # ys)) \<Longrightarrow> h a = Some m \<Longrightarrow>
     h (fst (last xs)) = Some lm \<Longrightarrow> mseg c (h(fst (last xs) \<mapsto> lm\<lparr>nxt := nxt m\<rparr>)) p (xs @ ys)"
proof (induction xs arbitrary: p)
  case (Cons x xs)
  obtain b k where x: "x = (b, k)" by (cases x)
  show ?case
  proof (cases "xs = []")
    case True
    have "mseg c (h(b \<mapsto> lm\<lparr>nxt := nxt m\<rparr>)) (nxt m) ys = mseg c h (nxt m) ys"
      by (rule mseg_frame) (use Cons.prems(3) x True in \<open>force simp: image_iff\<close>)
    then show ?thesis using Cons.prems True x by (auto simp del: fun_upd_apply simp add: fun_upd_same)
  next
    case False
    have "fst (last xs) \<in> fst ` set xs" using last_in_set [OF False] by (rule imageI)
    then have "fst (last xs) \<noteq> b" using Cons.prems(3) x by auto
    then show ?thesis using Cons False x by (auto simp del: fun_upd_apply simp add: fun_upd_other)
  qed
qed simp

lemma mseg_tail: "mseg c h p (xs @ (a, n) # ys) \<Longrightarrow> h a = Some m \<Longrightarrow> mseg c h (nxt m) ys"
proof (induction xs arbitrary: p)
  case (Cons x xs)
  then show ?case by (cases x) auto
qed auto

lemma mseg_prv:
  assumes "h q = Some k"
  shows "mseg c h p ms \<Longrightarrow> mseg c (h(q \<mapsto> k\<lparr>prv := v\<rparr>)) p ms"
proof (induction ms arbitrary: p)
  case (Cons x ms)
  obtain b n where x: "x = (b, n)" by (cases x)
  then show ?case using Cons assms by (cases "b = q") (auto simp del: fun_upd_apply simp add: fun_upd_same fun_upd_other)
qed simp

lemma maps_ok_remove: "maps_ok base (xs @ (a, n) # ys) \<Longrightarrow> maps_ok base (xs @ ys)"
  by (auto simp: maps_ok_def pairwise_def)

lemma buddy_rep_maps:
  assumes "buddy_rep s base bs ms" and "\<forall>x. base \<le> x \<and> x < base + arena \<longrightarrow> h x = meta3 s x"
    and "mseg (EXPECTED_COOKIE_VALUE s) h p ms'" and "maps_ok base ms'"
  shows "buddy_rep (s\<lparr>meta3 := h, MMAPhead := p\<rparr>) base bs ms'"
proof -
  have "dseg (EXPECTED_COOKIE_VALUE s) h None bs None = dseg (EXPECTED_COOKIE_VALUE s) (meta3 s) None bs None"
    using assms(1,2) block_addrs_inside [of base bs "base + arena"] by (intro dseg_frame) (simp add: buddy_rep_def)
  then show ?thesis using assms by (simp add: buddy_rep_def)
qed

text \<open>The pointer back of the block that follows the one taken out of the list.\<close>

lemma unmap_prv:
  assumes ms: "mseg c (meta3 s) p (xs @ (a, n) # ys)" and mok: "maps_ok base (xs @ (a, n) # ys)"
    and m: "meta3 s a = Some m" and l: "l \<in> fst ` set xs" "h l = Some lm" "\<forall>x. x \<noteq> l \<longrightarrow> h x = meta3 s x"
    and ms1: "mseg c h p (xs @ ys)"
  shows "\<exists>h2. (case nxt m of None \<Rightarrow> Inr (s\<lparr>meta3 := h\<rparr>) | Some q \<Rightarrow> upd q (\<lambda>k. k\<lparr>prv := Some l\<rparr>) (s\<lparr>meta3 := h\<rparr>)) =
      Inr (s\<lparr>meta3 := h2\<rparr>) \<and> mseg c h2 p (xs @ ys) \<and> (\<forall>x. base \<le> x \<and> x < base + arena \<longrightarrow> h2 x = meta3 s x)"
proof -
  have lout: "\<not> (base \<le> l \<and> l < base + arena)" using maps_out [OF mok, of l] l(1) by auto
  show ?thesis
  proof (cases "nxt m")
    case None
    then show ?thesis using ms1 lout l(3) by (intro exI [of _ h]) auto
  next
    case (Some q)
    then have tail: "mseg c (meta3 s) (Some q) ys" using mseg_tail [OF ms m] by simp
    then obtain n1 ys' where ys: "ys = (q, n1) # ys'" by (cases ys) auto
    then obtain k where k: "meta3 s q = Some k" using mseg_mapped [OF tail, of q n1] by auto
    have "q \<noteq> l" using ys l(1) maps_addrs [OF mok] by auto
    then have q: "h q = Some k" "\<not> (base \<le> q \<and> q < base + arena)" using k l(3) maps_out [OF mok, of q] ys by simp_all
    have "mseg c (h(q \<mapsto> k\<lparr>prv := Some l\<rparr>)) p (xs @ ys)" by (rule mseg_prv [OF q(1) ms1])
    then show ?thesis using Some q lout l(3) by (intro exI [of _ "h(q \<mapsto> k\<lparr>prv := Some l\<rparr>)"]) (auto simp: upd_def load_def)
  qed
qed

lemma free_mmap_rep:
  assumes rep: "buddy_rep s base bs (xs @ (a, n) # ys)"
  shows "\<exists>s'. free_mmap a s = Some (Inr s') \<and> buddy_rep s' base bs (xs @ ys) \<and> bytes3 s' = bytes3 s"
proof -
  let ?c = "EXPECTED_COOKIE_VALUE s"
  have mok: "maps_ok base (xs @ (a, n) # ys)" and ms: "mseg ?c (meta3 s) (MMAPhead s) (xs @ (a, n) # ys)"
    using rep by (simp_all add: buddy_rep_def)
  note dist = maps_addrs [OF mok]
  obtain nx pv where m: "meta3 s a = Some \<lparr>cookie = ?c, bsz = n, is_free3 = False, is_mmap = True, order = -1, nxt = nx, prv = pv\<rparr>"
    using mseg_mapped [OF ms, of a n] by auto
  show ?thesis
  proof (cases "xs = []")
    case True
    then have "MMAPhead s = Some a" "mseg ?c (meta3 s) nx ys" using ms m by auto
    then have "free_mmap a s = Some (Inr (s\<lparr>meta3 := meta3 s, MMAPhead := nx\<rparr>))" using m by (simp add: free_mmap_def load_def)
    then show ?thesis using buddy_rep_maps [OF rep, of "meta3 s" nx ys] \<open>mseg ?c (meta3 s) nx ys\<close> maps_ok_remove [OF mok] True by auto
  next
    case False
    let ?l = "fst (last xs)"
    have lin: "?l \<in> fst ` set xs" using last_in_set [OF False] by (rule imageI)
    then obtain n0 where "(?l, n0) \<in> set xs" by force
    then obtain lm where lm: "meta3 s ?l = Some lm" using mseg_mapped [OF ms, of ?l n0] by auto
    have ne: "?l \<noteq> a" using lin dist by auto
    have hd: "MMAPhead s \<noteq> Some a" using ms False dist by (cases xs) auto
    have find: "find_mmap a (MMAPhead s) (MMAPhead s) s = Some (Inr (a, Some ?l))"
      using find_mmap_rep [OF ms] dist False by simp
    let ?h1 = "(meta3 s)(?l \<mapsto> lm\<lparr>nxt := nx\<rparr>)"
    have ms1: "mseg ?c ?h1 (MMAPhead s) (xs @ ys)" using mseg_skip [OF ms False dist m lm] by simp
    obtain h2 where h2: "(case nx of None \<Rightarrow> Inr (s\<lparr>meta3 := ?h1\<rparr>) | Some q \<Rightarrow> upd q (\<lambda>k. k\<lparr>prv := Some ?l\<rparr>) (s\<lparr>meta3 := ?h1\<rparr>)) =
        Inr (s\<lparr>meta3 := h2\<rparr>)" "mseg ?c h2 (MMAPhead s) (xs @ ys)" "\<forall>x. base \<le> x \<and> x < base + arena \<longrightarrow> h2 x = meta3 s x"
      using unmap_prv [OF ms mok m lin _ _ ms1] by auto
    have "mseg ?c (h2(a := None)) (MMAPhead s) (xs @ ys)"
      using h2(2) dist by (subst mseg_frame [of _ _ h2]) (auto simp: image_iff)
    then have "buddy_rep (s\<lparr>meta3 := h2(a := None), MMAPhead := MMAPhead s\<rparr>) base bs (xs @ ys)"
      using h2(3) maps_out [OF mok, of a] maps_ok_remove [OF mok] by (intro buddy_rep_maps [OF rep]) auto
    moreover have "free_mmap a s = Some (Inr (s\<lparr>meta3 := h2(a := None), MMAPhead := MMAPhead s\<rparr>))"
      using hd find m lm h2(1) by (simp add: free_mmap_def load_def upd_def deref_def cong: option.case_cong)
    ultimately show ?thesis by (intro exI [of _ "s\<lparr>meta3 := h2(a := None), MMAPhead := MMAPhead s\<rparr>"] conjI) simp_all
  qed
qed

section \<open>Release\<close>

lemma sfree_3_block:
  assumes rep: "buddy_rep s base (us @ (a, k, False) # vs) ms" and co: "coalesce (us, a, k, vs) (us', a', k', vs')"
  shows "\<exists>s'. sfree_3 (Some (a + 40)) s = Some (Inr s') \<and> buddy_rep s' base (us' @ (a', k', True) # vs') ms \<and>
    bytes3 s' = bytes3 s \<and> live3 s' = (live3 s)(a + 40 := None)"
proof -
  obtain s' where s': "UnionIfPossible a s = Some (Inr s')" "buddy_rep s' base (us' @ (a', k', True) # vs') ms" "bytes3 s' = bytes3 s"
    using UnionIfPossible_rep [OF assms] by blast
  moreover have "sfree_3 (Some (a + 40)) s = UnionIfPossible a s"
    using rep by (simp add: sfree_3_def Free_3_def load_def sizeof_md3_def buddy_rep_def)
  ultimately show ?thesis using live3_released [OF rep s'(2) co] by auto
qed

lemma sfree_3_map:
  assumes rep: "buddy_rep s base bs (xs @ (a, n) # ys)"
  shows "\<exists>s'. sfree_3 (Some (a + 40)) s = Some (Inr s') \<and> buddy_rep s' base bs (xs @ ys) \<and> bytes3 s' = bytes3 s"
proof -
  have ms: "mseg (EXPECTED_COOKIE_VALUE s) (meta3 s) (MMAPhead s) (xs @ (a, n) # ys)" using rep by (simp add: buddy_rep_def)
  have "sfree_3 (Some (a + 40)) s = free_mmap a s"
    using mseg_mapped [OF ms, of a n] by (auto simp: sfree_3_def Free_3_def load_def sizeof_md3_def)
  then show ?thesis using free_mmap_rep [OF rep] by simp
qed

section \<open>The contract\<close>

text \<open>
  The condition of a release: a mapping, or a block for which merging stops properly because every
  free buddy it meets has the order that the block has grown to.
\<close>

definition releasable :: "MemList3 \<Rightarrow> nat \<Rightarrow> bool" where
  "releasable s p \<longleftrightarrow>
     (\<exists>base us a k vs ms r. buddy_rep s base (us @ (a, k, False) # vs) ms \<and> p = a + 40 \<and> coalesce (us, a, k, vs) r) \<or>
     (\<exists>base bs xs a n ys. buddy_rep s base bs (xs @ (a, n) # ys) \<and> p = a + 40)"

lemma live3_unmapped:
  assumes rep: "buddy_rep s base bs (xs @ (a, n) # ys)" and rep': "buddy_rep s' base bs (xs @ ys)"
  shows "live3 s' = (live3 s)(a + 40 := None)"
proof (rule map_eqI)
  fix q c
  have mok: "maps_ok base (xs @ (a, n) # ys)" and t: "btiled base bs (base + arena)" using rep by (simp_all add: buddy_rep_def)
  have "(a, m) \<notin> set (xs @ ys)" for m using maps_addrs [OF mok] by (force simp: image_iff)
  moreover have "(a, k, f) \<notin> set bs" for k f using maps_apart [OF t mok, of a n] by force
  ultimately show "live3 s' q = Some c \<longleftrightarrow> ((live3 s)(a + 40 := None)) q = Some c"
    using live3_iff [OF rep, of q c] live3_iff [OF rep', of q c] by auto
qed

lemma sfree_3_law:
  assumes "releasable s p"
  shows "\<exists>s'. sfree_3 (Some p) s = Some (Inr s') \<and> ok3 s' \<and> bytes3 s' = bytes3 s \<and> live3 s' = (live3 s)(p := None)"
  using assms unfolding releasable_def
proof (elim disjE exE conjE)
  fix base us a k vs ms r
  assume rep: "buddy_rep s base (us @ (a, k, False) # vs) ms" and p: "p = a + 40" and "coalesce (us, a, k, vs) r"
  then show ?thesis using sfree_3_block [OF rep] by (cases r) (fastforce simp: ok3_def)
next
  fix base bs xs a n ys
  assume rep: "buddy_rep s base bs (xs @ (a, n) # ys)" and p: "p = a + 40"
  obtain s' where s': "sfree_3 (Some (a + 40)) s = Some (Inr s')" "buddy_rep s' base bs (xs @ ys)" "bytes3 s' = bytes3 s"
    using sfree_3_map [OF rep] by blast
  then show ?thesis using live3_unmapped [OF rep s'(2)] p by (auto simp: ok3_def)
qed

interpretation bd: guarded_allocator ok3 env3_ok live3 bytes3 smalloc_3 releasable "\<lambda>p. sfree_3 (Some p)"
proof (unfold_locales, goal_cases)
  case (1 s e n)
  then show ?case using smalloc_3_law [of s e n] by (auto simp: bytes_kept_def)
next
  case (2 s)
  then show ?case by (rule ok3_apart)
next
  case (3 s p)
  then show ?case using sfree_3_law [of s p] by (auto simp: bytes_kept_def)
qed

text \<open>
  Claim C11. Any sequence of requests and releases, from the first call on or from any consistent state,
  returns normally and refines the specification of an allocator, if no release merges a block
  with a free buddy of another order: every request gets NULL or a block that is at least as large
  as asked for and overlaps no block in use, whatever mix of arena blocks and mappings serves the
  requests; every release gives back the one block it names. A block that is not released keeps
  its address, its size and its contents to the end.
\<close>

theorem buddy_scripts_safe:
  assumes "ok3 s" and "atrace_ok env3_ok live3 releasable smalloc_3 (\<lambda>p. sfree_3 (Some p)) ops s"
  shows "\<exists>rs s'. arun smalloc_3 (\<lambda>p. sfree_3 (Some p)) ops s = Some (Inr (rs, s')) \<and> ok3 s' \<and>
    srun ops rs (live3 s) (live3 s') \<and> regions_apart (live3 s') \<and>
    (\<forall>p c. live3 s p = Some c \<longrightarrow> Release p \<notin> set ops \<longrightarrow>
       live3 s' p = Some c \<and> (\<forall>i < c. bytes3 s' (p + i) = bytes3 s (p + i)))"
  using assms by (rule bd.run_safe)

section \<open>Releases in reverse order\<close>

text \<open>No free block has a free buddy below the largest order.\<close>

definition settled :: "bblock list \<Rightarrow> bool" where
  "settled bs \<longleftrightarrow> (\<forall>a k b j. (a, k, True) \<in> set bs \<longrightarrow> (b, j, True) \<in> set bs \<longrightarrow> b = a XOR blk k \<longrightarrow> j = 10)"

lemma halves_mem: "(b, j, f) \<in> set (halves a i k) \<longleftrightarrow> f \<and> i \<le> j \<and> j < k \<and> b = a + blk j"
  by (auto simp: halves_def)

lemma blk_dvd_le: "blk k dvd a \<Longrightarrow> j \<le> k \<Longrightarrow> blk j dvd a"
  using blk_dvd dvd_trans by blast

lemma coalesce_halves:
  assumes "blk k dvd a" and "j \<le> k" and "k \<le> 10" and "coalesce (us, a, k, vs) r"
  shows "coalesce (us, a, j, halves a j k @ vs) r"
  using assms(2)
proof (induction j rule: inc_induct)
  case base
  then show ?case using assms(4) by simp
next
  case (step j)
  have "halves a j k = (a + blk j, j, True) # halves a (Suc j) k" using step.hyps by (simp add: halves_def upt_conv_Cons)
  moreover have "blk (Suc j) dvd a" using step.hyps by (intro blk_dvd_le [OF assms(1)]) simp
  ultimately show ?case using step assms(3) by (auto intro: co_low)
qed

lemma settled_stop:
  assumes "settled (us @ (a, k, True) # vs)" and "btiled base (us @ (a, k, True) # vs) (base + arena)" and "arena dvd base"
  shows "coalesce (us, a, k, vs) (us, a, k, vs)"
proof -
  obtain j g where j: "(a XOR blk k, j, g) \<in> set (us @ (a, k, True) # vs)" "j \<le> k"
    using buddy_start [OF assms(2,3), of a k True] by auto
  have "a XOR blk k \<noteq> a"
  proof
    assume "a XOR blk k = a"
    then have "(a XOR a) XOR blk k = a XOR a" by (simp only: xor.assoc)
    then show False by simp
  qed
  then have "(a XOR blk k, j, g) \<in> set (us @ vs)" using j(1) by auto
  moreover have "g \<Longrightarrow> j = 10"
    using assms(1) j(1) unfolding settled_def by (metis in_set_conv_decomp)
  then have "\<not> (g \<and> j < 10)" by auto
  ultimately show ?thesis by (rule co_stop)
qed

lemma settled_carve:
  assumes s: "settled (us @ (a, k, True) # vs)" and t: "btiled base (us @ (a, k, True) # vs) (base + arena)" and base: "arena dvd base"
    and jk: "j \<le> k" and t': "btiled base (us @ (a, j, False) # halves a j k @ vs) (base + arena)"
  shows "settled (us @ (a, j, False) # halves a j k @ vs)"
  unfolding settled_def
proof (intro allI impI)
  fix p m b i
  let ?bs = "us @ (a, k, True) # vs" and ?bs' = "us @ (a, j, False) # halves a j k @ vs"
  assume p: "(p, m, True) \<in> set ?bs'" and b: "(b, i, True) \<in> set ?bs'" and bp: "b = p XOR blk m"
  have kd: "blk k dvd a" using t by simp
  have old: "(q, l, True) \<in> set ?bs" if "(q, l, True) \<in> set us \<union> set vs" for q l using that by auto
  show "i = 10"
  proof (cases "(p, m, True) \<in> set us \<union> set vs")
    case True
    note pin = True
    show ?thesis
    proof (cases "(b, i, True) \<in> set us \<union> set vs")
      case True
      then show ?thesis using s bp old [OF pin] old [OF True] unfolding settled_def by blast
    next
      case False
      then have h: "j \<le> i" "i < k" "b = a + blk i" using b by (auto simp: halves_mem)
      obtain l g where l: "(b, l, g) \<in> set ?bs" using buddy_start [OF t base old [OF pin]] bp by blast
      have lt: "blk i < blk k" "0 < blk i" using h(2) by simp_all
      have "b + blk l \<le> a \<or> a + blk k \<le> b \<or> b = a" using btiled_split [OF t l, of a k True] by auto
      then have False using h(3) lt by (elim disjE) linarith+
      then show ?thesis ..
    qed
  next
    case False
    then have h: "j \<le> m" "m < k" "p = a + blk m" using p by (auto simp: halves_mem)
    have "blk (Suc m) dvd a" using h(2) by (intro blk_dvd_le [OF kd]) simp
    from buddy_low [OF this] have "b = a" using bp h(3) xor_twice by metis
    then have "(a, j, False) \<in> set ?bs' \<and> (a, i, True) \<in> set ?bs'" using b by auto
    then show ?thesis using btiled_same_start [OF t', of a j False i True] by simp
  qed
qed

lemma smalloc_sfree_3:
  assumes rep: "buddy_rep s base bs ms" and st: "settled bs"
    and env: "\<And>a. mmap_result e = Some a \<Longrightarrow> outside base a n \<and> (\<forall>x \<in> set ms. clear_of (a, n) x)"
  shows "\<exists>r s1 bs1 ms1. smalloc_3 e n s = Some (Inr (r, s1)) \<and> buddy_rep s1 base bs1 ms1 \<and> settled bs1 \<and>
    (\<forall>s2. buddy_rep s2 base bs1 ms1 \<longrightarrow> (\<exists>s3. sfree_3 r s2 = Some (Inr s3) \<and> buddy_rep s3 base bs ms))"
proof -
  have t: "btiled base bs (base + arena)" and base: "arena dvd base" using rep by (simp_all add: buddy_rep_def)
  have null: ?thesis if "smalloc_3 e n s = Some (Inr (None, s))"
    using that rep st by (intro exI [of _ None] exI [of _ s] exI [of _ bs] exI [of _ ms]) (simp add: sfree_3_def Free_3_def)
  consider (bad) "n = 0 \<or> MAX_SIZE_TO_ALLOCATE < n" | (small) "0 < n" "n < MAX_SIZE" | (large) "MAX_SIZE \<le> n" "n \<le> MAX_SIZE_TO_ALLOCATE"
    by linarith
  then show ?thesis
  proof cases
    case bad
    then show ?thesis using rep by (intro null) (auto simp: smalloc_3_def Malloc_3_def buddy_rep_def)
  next
    case small
    show ?thesis
    proof (cases "balloc n bs")
      case None
      then show ?thesis using Malloc_small [OF rep small, of e] by (intro null) (simp add: smalloc_3_def)
    next
      case (Some p)
      obtain a bs' where p: "p = (a, bs')" by (cases p)
      obtain us k vs where u: "bs = us @ (a, k, True) # vs" "bs' = us @ (a, tight n k, False) # halves a (tight n k) k @ vs"
        using balloc_Some [of n bs a bs'] Some p by auto
      obtain s1 where s1: "smalloc_3 e n s = Some (Inr (Some (a + 40), s1))" "buddy_rep s1 base bs' ms"
        using Malloc_small [OF rep small, of e] Some p by (auto simp: smalloc_3_def)
      have t': "btiled base bs' (base + arena)" using s1(2) by (simp add: buddy_rep_def)
      have "settled bs'" using settled_carve [of us a k vs base "tight n k"] st t base t' tight_le u by simp
      moreover have "coalesce (us, a, tight n k, halves a (tight n k) k @ vs) (us, a, k, vs)"
        using settled_stop [of us a k vs base] st t base u(1) tight_le [of n k] by (intro coalesce_halves) auto
      then have "\<exists>s3. sfree_3 (Some (a + 40)) s2 = Some (Inr s3) \<and> buddy_rep s3 base bs ms" if "buddy_rep s2 base bs' ms" for s2
        using sfree_3_block [of s2 base us a "tight n k" "halves a (tight n k) k @ vs" ms us a k vs] that u by auto
      ultimately show ?thesis using s1 by blast
    qed
  next
    case large
    show ?thesis
    proof (cases "mmap_result e")
      case None
      then show ?thesis using Malloc_large [OF rep large, of e] by (intro null) (simp add: smalloc_3_def)
    next
      case (Some a)
      then obtain s1 where s1: "smalloc_3 e n s = Some (Inr (Some (a + 40), s1))" "buddy_rep s1 base bs (ms @ [(a, n)])"
        using Malloc_large [OF rep large, of e] env by (auto simp: smalloc_3_def)
      then show ?thesis using st sfree_3_map [of _ base bs ms a n "[]"] by fastforce
    qed
  qed
qed

text \<open>Requests that are released in the reverse order, NULL included.\<close>

fun nested :: "(env3 \<times> nat) list \<Rightarrow> MemList3 \<Rightarrow> MemList3 comp" where
  "nested [] s = Some (Inr s)"
| "nested ((e, n) # rs) s = cbind (smalloc_3 e n s) (\<lambda>(r, s1). cbind (nested rs s1) (\<lambda>s2. sfree_3 r s2))"



end
