(* ===== verification/BuddyLimits.thy ===== *)
theory BuddyLimits
  imports BuddyFree
begin

unbundle bit_operations_syntax

text \<open>
  Where the buddy allocator breaks its contract: a release that meets a free buddy of a smaller
  order, reallocation in place, and reallocation of the upper one of two buddies. Concrete
  states for all properties of the allocator are at the end.
\<close>

section \<open>A release that swallows a block in use\<close>

text \<open>
  One turn of the merging loop on any two blocks: the lower one takes over the link of the
  upper one and grows by one order, whatever lies between them.
\<close>

lemma absorb_any:
  assumes "meta3 s low = Some (md3 c k f nx pv)" and "meta3 s high = Some (md3 c j g nx' pv')"
    and "nx' = Some q" and "meta3 s q \<noteq> None" and "q \<noteq> low" and "k < 10" and "i < 11" and "length (freed s) = 11"
  shows "absorb low high (int i) s = Inr (s\<lparr>
    freed := (freed s)[i := removeAll high (removeAll low (freed s ! i))],
    meta3 := relink nx' low ((meta3 s)(low \<mapsto> md3 c (Suc k) True nx' pv))\<rparr>)"
proof -
  have sz: "order_size (int k + 1) = Inr (blk (Suc k) - 40)" using order_size_blk [of "Suc k"] assms(6) by (simp add: add.commute)
  have mm: "(md3 c k f nx pv)\<lparr>nxt := nx', order := int k + 1, bsz := blk (Suc k) - 40, is_free3 := True\<rparr> = md3 c (Suc k) True nx' pv"
    by (simp add: md3_def)
  have sp: "set_prev (Some q) low (s\<lparr>freed := fl, meta3 := (meta3 s)(low \<mapsto> m)\<rparr>) =
      Inr (s\<lparr>freed := fl, meta3 := relink (Some q) low ((meta3 s)(low \<mapsto> m))\<rparr>)" for fl m
    using assms(4,5) by (subst set_prev_relink) auto
  show ?thesis using assms sz sp by (simp add: absorb_def freed_upd_def load_def upd_def mm [unfolded assms(3)])
qed

text \<open>
  Two neighbours of the group of four are merged to \<open>(a + 2 * blk k, Suc k)\<close>; its buddy address \<open>a\<close>
  holds a smaller free block. Two turns later the block at \<open>a\<close> has the order of the whole group.
\<close>

lemma dseg_behind:
  assumes "dseg c h p (v # vs) None" and "a \<notin> fst ` set (v # vs)" and "distinct (map fst (v # vs))"
  shows "dseg c (relink (Some (fst v)) a (h(a \<mapsto> m))) (Some a) (v # vs) None"
proof -
  have "dseg c (h(a \<mapsto> m)) p (v # vs) None" using assms(1,2) by (subst dseg_frame [of _ _ h]) auto
  from dseg_relink [OF this assms(3), of a] show ?thesis by (simp del: dseg.simps)
qed

lemma swallow_steps:
  assumes t: "btiled base (us @ (a, k, True) # (a + blk k, k, False) # (a + 2 * blk k, Suc k, f) # v # vs) z"
    and d: "dseg (EXPECTED_COOKIE_VALUE s) (meta3 s) None (us @ (a, k, True) # (a + blk k, k, False) # (a + 2 * blk k, Suc k, True) # v # vs) None"
    and fr: "freed s = flists (us @ (a, k, True) # (a + blk k, k, False) # v # vs)"
    and ad: "blk (Suc (Suc k)) dvd a" "Suc k < 10"
  shows "\<exists>h. merge_loop (\<lambda>_. True) (a + 2 * blk k) s =
      merge_loop (\<lambda>_. True) a (s\<lparr>meta3 := h, freed := flists (us @ v # vs)\<rparr>) \<and>
    dseg (EXPECTED_COOKIE_VALUE s) h None (us @ (a, Suc (Suc k), True) # v # vs) None \<and>
    (\<forall>x. x < base \<or> z \<le> x \<longrightarrow> h x = meta3 s x)"
proof -
  let ?c = "EXPECTED_COOKIE_VALUE s" and ?b = "a + 2 * blk k"
  obtain q where q: "fst v = q" by simp
  have hv: "hdp (v # vs) None = Some q" using q by simp
  have m: "meta3 s a = Some (md3 ?c k True (Some (a + blk k)) (lastp None us))"
    "meta3 s ?b = Some (md3 ?c (Suc k) True (Some q) (Some (a + blk k)))" "meta3 s q \<noteq> None"
    "dseg ?c (meta3 s) (Some ?b) (v # vs) None" "dseg ?c (meta3 s) None us (Some a)"
    using d q by (cases v, auto)+
  have dis: "a \<notin> fst ` set us" "a \<notin> fst ` set (v # vs)" "?b \<notin> fst ` set us" "?b \<notin> fst ` set (v # vs)" "distinct (map fst (v # vs))"
    "fst ` set us \<inter> fst ` set (v # vs) = {}" "q \<noteq> a" "q \<noteq> ?b"
    using btiled_distinct [OF t] q by auto
  have xb: "?b XOR blk (Suc k) = a" using buddy_low [OF ad(1)] xor_twice [of a "blk (Suc k)"] by (simp add: blk_Suc)
  have xa: "a XOR blk (Suc k) = ?b" using buddy_low [OF ad(1)] by (simp add: blk_Suc)
  let ?h1 = "relink (Some q) a ((meta3 s)(a \<mapsto> md3 ?c (Suc k) True (Some q) (lastp None us)))"
  let ?s1 = "s\<lparr>freed := (freed s)[k := removeAll ?b (removeAll a (freed s ! k))], meta3 := ?h1\<rparr>"
  have a1: "absorb a ?b (int k) s = Inr ?s1"
    using m dis(7) ad(2) fr by (intro absorb_any) auto
  have s1: "merge_loop (\<lambda>_. True) ?b s = merge_loop (\<lambda>_. True) a ?s1"
    using a1 ad(2) m(1) xb by (subst merge_loop_step [OF m(2), of "Suc k"]) auto
  have h1: "?h1 a = Some (md3 ?c (Suc k) True (Some q) (lastp None us))" "?h1 ?b = meta3 s ?b" "?h1 q \<noteq> None"
    using dis(7,8) m(3) by (auto simp: relink_def split: option.splits)
  let ?h2 = "relink (Some q) a (?h1(a \<mapsto> md3 ?c (Suc (Suc k)) True (Some q) (lastp None us)))"
  let ?s2 = "?s1\<lparr>freed := (freed ?s1)[Suc k := removeAll ?b (removeAll a (freed ?s1 ! Suc k))], meta3 := ?h2\<rparr>"
  have a2: "absorb a ?b (int (Suc k)) ?s1 = Inr ?s2"
    using m(2) h1 dis(7) ad(2) fr by (subst absorb_any [of ?s1 a ?c "Suc k" True "Some q" "lastp None us" ?b "Suc k" True "Some q" "Some (a + blk k)" q]) simp_all
  have s2: "merge_loop (\<lambda>_. True) a ?s1 = merge_loop (\<lambda>_. True) a ?s2"
    using a2 ad(2) h1 m(2) xa blk_pos [of k] by (subst merge_loop_step [of ?s1 a _ "Suc k"]) auto
  have fr0: "freed s = flists (us @ [(a, k, True)] @ v # vs)" using fr by (simp add: flists_def free_addrs_Cons)
  have f1: "(freed s)[k := removeAll ?b (removeAll a (freed s ! k))] = flists (us @ [] @ v # vs)"
    unfolding fr0 using flists_drop [OF _ dis(1-4), of k "[(a, k, True)]"] ad(2) by simp
  have f2: "freed ?s2 = flists (us @ v # vs)"
    using flists_drop [OF _ dis(1-4), of "Suc k" "[]"] ad(2) by (simp add: f1)
  have "dseg ?c ?h1 (Some a) (v # vs) None" using dseg_behind [OF m(4) dis(2,5)] unfolding q .
  from dseg_behind [OF this dis(2,5)] have d2: "dseg ?c ?h2 (Some a) (v # vs) None" unfolding q .
  have other: "?h2 x = meta3 s x" if "x \<noteq> a" "x \<noteq> q" for x using that by (simp add: relink_other)
  have "dseg ?c ?h2 None us (Some a) = dseg ?c (meta3 s) None us (Some a)"
  proof (rule dseg_frame)
    fix x
    assume x: "x \<in> fst ` set us"
    have "q \<in> fst ` set (v # vs)" using q by simp
    then show "?h2 x = meta3 s x" using x dis(1,6) by (intro other) blast+
  qed
  moreover have "?h2 a = Some (md3 ?c (Suc (Suc k)) True (Some q) (lastp None us))" using dis(7) by (simp add: relink_other)
  ultimately have dd: "dseg ?c ?h2 None (us @ (a, Suc (Suc k), True) # v # vs) None"
    unfolding dseg_focus using m(5) d2 hv by (simp del: dseg.simps)
  have "?h2 x = meta3 s x" if "x < base \<or> z \<le> x" for x
    using that block_addrs_inside [OF t, of a] block_addrs_inside [OF t, of q] q by (intro other) auto
  moreover have "?s2 = s\<lparr>meta3 := ?h2, freed := flists (us @ v # vs)\<rparr>" using f2 by simp
  then have "merge_loop (\<lambda>_. True) ?b s = merge_loop (\<lambda>_. True) a (s\<lparr>meta3 := ?h2, freed := flists (us @ v # vs)\<rparr>)"
    using s1 s2 by (simp only:)
  ultimately show ?thesis using dd by blast
qed

lemma upper_half: "blk (Suc k) dvd x \<Longrightarrow> \<not> blk (Suc k) dvd x + blk k"
  using dvd_imp_le [of "blk (Suc k)" "blk k"] by (auto simp: blk_Suc dvd_add_right_iff)

lemma swallowed_not_live:
  assumes rep: "buddy_rep s base (us @ (a, k, True) # (b, k, False) # rest @ v # vs) ms"
    and rep': "buddy_rep s' base (us' @ (a', k', True) # vs') ms" and co: "coalesce (us, a, j, v # vs) (us', a', k', vs')"
  shows "live3 s' (b + 40) = None"
proof -
  have t: "btiled base (us @ (a, k, True) # (b, k, False) # rest @ v # vs) (base + arena)" and mok: "maps_ok base ms"
    using rep by (simp_all add: buddy_rep_def)
  have "b \<notin> fst ` set (us @ v # vs)" using btiled_distinct [OF t] by auto
  then have "(b, i, False) \<notin> set (us @ v # vs)" for i by (force simp: image_iff)
  then have "(b, i, False) \<notin> set (us' @ (a', k', True) # vs')" for i using coalesce_in_use [OF co, of b i] by auto
  moreover have "(b, n) \<notin> set ms" for n by (rule maps_apart [OF t mok]) simp
  ultimately show ?thesis using live3_iff [OF rep', of "b + 40"] by (cases "live3 s' (b + 40)") auto
qed

text \<open>
  Release does not compare the orders of the buddies. Take four neighbouring blocks
  of one order, the first and third free, the second and fourth in use, as four requests of the
  same size and two releases leave them. Releasing the fourth one merges it with the third, the
  pair with the first, although that is only half as large, and so the second block, which is
  in use, becomes part of a free block: it is not among the blocks in use any more, and the next
  request may get its bytes.
\<close>

theorem sfree_3_loses_block:
  assumes rep: "buddy_rep s base (us @ (a, k, True) # (a + blk k, k, False) # (a + 2 * blk k, k, True) # (a + 3 * blk k, k, False) # v # vs) ms"
    and ad: "blk (Suc (Suc k)) dvd a" "Suc k < 10" and co: "coalesce (us, a, Suc (Suc k), v # vs) (us', a', k', vs')"
  shows "\<exists>s'. sfree_3 (Some (a + 3 * blk k + 40)) s = Some (Inr s') \<and> buddy_rep s' base (us' @ (a', k', True) # vs') ms \<and>
    live3 s (a + blk k + 40) = Some (blk k - 40) \<and> live3 s' (a + blk k + 40) = None"
proof -
  let ?c = "EXPECTED_COOKIE_VALUE s" and ?z = "base + arena" and ?x = "a + 2 * blk k" and ?y = "a + 3 * blk k"
  let ?us = "us @ [(a, k, True), (a + blk k, k, False)]"
  have y: "?y = ?x + blk k" by simp
  have t: "btiled base (?us @ (?x, k, True) # (?x + blk k, k, False) # v # vs) ?z"
    and d: "dseg ?c (meta3 s) None (?us @ (?x, k, True) # (?x + blk k, k, False) # v # vs) None"
    and fr: "freed s = flists (?us @ [(?x, k, True)] @ v # vs)"
    using rep by (auto simp: buddy_rep_def y flists_def free_addrs_Cons simp del: dseg.simps dseg_append)
  have xd: "blk (Suc k) dvd ?x" "\<not> blk (Suc k) dvd ?x + blk k" "blk k dvd ?x + blk k"
  proof -
    have "blk (Suc k) dvd a" using ad(1) by (rule blk_dvd_le) simp
    then show "blk (Suc k) dvd ?x" by (simp add: blk_Suc)
    then show "\<not> blk (Suc k) dvd ?x + blk k" by (rule upper_half)
    show "blk k dvd ?x + blk k" using t by simp
  qed
  have xy: "(?x + blk k) XOR blk k = ?x" using buddy_high [OF xd(3,2)] by simp
  obtain h where h: "absorb ?x (?x + blk k) (int k) s = Inr (s\<lparr>meta3 := h, freed := flists (?us @ v # vs)\<rparr>)"
    "dseg ?c h None (?us @ (?x, Suc k, True) # v # vs) None" "\<forall>x. x < base \<or> ?z \<le> x \<longrightarrow> h x = meta3 s x"
    using absorb_rep [OF t xd(1) _ d fr] ad(2) by auto
  have m: "meta3 s (?x + blk k) = Some (md3 ?c k False (hdp (v # vs) None) (Some ?x))"
    "meta3 s ((?x + blk k) XOR blk k) = Some (md3 ?c k True (Some (?x + blk k)) (Some (a + blk k)))"
    using d unfolding xy by auto
  let ?s1 = "s\<lparr>meta3 := h, freed := flists (?us @ v # vs)\<rparr>"
  have step1: "merge_loop (\<lambda>_. True) (?x + blk k) s = merge_loop (\<lambda>_. True) ?x ?s1"
    using h(1) ad(2) xy blk_pos [of k] by (subst merge_loop_step [OF m(1) _ _ m(2)]) simp_all
  have t1: "btiled base (us @ (a, k, True) # (a + blk k, k, False) # (?x, Suc k, True) # v # vs) ?z"
    using btiled_join [OF t xd(1), of True] ad(2) by simp
  obtain h2 where h2: "merge_loop (\<lambda>_. True) ?x ?s1 = merge_loop (\<lambda>_. True) a (?s1\<lparr>meta3 := h2, freed := flists (us @ v # vs)\<rparr>)"
    "dseg ?c h2 None (us @ (a, Suc (Suc k), True) # v # vs) None" "\<forall>x. x < base \<or> ?z \<le> x \<longrightarrow> h2 x = h x"
    using swallow_steps [OF t1, of ?s1] h(2) ad by (auto simp del: dseg.simps dseg_append)
  have t2: "btiled base (us @ (a, Suc (Suc k), True) # v # vs) ?z"
    using t1 ad by (auto simp: blk_Suc algebra_simps)
  have "merged (?s1\<lparr>meta3 := h2, freed := flists (us @ v # vs)\<rparr>) base ?z a (us', a', k', vs')"
    using h2(2) by (intro merge_loop_rep [OF co t2]) simp_all
  then have "merged ?s1 base ?z ?x (us', a', k', vs')" using h2(3) by (intro merged_step [OF h2(1)]) simp_all
  then have "merged s base ?z (?x + blk k) (us', a', k', vs')" by (rule merged_step [OF step1 h(3)])
  then obtain s' where s': "UnionIfPossible (?x + blk k) s = Some (Inr s')" "buddy_rep s' base (us' @ (a', k', True) # vs') ms"
    using UnionIfPossible_merged [OF rep, of "?x + blk k" k False us' a' k' vs'] by (auto simp: y)
  have "sfree_3 (Some (?y + 40)) s = Some (Inr s')"
    using s'(1) m(1) by (simp add: y sfree_3_def Free_3_def load_def sizeof_md3_def)
  moreover have "live3 s (a + blk k + 40) = Some (blk k - 40)" using live3_iff [OF rep, of "a + blk k + 40" "blk k - 40"] by auto
  moreover have "live3 s' (a + blk k + 40) = None"
    using swallowed_not_live [of s base us a k "a + blk k" "[(?x, k, True), (?y, k, False)]", OF _ s'(2) co] rep by simp
  ultimately show ?thesis using s'(2) by blast
qed

section \<open>Reallocation in place\<close>

lemma copy_bytes_same [simp]: "copy_bytes p p n mem = mem"
  by (auto simp: copy_bytes_def fun_eq_iff)

lemma check_loop_step:
  "is_free3 fbm \<Longrightarrow> order fbm < 10 \<Longrightarrow> bsz fam < sz \<Longrightarrow> cookie fbm = EXPECTED_COOKIE_VALUE s \<Longrightarrow>
     cookie fam = EXPECTED_COOKIE_VALUE s \<Longrightarrow> fake_addr < fake_buddy \<Longrightarrow> order fam = int k \<Longrightarrow> Suc k \<le> 10 \<Longrightarrow>
     meta3 s (addr XOR blk (Suc k)) = Some bm \<Longrightarrow>
     check_loop addr sz fake_addr fam fake_buddy fbm s =
       check_loop addr sz fake_addr (fam\<lparr>order := int k + 1, bsz := blk (Suc k) - 40\<rparr>) (addr XOR blk (Suc k)) bm s"
  using order_size_blk [of "Suc k"] buddy_of_blk [of "Suc k" addr]
  by (subst check_loop.simps) (simp add: load_def add.commute)

lemma check_loop_done: "sz \<le> bsz fam \<Longrightarrow> check_loop addr sz fa fam fb fbm s = Some (Inr fam)"
  by (subst check_loop.simps) simp

lemma xor_blk_other: "a XOR blk k \<noteq> a"
proof
  assume "a XOR blk k = a"
  then have "(a XOR a) XOR blk k = a XOR a" by (simp only: xor.assoc)
  then show False by simp
qed

lemma check_one_step:
  assumes m: "meta3 s a = Some (md3 (EXPECTED_COOKIE_VALUE s) k False nx pv)"
      "meta3 s (a + blk k) = Some (md3 (EXPECTED_COOKIE_VALUE s) k True nx' pv')" "meta3 s (a XOR blk (Suc k)) = Some bm"
    and ad: "blk (Suc k) dvd a" "k < 10" and n: "blk k - 40 < n" "n \<le> blk (Suc k) - 40"
  shows "CheckIfUnionIsPossible a n s = Some (Inr True)"
proof -
  let ?c = "EXPECTED_COOKIE_VALUE s"
  have "check_loop a n a (md3 ?c k False nx pv) (a + blk k) (md3 ?c k True nx' pv') s =
      Some (Inr ((md3 ?c k False nx pv)\<lparr>order := int k + 1, bsz := blk (Suc k) - 40\<rparr>))"
    using ad n m(3) blk_pos [of k] by (subst check_loop_step [of _ _ _ _ _ _ k]) (simp_all add: check_loop_done)
  then show ?thesis using m ad(2) n(2) buddy_low [OF ad(1)] by (simp add: CheckIfUnionIsPossible_def load_def buddy_of_blk)
qed

text \<open>
  Growing a block into its free upper buddy works for the block: \<open>srealloc\<close> returns the
  same address, and the list of blocks holds the joined block, in use, with all bytes where they
  were. But it also enters the buddy of the joined block into the free list of its order, without
  looking at it: a block that is free is listed twice and will be handed out twice, one that is
  in use or smaller is listed as free.
\<close>

theorem srealloc_3_spoils_list:
  assumes rep: "buddy_rep s base (us @ (a, k, False) # (a + blk k, k, True) # vs) ms"
    and ad: "blk (Suc k) dvd a" "k < 10" and n: "blk k - 40 < n" "n \<le> blk (Suc k) - 40"
  shows "\<exists>s'. srealloc_3 e (Some (a + 40)) n s = Some (Inr (Some (a + 40), s')) \<and> bytes3 s' = bytes3 s \<and>
    dseg (EXPECTED_COOKIE_VALUE s') (meta3 s') None (us @ (a, Suc k, False) # vs) None \<and>
    freed s' = (flists (us @ vs))[Suc k := insert_sorted (a XOR blk (Suc k)) (free_addrs (Suc k) (us @ vs))]"
proof -
  let ?c = "EXPECTED_COOKIE_VALUE s" and ?z = "base + arena" and ?b = "a + blk k" and ?y = "a XOR blk (Suc k)"
  have t: "btiled base (us @ (a, k, False) # (?b, k, True) # vs) ?z" and base: "arena dvd base"
    and d: "dseg ?c (meta3 s) None (us @ (a, k, False) # (?b, k, True) # vs) None"
    and fr: "freed s = flists (us @ [(?b, k, True)] @ vs)"
    using rep by (auto simp: buddy_rep_def flists_def free_addrs_Cons simp del: dseg.simps dseg_append btiled.simps btiled_append)
  have t1: "btiled base (us @ (a, Suc k, False) # vs) ?z" using btiled_join [OF t ad] .
  have b: "a XOR blk k = ?b" by (rule buddy_low [OF ad(1)])
  have m: "meta3 s a = Some (md3 ?c k False (Some ?b) (lastp None us))"
    "meta3 s (a XOR blk k) = Some (md3 ?c k True (hdp vs None) (Some a))" using d b by simp_all
  obtain j g where y: "(?y, j, g) \<in> set (us @ vs)" using buddy_start [OF t1 base, of a "Suc k" False] xor_blk_other [of a "Suc k"] by auto
  then obtain bm where bm: "meta3 s ?y = Some bm" using dseg_lookup [OF d, of ?y j g] by auto
  obtain h where h: "absorb a ?b (int k) s = Inr (s\<lparr>meta3 := h, freed := flists (us @ vs)\<rparr>)"
    "dseg ?c h None (us @ (a, Suc k, True) # vs) None"
    using absorb_rep [OF t ad d fr] by auto
  let ?s1 = "s\<lparr>meta3 := h, freed := flists (us @ vs)\<rparr>"
  obtain bm1 where bm1: "h ?y = Some bm1" "cookie bm1 = ?c"
    using dseg_lookup [OF h(2), of ?y j g] y by auto
  have ha: "h a = Some (md3 ?c (Suc k) True (hdp vs None) (lastp None us))" using h(2) by simp
  have check: "CheckIfUnionIsPossible a n s = Some (Inr True)"
    using m b by (intro check_one_step [OF _ _ bm ad n]) simp_all
  have loop: "merge_loop (\<lambda>m. bsz m < n) a s = Some (Inr (a, ?y, ?s1))"
  proof -
    have "merge_loop (\<lambda>m. bsz m < n) a ?s1 = Some (Inr (a, ?y, ?s1))"
      using ha bm1 ad(2) n by (subst merge_loop_step [where s = ?s1 and a = a and k = "Suc k" and bm = bm1
          and m = "md3 ?c (Suc k) True (hdp vs None) (lastp None us)"]) simp_all
    then show ?thesis using h(1) ad(2) b n(1) blk_pos [of k] by (subst merge_loop_step [OF m(1) _ _ m(2)]) simp_all
  qed
  obtain md where md: "h a = Some md" "dseg ?c (h(a \<mapsto> md\<lparr>is_free3 := False\<rparr>)) None (us @ (a, Suc k, False) # vs) None"
    using dseg_set_free [OF h(2), of base ?z False] t1 by auto
  let ?fl = "(flists (us @ vs))[Suc k := insert_sorted ?y (free_addrs (Suc k) (us @ vs))]"
  have om: "nat (order md) = Suc k" "0 \<le> order md" using ha md(1) by auto
  have "SreallocUnion a n s = Some (Inr (a, s\<lparr>meta3 := h(a \<mapsto> md\<lparr>is_free3 := False\<rparr>), freed := ?fl\<rparr>))"
    using loop md(1) om ad(2) flists_nth(1) [of "Suc k"]
    by (simp add: SreallocUnion_def upd_def load_def AddToFreeOrder_def freed_upd_def)
  moreover have "blk (Suc k) \<le> blk 10" using ad(2) by (intro blk_le) simp
  then have "n \<le> MAX_SIZE_TO_ALLOCATE" using n(2) by (simp add: blk_10 MAX_SIZE_def MAX_SIZE_TO_ALLOCATE_def)
  ultimately have "srealloc_3 e (Some (a + 40)) n s =
      Some (Inr (Some (a + 40), s\<lparr>meta3 := h(a \<mapsto> md\<lparr>is_free3 := False\<rparr>), freed := ?fl\<rparr>))"
    using check m(1) n(1) by (simp add: srealloc_3_def Srealloc_3_def load_def sizeof_md3_def)
  then show ?thesis using md(2)
    by (intro exI [of _ "s\<lparr>meta3 := h(a \<mapsto> md\<lparr>is_free3 := False\<rparr>), freed := ?fl\<rparr>"] conjI)
      (simp_all del: dseg.simps dseg_append)
qed

section \<open>Reallocation that never returns\<close>

lemma check_loop_spins:
  assumes "meta3 s b = Some m" and "is_free3 m" and "order m < 10" and "bsz m < sz" and "cookie m = EXPECTED_COOKIE_VALUE s"
    and "buddy_of addr (order m) = Inr b"
  shows "check_loop addr sz b m b m s = None"
proof (cases "check_loop addr sz b m b m s")
  case (Some r)
  have "\<not> (addr = addr \<and> sz = sz \<and> b = b \<and> m = m \<and> b = b \<and> m = m \<and> s = s)"
  proof (rule check_loop.raw_induct
      [where P = "\<lambda>addr' sz' fa fam fb fbm s' r. \<not> (addr' = addr \<and> sz' = sz \<and> fa = b \<and> fam = m \<and> fb = b \<and> fbm = m \<and> s' = s)", OF _ Some])
    fix f :: "nat \<Rightarrow> nat \<Rightarrow> nat \<Rightarrow> MallocMetadata3 \<Rightarrow> nat \<Rightarrow> MallocMetadata3 \<Rightarrow> MemList3 \<Rightarrow> MallocMetadata3 comp"
      and addr' sz' fa :: nat and fam :: MallocMetadata3 and fb :: nat and fbm :: MallocMetadata3 and s' :: MemList3
      and r :: "MallocMetadata3 res"
    assume IH: "\<And>addr' sz' fa fam fb fbm s' r. f addr' sz' fa fam fb fbm s' = Some r \<Longrightarrow>
        \<not> (addr' = addr \<and> sz' = sz \<and> fa = b \<and> fam = m \<and> fb = b \<and> fbm = m \<and> s' = s)"
      and eq: "(if is_free3 fbm \<and> order fbm < 10 \<and> bsz fam < sz' then
        if cookie fbm \<noteq> EXPECTED_COOKIE_VALUE s' \<or> cookie fam \<noteq> EXPECTED_COOKIE_VALUE s'
        then Some (Inl (Exit 0xDEADBEEF []))
        else if fa < fb then
          cbind (Some (order_size (order fam + 1))) (\<lambda>n.
          cbind (Some (buddy_of addr' (order fam + 1))) (\<lambda>b.
          cbind (Some (load b s')) (\<lambda>bm.
          f addr' sz' fa (fam\<lparr>order := order fam + 1, bsz := n\<rparr>) b bm s')))
        else
          cbind (Some (load fb s')) (\<lambda>am.
          cbind (Some (buddy_of addr' (order am))) (\<lambda>b.
          cbind (Some (load b s')) (\<lambda>bm.
          f addr' sz' fb am b bm s')))
      else Some (Inr fam)) = Some r"
    show "\<not> (addr' = addr \<and> sz' = sz \<and> fa = b \<and> fam = m \<and> fb = b \<and> fbm = m \<and> s' = s)"
      using eq IH [of addr sz b m b m s r] assms by (auto simp: load_def)
  qed
  then show ?thesis by simp
qed

text \<open>
  Growing the upper one of two buddies when the lower one is free never returns: the search
  for room re-reads the metadata of the lower block instead of the joined one it has computed, and
  so stays at the same block for ever.
\<close>

theorem srealloc_3_hangs:
  assumes rep: "buddy_rep s base (us @ (b, k, True) # (b + blk k, k, False) # vs) ms"
    and bd: "blk (Suc k) dvd b" "k < 10" and n: "blk k - 40 < n" "n \<le> MAX_SIZE_TO_ALLOCATE"
  shows "srealloc_3 e (Some (b + blk k + 40)) n s = None"
proof -
  let ?c = "EXPECTED_COOKIE_VALUE s" and ?a = "b + blk k"
  have t: "btiled base (us @ (b, k, True) # (?a, k, False) # vs) (base + arena)"
    and d: "dseg ?c (meta3 s) None (us @ (b, k, True) # (?a, k, False) # vs) None"
    using rep by (auto simp: buddy_rep_def)
  have "blk k dvd ?a" using t by simp
  then have x: "?a XOR blk k = b" using buddy_high [OF _ upper_half [OF bd(1)]] by simp
  let ?m = "md3 ?c k True (Some ?a) (lastp None us)" and ?am = "md3 ?c k False (hdp vs None) (Some b)"
  have m: "meta3 s b = Some ?m" "meta3 s ?a = Some ?am" using d by simp_all
  have bo: "buddy_of ?a (int k) = Inr b" using buddy_of_blk [of k ?a] bd(2) x by simp
  have "check_loop ?a n b ?m b ?m s = None" using m bo bd(2) n(1) by (intro check_loop_spins) simp_all
  then have "check_loop ?a n ?a ?am b ?m s = None"
    using m bo bd(2) n(1) by (subst check_loop.simps) (simp add: load_def)
  then have "CheckIfUnionIsPossible ?a n s = None" using m bo by (simp add: CheckIfUnionIsPossible_def load_def)
  then show ?thesis using m n by (simp add: srealloc_3_def Srealloc_3_def load_def sizeof_md3_def)
qed

section \<open>Concrete states\<close>

definition demo_env :: env3 where
  "demo_env = \<lparr>brk = 40, sbrk_succeeds = True, mmap_result = None\<rparr>"

definition demo_list :: MemList3 where
  "demo_list = MemList_ctor 7 (\<lambda>_. CHR 0x00)"

abbreviation demo_base :: nat where "demo_base \<equiv> 4194304"

lemma demo_fresh: "fresh demo_list"
  by (simp add: fresh_def demo_list_def MemList_ctor_def MAX_ORDER_def)

lemma demo_env_ok: "env3_ok s demo_env n"
  by (simp add: env3_ok_def demo_env_def arena_def)

lemma demo_requests_ok: "requests_ok env3_ok smalloc_3 (map (\<lambda>n. (demo_env, n)) ns) s"
  by (induction ns arbitrary: s) (auto simp: demo_env_ok split: option.splits sum.splits)

lemma demo_start: "\<exists>s. init_heap demo_env demo_list = Inr s \<and> buddy_rep s demo_base (whole_arena demo_base) []"
proof -
  have "arena_base demo_env = demo_base" by (simp add: arena_base_def demo_env_def arena_def)
  then show ?thesis using init_heap_rep [OF demo_fresh, of demo_env] by (auto simp: demo_env_def arena_def)
qed

lemma settled_whole: "settled (whole_arena base)"
  by (auto simp: settled_def whole_arena_def)

definition rest_arena :: "nat \<Rightarrow> bblock list" where
  "rest_arena base = map (\<lambda>i. (base + i * MAX_SIZE, 10, True)) [1..<32]"

lemma whole_rest: "whole_arena base = (base, 10, True) # rest_arena base"
  by (simp add: whole_arena_def rest_arena_def upt_conv_Cons)

lemma rest_Cons: "rest_arena base = (base + MAX_SIZE, 10, True) # map (\<lambda>i. (base + i * MAX_SIZE, 10, True)) [2..<32]"
  by (simp add: rest_arena_def upt_conv_Cons numeral_2_eq_2)

lemma tight_40 [simp]: "tight 40 k = 0"
  using tight_least [of 40 0 k] by (simp add: blk_def)

lemma halves_step: "j < k \<Longrightarrow> halves a j k = (a + blk j, j, True) # halves a (Suc j) k"
  by (simp add: halves_def upt_conv_Cons)

lemma free_addrs_rest: "i \<noteq> 10 \<Longrightarrow> free_addrs i (rest_arena b) = []"
  by (auto simp: free_addrs_def rest_arena_def filter_empty_conv)

lemma free_addrs_halves: "i < j \<Longrightarrow> free_addrs i (halves a j k) = []"
  by (auto simp: free_addrs_def halves_def filter_empty_conv)

lemma pick_first:
  assumes "n \<le> blk i - 40" and "i < 11" and "free_addrs i bs \<noteq> []" and "\<And>j. j < i \<Longrightarrow> free_addrs j bs = []"
  shows "pick n bs = Some i"
  using assms unfolding pick_def find_Some_iff by (intro exI [of _ i]) auto

lemma blk_40 [simp]: "40 \<le> blk k - 40"
  using blk_ge [of k] by simp

text \<open>Four requests of 40 bytes take the first four blocks of 128 bytes.\<close>

definition four :: "nat \<Rightarrow> bool \<Rightarrow> bool \<Rightarrow> bblock list" where
  "four b f g = [(b, 0, f), (b + 128, 0, False), (b + 256, 0, g), (b + 384, 0, False)]"

lemma blk_small: "blk 0 = 128" "blk (Suc 0) = 256" "blk (Suc (Suc 0)) = 512"
  by (simp_all add: blk_def)

lemma balloc_first:
  "balloc 40 (whole_arena b) = Some (b, (b, 0, False) # (b + 128, 0, True) # halves b 1 10 @ rest_arena b)"
proof -
  have "pick 40 (whole_arena b) = Some 10"
    by (rule pick_first) (auto simp: whole_rest free_addrs_Cons free_addrs_rest)
  then show ?thesis by (simp add: whole_rest balloc_def halves_step [of 0 10] blk_small)
qed

lemma balloc_next:
  "balloc 40 ((b, 0, False) # (b + 128, 0, True) # V) = Some (b + 128, (b, 0, False) # (b + 128, 0, False) # V)"
proof -
  have "pick 40 ((b, 0, False) # (b + 128, 0, True) # V) = Some 0" by (rule pick_first) (auto simp: free_addrs_Cons)
  then show ?thesis by (simp add: balloc_def)
qed

lemma balloc_third:
  assumes "free_addrs 0 V = []"
  shows "balloc 40 ((b, 0, False) # (b + 128, 0, False) # (b + 256, 1, True) # V) =
    Some (b + 256, (b, 0, False) # (b + 128, 0, False) # (b + 256, 0, False) # (b + 384, 0, True) # V)"
proof -
  have "pick 40 ((b, 0, False) # (b + 128, 0, False) # (b + 256, 1, True) # V) = Some 1"
    by (rule pick_first) (use assms in \<open>auto simp: free_addrs_Cons\<close>)
  then show ?thesis by (simp add: balloc_def halves_def blk_small)
qed

lemma balloc_fourth:
  assumes "free_addrs 0 V = []"
  shows "balloc 40 ((b, 0, False) # (b + 128, 0, False) # (b + 256, 0, False) # (b + 384, 0, True) # V) =
    Some (b + 384, four b False False @ V)"
proof -
  have "pick 40 ((b, 0, False) # (b + 128, 0, False) # (b + 256, 0, False) # (b + 384, 0, True) # V) = Some 0"
    by (rule pick_first) (use assms in \<open>auto simp: free_addrs_Cons\<close>)
  then show ?thesis by (simp add: balloc_def four_def)
qed

lemma smalloc_balloc:
  assumes "buddy_rep s base bs ms" and "balloc 40 bs = Some (a, bs')"
  obtains s' where "smalloc_3 e 40 s = Some (Inr (Some (a + 40), s'))" and "buddy_rep s' base bs' ms"
proof -
  have "(0::nat) < 40" "40 < MAX_SIZE" by (simp_all add: MAX_SIZE_def)
  from Malloc_small [OF assms(1) this, of e] assms(2) show ?thesis using that by (auto simp: smalloc_3_def)
qed

abbreviation demo_rest :: "bblock list" where "demo_rest \<equiv> halves demo_base 2 10 @ rest_arena demo_base"

lemma demo_rest_none: "free_addrs 0 demo_rest = []"
  by (simp add: free_addrs_halves free_addrs_rest)

text \<open>The state of an example: four blocks in use, then the first and the third released.\<close>

lemma demo_four:
  "\<exists>rs s. arun smalloc_3 (\<lambda>p. sfree_3 (Some p)) (replicate 4 (Alloc demo_env 40)) demo_list = Some (Inr (rs, s)) \<and>
     buddy_rep s demo_base (four demo_base False False @ demo_rest) []"
proof -
  let ?b = "demo_base" and ?R = "rest_arena demo_base"
  obtain s0 where s0: "init_heap demo_env demo_list = Inr s0" "buddy_rep s0 ?b (whole_arena ?b) []" using demo_start by blast
  have first: "smalloc_3 demo_env 40 demo_list = smalloc_3 demo_env 40 s0"
    using Malloc_first [OF demo_fresh s0(1)] s0(2) by (simp add: smalloc_3_def buddy_rep_def)
  obtain s1 where s1: "smalloc_3 demo_env 40 s0 = Some (Inr (Some (?b + 40), s1))"
    "buddy_rep s1 ?b ((?b, 0, False) # (?b + 128, 0, True) # halves ?b 1 10 @ ?R) []"
    using smalloc_balloc [OF s0(2) balloc_first] .
  obtain s2 where s2: "smalloc_3 demo_env 40 s1 = Some (Inr (Some (?b + 128 + 40), s2))"
    "buddy_rep s2 ?b ((?b, 0, False) # (?b + 128, 0, False) # halves ?b 1 10 @ ?R) []"
    using smalloc_balloc [OF s1(2) balloc_next] .
  have h1: "halves ?b 1 10 @ ?R = (?b + 256, 1, True) # demo_rest" using halves_step [of 1 10 ?b] by (simp add: blk_small numeral_2_eq_2)
  obtain s3 where s3: "smalloc_3 demo_env 40 s2 = Some (Inr (Some (?b + 256 + 40), s3))"
    "buddy_rep s3 ?b ((?b, 0, False) # (?b + 128, 0, False) # (?b + 256, 0, False) # (?b + 384, 0, True) # demo_rest) []"
    using smalloc_balloc [OF s2(2) [unfolded h1] balloc_third [OF demo_rest_none]] .
  obtain s4 where s4: "smalloc_3 demo_env 40 s3 = Some (Inr (Some (?b + 384 + 40), s4))"
    "buddy_rep s4 ?b (four ?b False False @ demo_rest) []"
    using smalloc_balloc [OF s3(2) balloc_fourth [OF demo_rest_none]] .
  have "replicate 4 (Alloc demo_env 40) = [Alloc demo_env 40, Alloc demo_env 40, Alloc demo_env 40, Alloc demo_env 40]"
    by (simp add: numeral_eq_Suc)
  then show ?thesis using first s1(1) s2(1) s3(1) s4 by simp
qed

lemma buddy_in_rest: "(demo_base XOR blk 10, 10, True) \<in> set (rest_arena demo_base)"
  using buddy_low [of 10 demo_base] by (simp add: rest_Cons blk_10 blk_def MAX_SIZE_def)

lemma demo_coalesce: "j \<le> 10 \<Longrightarrow> coalesce ([], demo_base, j, halves demo_base j 10 @ rest_arena demo_base) ([], demo_base, 10, rest_arena demo_base)"
  using buddy_in_rest by (intro coalesce_halves co_stop [of _ _ 10 True]) (auto simp: blk_def)

lemma release_first: "coalesce ([], demo_base, 0, (demo_base + 128, 0, False) # V) ([], demo_base, 0, (demo_base + 128, 0, False) # V)"
  using buddy_low [of 0 demo_base] by (intro co_stop [of _ _ 0 False]) (auto simp: blk_def)

lemma release_third:
  "coalesce ([u, v], demo_base + 256, 0, (demo_base + 384, 0, False) # V) ([u, v], demo_base + 256, 0, (demo_base + 384, 0, False) # V)"
  using buddy_low [of 0 "demo_base + 256"] by (intro co_stop [of _ _ 0 False]) (auto simp: blk_def)

lemma demo_two_released:
  "\<exists>rs s. arun smalloc_3 (\<lambda>p. sfree_3 (Some p))
       (replicate 4 (Alloc demo_env 40) @ [Release (demo_base + 40), Release (demo_base + 296)]) demo_list = Some (Inr (rs, s)) \<and>
     buddy_rep s demo_base (four demo_base True True @ demo_rest) []"
proof -
  let ?b = "demo_base"
  obtain rs s4 where s4: "arun smalloc_3 (\<lambda>p. sfree_3 (Some p)) (replicate 4 (Alloc demo_env 40)) demo_list = Some (Inr (rs, s4))"
    "buddy_rep s4 ?b (four ?b False False @ demo_rest) []" using demo_four by blast
  obtain s5 where s5: "sfree_3 (Some (?b + 40)) s4 = Some (Inr s5)" "buddy_rep s5 ?b (four ?b True False @ demo_rest) []"
    using sfree_3_block [of s4 ?b "[]" ?b 0 "(?b + 128, 0, False) # (?b + 256, 0, False) # (?b + 384, 0, False) # demo_rest" "[]", OF _ release_first]
      s4(2) by (auto simp: four_def)
  obtain s6 where s6: "sfree_3 (Some (?b + 296)) s5 = Some (Inr s6)" "buddy_rep s6 ?b (four ?b True True @ demo_rest) []"
    using sfree_3_block [of s5 ?b "[(?b, 0, True), (?b + 128, 0, False)]" "?b + 256" 0 "(?b + 384, 0, False) # demo_rest" "[]", OF _ release_third]
      s5(2) by (auto simp: four_def)
  show ?thesis unfolding arun_append using s4(1) s5(1) s6 by simp
qed

lemma demo_allocs_ok: "atrace_ok env3_ok live3 releasable smalloc_3 free (replicate n (Alloc demo_env 40)) s"
  by (induction n arbitrary: s) (auto simp: demo_env_ok split: option.splits sum.splits)

lemma demo_releasable:
  assumes "buddy_rep s demo_base (four demo_base False False @ demo_rest) []"
  shows "releasable s (demo_base + 40)" and "live3 s (demo_base + 40) = Some 88"
proof -
  have "buddy_rep s demo_base ([] @ (demo_base, 0, False) # (demo_base + 128, 0, False) # (demo_base + 256, 0, False) # (demo_base + 384, 0, False) # demo_rest) []"
    using assms by (simp add: four_def)
  then show "releasable s (demo_base + 40)" unfolding releasable_def using release_first by blast
  have "live3 s (demo_base + 40) = Some (blk 0 - 40)" unfolding live3_iff [OF assms] by (auto simp: four_def)
  then show "live3 s (demo_base + 40) = Some 88" by (simp add: blk_small)
qed

theorem buddy_scripts_safe_witness:
  "\<exists>rs s. arun smalloc_3 (\<lambda>p. sfree_3 (Some p)) (replicate 4 (Alloc demo_env 40) @ [Release (demo_base + 40)]) demo_list = Some (Inr (rs, s)) \<and>
    ok3 s \<and> regions_apart (live3 s)"
proof -
  have "ok3 demo_list" using demo_fresh by (simp add: ok3_def)
  moreover have "atrace_ok env3_ok live3 releasable smalloc_3 (\<lambda>p. sfree_3 (Some p)) (replicate 4 (Alloc demo_env 40) @ [Release (demo_base + 40)]) demo_list"
    by (rule atrace_ok_append [OF demo_allocs_ok]) (use demo_four demo_releasable in \<open>fastforce split: option.splits sum.splits\<close>)
  ultimately show ?thesis using buddy_scripts_safe by blast
qed

theorem smalloc_3_best_fit_witness:
  "\<exists>s r s'. buddy_rep s demo_base (whole_arena demo_base) [] \<and> smalloc_3 demo_env 100 s = Some (Inr (r, s')) \<and> bytes3 s' = bytes3 s"
proof -
  obtain s where s: "buddy_rep s demo_base (whole_arena demo_base) []" using demo_start by blast
  have "(0::nat) < 100" "100 < MAX_SIZE" by (simp_all add: MAX_SIZE_def)
  from smalloc_3_best_fit [OF s this, of demo_env] s show ?thesis by blast
qed



theorem sfree_3_loses_block_witness:
  "\<exists>rs s s'. arun smalloc_3 (\<lambda>p. sfree_3 (Some p))
       (replicate 4 (Alloc demo_env 40) @ [Release (demo_base + 40), Release (demo_base + 296)]) demo_list = Some (Inr (rs, s)) \<and>
     sfree_3 (Some (demo_base + 424)) s = Some (Inr s') \<and> live3 s (demo_base + 168) = Some 88 \<and> live3 s' (demo_base + 168) = None \<and>
     buddy_rep s' demo_base (whole_arena demo_base) []"
proof -
  let ?b = "demo_base"
  obtain rs s where s: "arun smalloc_3 (\<lambda>p. sfree_3 (Some p))
       (replicate 4 (Alloc demo_env 40) @ [Release (?b + 40), Release (?b + 296)]) demo_list = Some (Inr (rs, s))"
    "buddy_rep s ?b (four ?b True True @ demo_rest) []" using demo_two_released by blast
  let ?V = "halves ?b 3 10 @ rest_arena ?b"
  have dr: "demo_rest = (?b + 512, 2, True) # ?V" 
  proof -
    have "Suc 2 = 3" "blk 2 = 512" by (simp_all add: blk_def)
    then show ?thesis using halves_step [of 2 10 ?b] by simp
  qed
  have "buddy_rep s ?b ([] @ (?b, 0, True) # (?b + blk 0, 0, False) # (?b + 2 * blk 0, 0, True) # (?b + 3 * blk 0, 0, False) # (?b + 512, 2, True) # ?V) []"
    using s(2) by (simp add: four_def dr blk_small)
  moreover have "coalesce ([], ?b, Suc (Suc 0), (?b + 512, 2, True) # ?V) ([], ?b, 10, rest_arena ?b)"
  proof -
    have "Suc (Suc 0) = 2" by simp
    then show ?thesis using demo_coalesce [of 2] unfolding dr by (simp only:)
  qed
  ultimately obtain s' where "sfree_3 (Some (?b + 3 * blk 0 + 40)) s = Some (Inr s')"
    "buddy_rep s' ?b ([] @ (?b, 10, True) # rest_arena ?b) []" "live3 s (?b + blk 0 + 40) = Some (blk 0 - 40)" "live3 s' (?b + blk 0 + 40) = None"
    using sfree_3_loses_block [of s ?b "[]" ?b 0 "(?b + 512, 2, True)" ?V "[]" "[]" ?b 10 "rest_arena ?b"] by (auto simp: blk_small)
  then show ?thesis using s(1) by (auto simp: blk_small whole_rest)
qed

theorem srealloc_3_spoils_list_witness:
  "\<exists>s s'. smalloc_3 demo_env 40 demo_list = Some (Inr (Some (demo_base + 40), s)) \<and>
    srealloc_3 demo_env (Some (demo_base + 40)) 150 s = Some (Inr (Some (demo_base + 40), s')) \<and>
    freed s' ! 1 = [demo_base + 256, demo_base + 256]"
proof -
  let ?b = "demo_base"
  obtain s0 where s0: "init_heap demo_env demo_list = Inr s0" "buddy_rep s0 ?b (whole_arena ?b) []" using demo_start by blast
  have first: "smalloc_3 demo_env 40 demo_list = smalloc_3 demo_env 40 s0"
    using Malloc_first [OF demo_fresh s0(1)] s0(2) by (simp add: smalloc_3_def buddy_rep_def)
  obtain s1 where s1: "smalloc_3 demo_env 40 s0 = Some (Inr (Some (?b + 40), s1))"
    "buddy_rep s1 ?b ((?b, 0, False) # (?b + 128, 0, True) # halves ?b 1 10 @ rest_arena ?b) []"
    using smalloc_balloc [OF s0(2) balloc_first] .
  let ?V = "halves ?b 1 10 @ rest_arena ?b"
  have x: "?b XOR blk (Suc 0) = ?b + 256" using buddy_low [of "Suc 0" ?b] by (simp add: blk_def)
  have f: "free_addrs (Suc 0) ?V = [?b + 256]"
    using halves_step [of 1 10 ?b] by (simp add: free_addrs_Cons free_addrs_halves free_addrs_rest blk_small)
  have "\<exists>s'. srealloc_3 demo_env (Some (?b + 40)) 150 s1 = Some (Inr (Some (?b + 40), s')) \<and> bytes3 s' = bytes3 s1 \<and>
      dseg (EXPECTED_COOKIE_VALUE s') (meta3 s') None ([] @ (?b, Suc 0, False) # ?V) None \<and>
      freed s' = (flists ([] @ ?V))[Suc 0 := insert_sorted (?b XOR blk (Suc 0)) (free_addrs (Suc 0) ([] @ ?V))]"
  proof (rule srealloc_3_spoils_list)
    show "buddy_rep s1 ?b ([] @ (?b, 0, False) # (?b + blk 0, 0, True) # ?V) []" using s1(2) by (simp add: blk_small)
  qed (simp_all add: blk_def)
  then show ?thesis using first s1(1) f x by (auto simp: insert_sorted_def)
qed

theorem srealloc_3_hangs_witness:
  "\<exists>rs s. arun smalloc_3 (\<lambda>p. sfree_3 (Some p))
       (replicate 4 (Alloc demo_env 40) @ [Release (demo_base + 40), Release (demo_base + 296)]) demo_list = Some (Inr (rs, s)) \<and>
     srealloc_3 demo_env (Some (demo_base + blk 0 + 40)) 100 s = None"
proof -
  let ?b = "demo_base"
  obtain rs s where s: "arun smalloc_3 (\<lambda>p. sfree_3 (Some p))
       (replicate 4 (Alloc demo_env 40) @ [Release (?b + 40), Release (?b + 296)]) demo_list = Some (Inr (rs, s))"
    "buddy_rep s ?b (four ?b True True @ demo_rest) []" using demo_two_released by blast
  have "buddy_rep s ?b ([] @ (?b, 0, True) # (?b + blk 0, 0, False) # (?b + 256, 0, True) # (?b + 384, 0, False) # demo_rest) []"
    using s(2) by (simp add: four_def blk_small)
  then have "srealloc_3 demo_env (Some (?b + blk 0 + 40)) 100 s = None"
    by (rule srealloc_3_hangs) (simp_all add: blk_def MAX_SIZE_TO_ALLOCATE_def)
  then show ?thesis using s(1) by blast
qed

end
