(* ===== verification/BuddyOps.thy ===== *)
theory BuddyOps
  imports BuddyLimits
begin

text \<open>
  The rest of the buddy allocator on the states of BuddyInv: the statistics, zeroed allocation,
  and reallocation where it does not grow a block in place.
\<close>

section \<open>Statistics\<close>

lemma walk_blocks:
  assumes "\<And>a k fr nx pv acc. f a (md3 c k fr nx pv) acc = g (a, k, fr) acc"
  shows "dseg c h pv bs None \<Longrightarrow> walk_list nxt h f (hdp bs None) acc = Some (Inr (fold g bs acc))"
proof (induction bs arbitrary: pv acc)
  case Nil
  then show ?case by (subst walk_list.simps) simp
next
  case (Cons b bs)
  then show ?case by (subst walk_list.simps) (cases b, auto simp: assms)
qed

lemma walk_maps:
  assumes "\<And>a m acc. f a m acc = g (a, bsz m) acc" and "mseg c h p ms"
  shows "walk_list nxt h f p acc = Some (Inr (fold g ms acc))"
proof -
  have f: "f = (\<lambda>a m. g (a, bsz m))" by (intro ext) (rule assms(1))
  show ?thesis unfolding f using assms(2)
  proof (induction ms arbitrary: p acc)
    case Nil
    then show ?case by (subst walk_list.simps) simp
  next
    case (Cons b ms)
    then show ?case by (subst walk_list.simps) (cases b, auto)
  qed
qed

fun is_free_block :: "bblock \<Rightarrow> bool" where
  "is_free_block (a, k, f) = f"

fun room :: "bblock \<Rightarrow> nat" where
  "room (a, k, f) = blk k - 40"

lemma btiled_room: "btiled a bs z \<Longrightarrow> z = a + 40 * length bs + sum_list (map room bs)"
proof (induction bs arbitrary: a)
  case (Cons b bs)
  obtain x k f where b: "b = (x, k, f)" by (cases b)
  have "z = a + blk k + 40 * length bs + sum_list (map room bs)" using Cons b by simp
  then show ?case using b blk_ge [of k] by simp
qed simp

lemma fold_last3: "fold (\<lambda>(a, k, fr) (c, l). (c + 1, a)) bs (c::int, l) = (c + int (length bs), if bs = [] then l else fst (last bs))"
  by (induction bs arbitrary: c l) auto

lemma fold_mod: "fold (\<lambda>(a::nat, n) x. (x + int n) mod 2 ^ 64) ms (x mod 2 ^ 64) = (x + int (sum_list (map snd ms))) mod 2 ^ 64"
proof (induction ms arbitrary: x)
  case (Cons m ms)
  have "(x mod 2 ^ 64 + int (snd m)) mod 2 ^ 64 = (x + int (snd m)) mod 2 ^ 64" by (simp add: mod_add_left_eq)
  then show ?case using Cons.IH [of "x + int (snd m)"] by (simp add: case_prod_unfold add.assoc)
qed simp

lemma allocated_bytes_3:
  assumes rep: "buddy_rep s base bs ms"
  shows "GetNumberOfAllocatedBytes_3 s = Some (Inr (int (sum_list (map room bs) + sum_list (map snd ms)) mod 2 ^ 64))"
proof -
  let ?c = "EXPECTED_COOKIE_VALUE s"
  have d: "dseg ?c (meta3 s) None bs None" and t: "btiled base bs (base + arena)" and hd: "head3 s = Some base"
    and m: "mseg ?c (meta3 s) (MMAPhead s) ms" using rep by (auto simp: buddy_rep_def)
  have "bs \<noteq> []" using t by (auto simp: arena_def)
  then obtain us a k f where bs: "bs = us @ [(a, k, f)]" by (cases bs rule: rev_cases) auto
  have h: "hdp bs None = Some base" using rep_head [OF rep] hd by simp
  have w: "walk_list nxt (meta3 s) (\<lambda>a m (counter, last_ptr). (counter + 1, a)) (Some base) (0::int, base) = Some (Inr (int (length bs), a))"
    using walk_blocks [of "\<lambda>a m (counter::int, last_ptr). (counter + 1, a)" ?c "\<lambda>(a, k, fr) (c, l). (c + 1, a)", OF _ d, of "(0, base)"]
      fold_last3 [of bs 0 base] h bs by (auto simp: case_prod_unfold)
  have a: "\<exists>nx pv. meta3 s a = Some (md3 ?c k f nx pv)" using dseg_lookup [OF d, of a k f] bs by simp
  have ut: "btiled base us a" using t bs by auto
  have sum: "int a - int base + int (blk k - 40) - 40 * (int (length bs) - 1) = int (sum_list (map room bs))"
    using btiled_room [OF ut] bs by simp
  show ?thesis using hd w a sum fold_mod [of ms "int (sum_list (map room bs))"]
      walk_maps [of "\<lambda>_ m n. (n + int (bsz m)) mod 2 ^ 64" "\<lambda>(a, n) x. (x + int n) mod 2 ^ 64", OF _ m]
    by (auto simp: GetNumberOfAllocatedBytes_3_def load_def sizeof_md3_def)
qed

text \<open>
  Claim C33. The statistics of the buddy allocator are right: the number of free blocks and their room,
  the number of all blocks of the arena and of all mappings together with their room, although
  that of the arena is computed from two addresses, and 40 bytes of metadata for each; room and
  metadata of the blocks add up to the arena.
\<close>

theorem buddy_statistics:
  assumes "buddy_rep s base bs ms"
  shows "num_free_blocks_3 s = Some (Inr (length (filter is_free_block bs))) \<and>
    num_free_bytes_3 s = Some (Inr (sum_list (map room (filter is_free_block bs)))) \<and>
    num_allocated_blocks_3 s = Some (Inr (length bs + length ms)) \<and>
    num_allocated_bytes_3 s = Some (Inr (int (sum_list (map room bs) + sum_list (map snd ms)) mod 2 ^ 64)) \<and>
    num_meta_data_bytes_3 s = Some (Inr (size_meta_data_3 * (length bs + length ms))) \<and> size_meta_data_3 = 40 \<and>
    sum_list (map room bs) + size_meta_data_3 * length bs = arena"
proof -
  let ?c = "EXPECTED_COOKIE_VALUE s"
  have d: "dseg ?c (meta3 s) None bs None" and t: "btiled base bs (base + arena)"
    and m: "mseg ?c (meta3 s) (MMAPhead s) ms" using assms by (auto simp: buddy_rep_def)
  note h = rep_head [OF assms]
  have fb: "GetNumberOfFreeBlocks_3 s = Some (Inr (length (filter is_free_block bs)))"
    using walk_blocks [of "\<lambda>_ m (n::nat). if is_free3 m then n + 1 else n" ?c "\<lambda>b n. if is_free_block b then n + 1 else n", OF _ d, of 0]
      fold_count [of is_free_block bs 0] h by (simp add: GetNumberOfFreeBlocks_3_def)
  have fy: "GetNumberOfFreeBytes_3 s = Some (Inr (sum_list (map room (filter is_free_block bs))))"
    using walk_blocks [of "\<lambda>_ m (n::nat). if is_free3 m then n + bsz m else n" ?c "\<lambda>b n. if is_free_block b then n + room b else n", OF _ d, of 0]
      fold_sum [of is_free_block room bs 0] h by (simp add: GetNumberOfFreeBytes_3_def)
  have ab: "GetNumberOfAllocatedBlocks_3 s = Some (Inr (length bs + length ms))"
    using walk_blocks [of "\<lambda>_ m (n::nat). n + 1" ?c "\<lambda>b n. if True then n + 1 else n", OF _ d, of 0]
      walk_maps [of "\<lambda>_ m (n::nat). n + 1" "\<lambda>b n. if True then n + 1 else n", OF _ m, of "length bs"]
      fold_count [of "\<lambda>_. True" bs 0] fold_count [of "\<lambda>_. True" ms "length bs"] h
    by (simp add: GetNumberOfAllocatedBlocks_3_def)
  show ?thesis using fb fy ab allocated_bytes_3 [OF assms] btiled_room [OF t]
    by (simp add: num_free_blocks_3_def num_free_bytes_3_def num_allocated_blocks_3_def num_allocated_bytes_3_def
        num_meta_data_bytes_3_def size_meta_data_3_def sizeof_md3_def)
qed

section \<open>Zeroed allocation\<close>

lemma bytes_irrelevant3 [simp]:
  "live3 (s\<lparr>bytes3 := b\<rparr>) = live3 s" "buddy_rep (s\<lparr>bytes3 := b\<rparr>) base bs ms = buddy_rep s base bs ms"
  by (simp_all add: live3_def buddy_rep_def)

lemma smalloc_3_bytes:
  assumes rep: "buddy_rep s base bs ms" and env: "env3_ok s e n" and r: "smalloc_3 e n s = Some (Inr (r, s'))"
  shows "bytes3 s' = bytes3 s"
proof -
  have out: "mmap_result e = Some a \<Longrightarrow> outside base a n \<and> (\<forall>x \<in> set ms. clear_of (a, n) x)" for a
    using env rep by (auto simp: env3_ok_def)
  consider (bad) "n = 0 \<or> MAX_SIZE_TO_ALLOCATE < n" | (small) "0 < n" "n < MAX_SIZE" | (large) "MAX_SIZE \<le> n" "n \<le> MAX_SIZE_TO_ALLOCATE"
    by linarith
  then show ?thesis
  proof cases
    case bad
    then show ?thesis using rep r by (auto simp: smalloc_3_def Malloc_3_def buddy_rep_def)
  next
    case small
    then show ?thesis using Malloc_small [OF rep small, of e] r by (auto simp: smalloc_3_def split: option.splits prod.splits)
  next
    case large
    then show ?thesis using Malloc_large [OF rep large, of e] out r by (auto simp: smalloc_3_def split: option.splits)
  qed
qed

text \<open>
  \<open>scalloc\<close> of a product that does not overflow returns NULL or a block that was not in use, is
  large enough and holds zeroes; no byte of a block in use changes.
\<close>

theorem scalloc_3_zeroes:
  assumes "buddy_rep s base bs ms" and "env3_ok s e (num * n)" and "0 < num" and "0 < n" and "num * n \<le> MAX_SIZE_TO_ALLOCATE"
  shows "\<exists>r s'. scalloc_3 e num n s = Some (Inr (r, s')) \<and>
    (case r of None \<Rightarrow> live3 s' = live3 s \<and> bytes3 s' = bytes3 s
     | Some p \<Rightarrow> live3 s p = None \<and> (\<exists>c \<ge> num * n. live3 s' = (live3 s)(p \<mapsto> c)) \<and>
         (\<forall>i < num * n. bytes3 s' (p + i) = CHR 0x00) \<and> bytes_kept (live3 s) (bytes3 s) (bytes3 s'))"
proof -
  have ok: "ok3 s" using assms(1) by (auto simp: ok3_def)
  obtain r s1 where r: "smalloc_3 e (num * n) s = Some (Inr (r, s1))"
    "case r of None \<Rightarrow> live3 s1 = live3 s | Some p \<Rightarrow> live3 s p = None \<and> (\<exists>c \<ge> num * n. live3 s1 = (live3 s)(p \<mapsto> c))"
    using smalloc_3_law [OF ok assms(2)] by blast
  note bytes = smalloc_3_bytes [OF assms(1,2) r(1)]
  have wrap: "num * n mod 2 ^ 64 = num * n" using assms(5) by (simp add: MAX_SIZE_TO_ALLOCATE_def)
  show ?thesis
  proof (cases r)
    case None
    then show ?thesis using r bytes assms(3-5) wrap by (simp add: scalloc_3_def smalloc_3_def)
  next
    case (Some p)
    let ?s' = "s1\<lparr>bytes3 := fill_bytes p (num * n) (bytes3 s1)\<rparr>"
    have "bytes_kept (live3 s) (bytes3 s) (fill_bytes p (num * n) (bytes3 s))"
      using bd.alloc_disjoint [OF ok assms(2) r(1) [unfolded Some]] by (rule bytes_kept_fill)
    moreover have "scalloc_3 e num n s = Some (Inr (Some p, ?s'))"
      using r(1) Some assms(3-5) wrap by (simp add: scalloc_3_def smalloc_3_def)
    ultimately show ?thesis using r(2) Some bytes
      by (intro exI [of _ r] exI [of _ ?s']) (auto simp: fill_bytes_def)
  qed
qed

section \<open>Reallocation\<close>

lemma block_loaded:
  assumes "buddy_rep s base (us @ (a, k, False) # vs) ms"
  shows "\<exists>m. load a s = Inr m \<and> bsz m = blk k - 40 \<and> order m = int k" and "k \<le> 10" and "live3 s (a + 40) = Some (blk k - 40)"
proof -
  have d: "dseg (EXPECTED_COOKIE_VALUE s) (meta3 s) None (us @ (a, k, False) # vs) None"
    and t: "btiled base (us @ (a, k, False) # vs) (base + arena)" using assms by (auto simp: buddy_rep_def)
  obtain nx pv where "meta3 s a = Some (md3 (EXPECTED_COOKIE_VALUE s) k False nx pv)" using dseg_lookup [OF d, of a k False] by auto
  then show "\<exists>m. load a s = Inr m \<and> bsz m = blk k - 40 \<and> order m = int k" by (simp add: load_def)
  show "k \<le> 10" using btiled_block [OF t, of a k False] by simp
  show "live3 s (a + 40) = Some (blk k - 40)" by (subst live3_iff [OF assms]) auto
qed

lemma union_impossible:
  assumes rep: "buddy_rep s base (us @ (a, k, False) # vs) ms" and n: "blk k - 40 < n"
    and b: "meta3 s (a XOR blk k) = Some bm" "\<not> is_free3 bm"
  shows "CheckIfUnionIsPossible a n s = Some (Inr False)"
proof -
  obtain m where m: "load a s = Inr m" "bsz m = blk k - 40" "order m = int k" using block_loaded(1) [OF rep] by blast
  have "check_loop a n a m (a XOR blk k) bm s = Some (Inr m)" using b(2) by (subst check_loop.simps) simp
  then show ?thesis using m n b(1) block_loaded(2) [OF rep]
    by (simp add: CheckIfUnionIsPossible_def buddy_of_blk load_def [of "a XOR blk k"])
qed

lemma srealloc_3_larger:
  assumes "buddy_rep s base (us @ (a, k, False) # vs) ms" and "blk k - 40 < n" and "n < MAX_SIZE"
    and "meta3 s (a XOR blk k) = Some bm" and "\<not> is_free3 bm"
  shows "srealloc_3 e (Some (a + 40)) n s = cbind (Malloc_3 e n s) (\<lambda>(r, s1).
      case r of None \<Rightarrow> Some (Inr (None, s1))
      | Some p \<Rightarrow> cbind (Free_3 (Some (a + 40)) (s1\<lparr>bytes3 := copy_bytes p (a + 40) (blk k - 40) (bytes3 s1)\<rparr>)) (\<lambda>s2. Some (Inr (Some p, s2))))"
proof -
  obtain m where m: "load a s = Inr m" "bsz m = blk k - 40" using block_loaded(1) [OF assms(1)] by blast
  have "0 < n" "n \<le> MAX_SIZE_TO_ALLOCATE" using assms(2,3) by (auto simp: MAX_SIZE_def MAX_SIZE_TO_ALLOCATE_def)
  moreover have "bsz m < n" using m(2) assms(2) by simp
  ultimately show ?thesis unfolding m(2) [symmetric] using m(1) union_impossible [OF assms(1,2,4,5)]
    by (simp add: srealloc_3_def Srealloc_3_def sizeof_md3_def)
qed

lemma srealloc_3_fits:
  assumes "buddy_rep s base (us @ (a, k, False) # vs) ms" and "0 < n" and "n \<le> blk k - 40"
  shows "srealloc_3 e (Some (a + 40)) n s = Some (Inr (Some (a + 40), s))"
proof -
  obtain m where m: "load a s = Inr m" "bsz m = blk k - 40" using block_loaded(1) [OF assms(1)] by blast
  have "blk k \<le> blk 10" using block_loaded(2) [OF assms(1)] by (rule blk_le)
  then have "n \<le> MAX_SIZE_TO_ALLOCATE" using assms(3) by (simp add: blk_10 MAX_SIZE_def MAX_SIZE_TO_ALLOCATE_def)
  then show ?thesis using m assms(2,3) by (simp add: srealloc_3_def Srealloc_3_def sizeof_md3_def)
qed

text \<open>
  Claim C34. \<open>srealloc\<close> to a larger size of a block whose buddy is in use: when no free block is large
  enough it returns NULL and changes nothing; otherwise it allocates as \<open>smalloc\<close> does, moves the
  contents to the new block and releases the old one as \<open>sfree\<close> does. No byte of a block that was in
  use changes.
\<close>

theorem srealloc_3_moves:
  assumes "buddy_rep s base (us @ (a, k, False) # vs) ms" and "blk k - 40 < n" and "n < MAX_SIZE"
    and "meta3 s (a XOR blk k) = Some bm" and "\<not> is_free3 bm"
  shows "case balloc n (us @ (a, k, False) # vs) of
      None \<Rightarrow> srealloc_3 e (Some (a + 40)) n s = Some (Inr (None, s))
    | Some (q, bs1) \<Rightarrow> (\<forall>us1 vs1 us' a' k' vs'. bs1 = us1 @ (a, k, False) # vs1 \<longrightarrow> coalesce (us1, a, k, vs1) (us', a', k', vs') \<longrightarrow>
        (\<exists>s'. srealloc_3 e (Some (a + 40)) n s = Some (Inr (Some (q + 40), s')) \<and>
          buddy_rep s' base (us' @ (a', k', True) # vs') ms \<and>
          (\<forall>i < blk k - 40. bytes3 s' (q + 40 + i) = bytes3 s (a + 40 + i)) \<and> bytes_kept (live3 s) (bytes3 s) (bytes3 s')))"
proof (cases "balloc n (us @ (a, k, False) # vs)")
  case None
  have "0 < n" using assms(2) by simp
  from Malloc_small [OF assms(1) this assms(3), of e] None show ?thesis using srealloc_3_larger [OF assms, of e] by simp
next
  case (Some p)
  obtain q bs1 where p: "p = (q, bs1)" by (cases p)
  have "0 < n" using assms(2) by simp
  from Malloc_small [OF assms(1) this assms(3), of e] Some p obtain s1 where s1: "Malloc_3 e n s = Some (Inr (Some (q + 40), s1))"
    "buddy_rep s1 base bs1 ms" "bytes3 s1 = bytes3 s" by auto
  obtain c where c: "live3 s (q + 40) = None" "n \<le> c" "live3 s1 = (live3 s)(q + 40 \<mapsto> c)"
    using live3_carve [OF assms(1) s1(2), of n q] Some p by auto
  have "x + d \<le> q + 40 \<or> q + 40 + (blk k - 40) \<le> x" if "live3 s x = Some d" for x d
  proof -
    have "live3 s1 x = Some d" "live3 s1 (q + 40) = Some c" "x \<noteq> q + 40" using that c by auto
    then have "x + d \<le> q + 40 \<or> q + 40 + c \<le> x" using live3_apart [OF s1(2)] unfolding regions_apart_def by blast
    then show ?thesis using c(2) assms(2) by linarith
  qed
  then have kept: "bytes_kept (live3 s) (bytes3 s) (copy_bytes (q + 40) (a + 40) (blk k - 40) (bytes3 s))"
    by (intro bytes_kept_copy) blast
  have moved: "\<exists>s'. srealloc_3 e (Some (a + 40)) n s = Some (Inr (Some (q + 40), s')) \<and>
      buddy_rep s' base (us' @ (a', k', True) # vs') ms \<and>
      (\<forall>i < blk k - 40. bytes3 s' (q + 40 + i) = bytes3 s (a + 40 + i)) \<and> bytes_kept (live3 s) (bytes3 s) (bytes3 s')"
    if "bs1 = us1 @ (a, k, False) # vs1" "coalesce (us1, a, k, vs1) (us', a', k', vs')" for us1 vs1 us' a' k' vs'
  proof -
    let ?s2 = "s1\<lparr>bytes3 := copy_bytes (q + 40) (a + 40) (blk k - 40) (bytes3 s1)\<rparr>"
    have "buddy_rep ?s2 base (us1 @ (a, k, False) # vs1) ms" using s1(2) that(1) by simp
    from sfree_3_block [OF this that(2)] obtain s' where "Free_3 (Some (a + 40)) ?s2 = Some (Inr s')"
      "buddy_rep s' base (us' @ (a', k', True) # vs') ms" "bytes3 s' = bytes3 ?s2" by (auto simp: sfree_3_def)
    then show ?thesis using srealloc_3_larger [OF assms, of e] s1(1,3) kept
      by (intro exI [of _ s']) (auto simp: copy_bytes_def)
  qed
  show ?thesis unfolding Some p option.case prod.case using moved by blast
qed

section \<open>Concrete states\<close>

theorem buddy_statistics_witness:
  "\<exists>s. init_heap demo_env demo_list = Inr s \<and> num_free_blocks_3 s = Some (Inr 32) \<and> num_meta_data_bytes_3 s = Some (Inr 1280)"
proof -
  obtain s where s: "init_heap demo_env demo_list = Inr s" "buddy_rep s demo_base (whole_arena demo_base) []" using demo_start by blast
  have "length (filter is_free_block (whole_arena demo_base)) = 32" "length (whole_arena demo_base) = 32"
    by (simp_all add: whole_arena_def filter_map comp_def)
  then show ?thesis using s(1) buddy_statistics [OF s(2)] by simp
qed

theorem scalloc_3_zeroes_witness:
  "\<exists>s r s'. init_heap demo_env demo_list = Inr s \<and> scalloc_3 demo_env 5 8 s = Some (Inr (r, s'))"
proof -
  obtain s where s: "init_heap demo_env demo_list = Inr s" "buddy_rep s demo_base (whole_arena demo_base) []" using demo_start by blast
  from scalloc_3_zeroes [OF s(2) demo_env_ok, of 5 8] s(1) show ?thesis by (auto simp: MAX_SIZE_TO_ALLOCATE_def)
qed

lemma demo_rest_split: "demo_rest = (demo_base + 512, 2, True) # halves demo_base 3 10 @ rest_arena demo_base"
  using halves_step [of 2 10 demo_base] by (simp add: blk_def)

lemma balloc_100:
  "balloc 100 (four demo_base False False @ demo_rest) = Some (demo_base + 512,
     four demo_base False False @ (demo_base + 512, 1, False) # (demo_base + 768, 1, True) # halves demo_base 3 10 @ rest_arena demo_base)"
proof -
  have "tight 100 (Suc (Suc 0)) = 1" by (simp add: blk_small)
  then have "tight 100 2 = 1" by (simp only: numeral_2_eq_2)
  moreover have "pick 100 (four demo_base False False @ demo_rest) = Some 2"
    by (rule pick_first) (auto simp: demo_rest_split four_def free_addrs_Cons free_addrs_halves free_addrs_rest blk_def)
  moreover have "[Suc 0..<2] = [1]" by (simp add: upt_rec)
  ultimately show ?thesis by (simp add: balloc_def four_def demo_rest_split halves_def blk_def)
qed

theorem srealloc_3_moves_witness:
  "\<exists>s s'. buddy_rep s demo_base (four demo_base False False @ demo_rest) [] \<and>
    srealloc_3 demo_env (Some (demo_base + 40)) 100 s = Some (Inr (Some (demo_base + 552), s')) \<and>
    bytes3 s' (demo_base + 552) = bytes3 s (demo_base + 40)"
proof -
  let ?b = "demo_base" and ?V = "(demo_base + 256, 0, False) # (demo_base + 384, 0, False) # demo_rest"
  let ?W = "(?b + 256, 0, False) # (?b + 384, 0, False) # (?b + 512, 1, False) # (?b + 768, 1, True) # halves ?b 3 10 @ rest_arena ?b"
  obtain s where s: "buddy_rep s ?b (four ?b False False @ demo_rest) []" using demo_four by blast
  have f: "four ?b False False @ demo_rest = [] @ (?b, 0, False) # (?b + 128, 0, False) # ?V" by (simp add: four_def)
  have x: "?b XOR blk 0 = ?b + 128" using buddy_low [of 0 ?b] by (simp add: blk_def)
  have "dseg (EXPECTED_COOKIE_VALUE s) (meta3 s) None (four ?b False False @ demo_rest) None" using s by (simp add: buddy_rep_def)
  from dseg_lookup [OF this, of "?b + 128" 0 False] obtain bm where bm: "meta3 s (?b XOR blk 0) = Some bm" "\<not> is_free3 bm"
    unfolding x by (auto simp: four_def)
  have n: "blk 0 - 40 < 100" "100 < MAX_SIZE" by (simp_all add: blk_def MAX_SIZE_def)
  have bal: "balloc 100 ([] @ (?b, 0, False) # (?b + 128, 0, False) # ?V) = Some (?b + 512, [] @ (?b, 0, False) # (?b + 128, 0, False) # ?W)"
    using balloc_100 unfolding f by (simp add: four_def)
  have co: "coalesce ([], ?b, 0, (?b + 128, 0, False) # ?W) ([], ?b, 0, (?b + 128, 0, False) # ?W)" by (rule release_first)
  have ex: "\<exists>s'. srealloc_3 demo_env (Some (?b + 40)) 100 s = Some (Inr (Some (?b + 512 + 40), s')) \<and>
      (\<forall>i < blk 0 - 40. bytes3 s' (?b + 512 + 40 + i) = bytes3 s (?b + 40 + i))"
    using srealloc_3_moves [OF s [unfolded f] n bm, of demo_env] co unfolding bal option.case prod.case by blast
  then obtain s' where "srealloc_3 demo_env (Some (?b + 40)) 100 s = Some (Inr (Some (?b + 552), s'))"
      "\<forall>i < 88. bytes3 s' (?b + 552 + i) = bytes3 s (?b + 40 + i)" by (auto simp: blk_def)
  then show ?thesis using s by (intro exI [of _ s] exI [of _ s']) (auto dest!: spec [of _ 0])
qed

end
