(* ===== verification/SmashParse.thy ===== *)
theory SmashParse
  imports Prelude
begin

text \<open>
  The small shell of hw1, first part (hw1/wet/skeleton_smash/Commands.cpp): trimming, splitting a
  command line into arguments, the background sign, the Command object and the choice of the
  command class. A line is a C string of any length; the fixed arrays it is copied to are
  bounds of the model.
\<close>

section \<open>Trimming\<close>

definition COMMAND_ARGS_MAX_LENGTH :: nat where "COMMAND_ARGS_MAX_LENGTH = 200"
definition COMMAND_MAX_ARGS :: nat where "COMMAND_MAX_ARGS = 20"
definition PATH_MAX_LENGHT :: nat where "PATH_MAX_LENGHT = 101"

definition WHITESPACE :: string where
  "WHITESPACE = [CHR '' '', LF, CR, CHR 0x09, CHR 0x0C, CHR 0x0B]"

text \<open>\<open>find_first_of\<close>, \<open>find_first_not_of\<close> and \<open>find_last_not_of\<close>; \<open>None\<close> is \<open>npos\<close>.\<close>

fun find_first :: "(char \<Rightarrow> bool) \<Rightarrow> string \<Rightarrow> nat option" where
  "find_first P [] = None"
| "find_first P (c # s) = (if P c then Some 0 else map_option Suc (find_first P s))"

definition find_first_of :: "string \<Rightarrow> string \<Rightarrow> nat option" where
  "find_first_of cs s = find_first (\<lambda>c. c \<in> set cs) s"

definition find_first_not_of :: "string \<Rightarrow> string \<Rightarrow> nat option" where
  "find_first_not_of cs s = find_first (\<lambda>c. c \<notin> set cs) s"

definition find_last_not_of :: "string \<Rightarrow> string \<Rightarrow> nat option" where
  "find_last_not_of cs s = map_option (\<lambda>i. length s - Suc i) (find_first (\<lambda>c. c \<notin> set cs) (rev s))"

definition ltrim :: "string \<Rightarrow> string" where
  "ltrim s = (case find_first_not_of WHITESPACE s of None \<Rightarrow> [] | Some start \<Rightarrow> drop start s)"

definition rtrim :: "string \<Rightarrow> string" where
  "rtrim s = (case find_last_not_of WHITESPACE s of None \<Rightarrow> [] | Some e \<Rightarrow> take (e + 1) s)"

definition trim :: "string \<Rightarrow> string" where
  "trim s = rtrim (ltrim s)"

section \<open>Splitting\<close>

text \<open>The words that \<open>iss >> s\<close> extracts one after the other.\<close>

function words :: "string \<Rightarrow> string list" where
  "words s = (case scan_word s of None \<Rightarrow> [] | Some (w, r) \<Rightarrow> w # words r)"
  by pat_completeness auto

termination
proof (relation "measure length")
  fix s p w r
  assume "scan_word s = Some p" "(w, r) = p"
  then have sw: "scan_word s = Some (w, r)" by simp
  show "(r, s) \<in> measure length" using scan_word_Some(1,3) [OF sw] by (cases w) auto
qed simp

declare words.simps [simp del]

text \<open>Every word and the NULL pointer behind the last one need a place among the 20.\<close>

definition parseCommandLine :: "string \<Rightarrow> string list res" where
  "parseCommandLine cmd_line =
     (let ws = words (trim cmd_line) in
      if length ws < COMMAND_MAX_ARGS then Inr ws else Inl (UB Buffer_overflow))"

section \<open>The background sign\<close>

definition isBackgroundComamnd :: "string \<Rightarrow> bool res" where
  "isBackgroundComamnd cmd_line =
     (case find_last_not_of WHITESPACE cmd_line of
        None \<Rightarrow> Inl (UB Bad_bound)
      | Some i \<Rightarrow> Inr (cmd_line ! i = CHR ''&''))"

text \<open>
  \<open>idx\<close> is an \<open>unsigned int\<close> and never equal to the 64-bit \<open>npos\<close>, so a blank line is read far
  behind its end. The search for the new end runs on the copy made before the sign was
  replaced, and finds the sign itself.
\<close>

definition removeBackgroundSign :: "string \<Rightarrow> string res" where
  "removeBackgroundSign cmd_line =
     (case find_last_not_of WHITESPACE cmd_line of
        None \<Rightarrow> Inl (UB Bad_bound)
      | Some idx \<Rightarrow>
          if cmd_line ! idx \<noteq> CHR ''&'' then Inr cmd_line
          else Inr (take (idx + 1) (cmd_line[idx := CHR '' ''])))"

section \<open>Commands\<close>

record command =
  cmd_line :: string
  argv :: "string list"
  is_background_command :: bool

abbreviation argc :: "command \<Rightarrow> nat" where "argc c \<equiv> length (argv c)"

definition Command_ctor :: "string \<Rightarrow> command res" where
  "Command_ctor line =
     rbind (isBackgroundComamnd line) (\<lambda>bg.
     rbind (put (COMMAND_ARGS_MAX_LENGTH + 1) line) (\<lambda>cmd.
     rbind (removeBackgroundSign cmd) (\<lambda>cmd'.
     rbind (parseCommandLine cmd') (\<lambda>args.
     Inr \<lparr>cmd_line = line, argv = args, is_background_command = bg\<rparr>))))"

datatype command_class =
    PipeCommand | RedirectionCommand | SetcoreCommand | GetFileTypeCommand | ChmodCommand
  | ChangePrompt | ShowPidCommand | GetCurrDirCommand | ChangeDirCommand | JobsCommand
  | ForegroundCommand | BackgroundCommand | QuitCommand | KillCommand | ExternalCommand

text \<open>\<open>s.substr(0, s.find_first_of(cs))\<close>\<close>

definition up_to :: "string \<Rightarrow> string \<Rightarrow> string" where
  "up_to cs s = (case find_first_of cs s of None \<Rightarrow> s | Some i \<Rightarrow> take i s)"

definition first_word :: "string \<Rightarrow> string res" where
  "first_word cmd_s =
     (let w = up_to [CHR '' '', LF] cmd_s in
      if w = [] then Inl (UB Bad_bound)
      else Inr (if last w = CHR ''&'' then butlast w else w))"

definition class_of :: "string \<Rightarrow> string \<Rightarrow> command_class" where
  "class_of cmd_s firstWord =
     (if find_first_of ''|'' cmd_s \<noteq> None then PipeCommand
      else if find_first_of ''>'' cmd_s \<noteq> None then RedirectionCommand
      else if firstWord = ''setcore'' then SetcoreCommand
      else if firstWord = ''getfiletype'' then GetFileTypeCommand
      else if firstWord = ''chmod'' then ChmodCommand
      else if firstWord = ''chprompt'' then ChangePrompt
      else if firstWord = ''showpid'' then ShowPidCommand
      else if firstWord = ''pwd'' then GetCurrDirCommand
      else if firstWord = ''cd'' then ChangeDirCommand
      else if firstWord = ''jobs'' then JobsCommand
      else if firstWord = ''fg'' then ForegroundCommand
      else if firstWord = ''bg'' then BackgroundCommand
      else if firstWord = ''quit'' then QuitCommand
      else if firstWord = ''kill'' then KillCommand
      else ExternalCommand)"

definition CreateCommand :: "string \<Rightarrow> (command_class \<times> command) res" where
  "CreateCommand line =
     (let cmd_s = trim line in
      rbind (first_word cmd_s) (\<lambda>firstWord.
      rbind (Command_ctor line) (\<lambda>c. Inr (class_of cmd_s firstWord, c))))"

section \<open>Trimming is what it seems\<close>

lemma in_WHITESPACE: "c \<in> set WHITESPACE \<longleftrightarrow> isspace c"
  by (auto simp: WHITESPACE_def isspace_def)

lemma find_first_None: "find_first P s = None \<longleftrightarrow> (\<forall>c \<in> set s. \<not> P c)"
  by (induction s) auto

lemma find_first_takeWhile:
  "find_first P s = Some i \<Longrightarrow> i = length (takeWhile (\<lambda>c. \<not> P c) s) \<and> i < length s"
  by (induction s arbitrary: i) (auto split: if_splits)

lemma ltrim_eq: "ltrim s = dropWhile isspace s"
proof (cases "find_first_not_of WHITESPACE s")
  case None
  then have "dropWhile isspace s = []" unfolding find_first_not_of_def find_first_None in_WHITESPACE by simp
  moreover have "ltrim s = []" using None by (simp add: ltrim_def)
  ultimately show ?thesis by (simp only:)
next
  case (Some i)
  then show ?thesis using find_first_takeWhile [of "\<lambda>c. c \<notin> set WHITESPACE" s i]
    by (simp add: ltrim_def find_first_not_of_def in_WHITESPACE dropWhile_eq_drop)
qed

lemma rtrim_eq: "rtrim s = rev (dropWhile isspace (rev s))"
proof (cases "find_first (\<lambda>c. c \<notin> set WHITESPACE) (rev s)")
  case None
  then have "dropWhile isspace (rev s) = []" unfolding find_first_None in_WHITESPACE by simp
  moreover have "rtrim s = []" using None by (simp add: rtrim_def find_last_not_of_def)
  ultimately show ?thesis by (simp only: rev.simps)
next
  case (Some i)
  then have i: "i = length (takeWhile isspace (rev s))" "i < length s"
    using find_first_takeWhile [of "\<lambda>c. c \<notin> set WHITESPACE" "rev s" i] by (auto simp: in_WHITESPACE)
  then have "Suc (length s - Suc i) = length s - i" by simp
  then show ?thesis using Some i(1) by (simp add: rtrim_def find_last_not_of_def dropWhile_eq_drop rev_drop)
qed

lemma rtrim_snoc: "rtrim (s @ [c]) = (if isspace c then rtrim s else s @ [c])"
  by (simp add: rtrim_eq)

lemma rtrim_spaces: "\<forall>c \<in> set t. isspace c \<Longrightarrow> rtrim (s @ t) = rtrim s"
  by (induction t rule: rev_induct) (auto simp: rtrim_snoc simp flip: append_assoc)

text \<open>The words do not depend on white space around the line, so trimming changes nothing.\<close>

lemma scan_word_ltrim: "scan_word (dropWhile isspace s) = scan_word s"
  by (simp add: scan_word_def)

lemma scan_word_spaces:
  assumes "\<forall>c \<in> set t. isspace c"
  shows "scan_word (s @ t) = map_option (\<lambda>(w, r). (w, r @ t)) (scan_word s)"
proof (cases "\<forall>c \<in> set s. isspace c")
  case True
  then have "dropWhile isspace (s @ t) = []" "dropWhile isspace s = []" using assms by auto
  then show ?thesis unfolding scan_word_def by (simp only:) simp
next
  case False
  then obtain x where x: "x \<in> set s" "\<not> isspace x" by blast
  have tw: "takeWhile (\<lambda>c. \<not> isspace c) (u @ t) = takeWhile (\<lambda>c. \<not> isspace c) u" for u
    using assms by (induction u) (cases t, auto)
  have "dropWhile isspace (s @ t) = dropWhile isspace s @ t" using x by (rule dropWhile_append1)
  moreover have "length (takeWhile (\<lambda>c. \<not> isspace c) u) \<le> length u" for u by (rule length_takeWhile_le)
  ultimately show ?thesis by (simp add: scan_word_def tw Let_def)
qed

lemma words_spaces: "\<forall>c \<in> set t. isspace c \<Longrightarrow> words (s @ t) = words s"
proof (induction s rule: words.induct)
  case (1 s)
  show ?case
  proof (cases "scan_word s")
    case None
    then show ?thesis using 1 by (subst (1 2) words.simps) (simp add: scan_word_spaces)
  next
    case (Some p)
    obtain w r where p: "p = (w, r)" by (cases p)
    then show ?thesis using 1 Some by (subst (1 2) words.simps) (simp add: scan_word_spaces)
  qed
qed

lemma rtrim_split: "\<exists>t. s = rtrim s @ t \<and> (\<forall>c \<in> set t. isspace c)"
proof (intro exI conjI)
  show "s = rtrim s @ rev (takeWhile isspace (rev s))"
    unfolding rtrim_eq by (metis rev_append rev_rev_ident takeWhile_dropWhile_id)
  show "\<forall>c \<in> set (rev (takeWhile isspace (rev s))). isspace c" by (auto dest: set_takeWhileD)
qed

lemma words_trim: "words (trim s) = words s"
proof -
  have l: "words (dropWhile isspace s) = words s" by (subst (1 2) words.simps) (simp add: scan_word_ltrim)
  obtain t where "ltrim s = trim s @ t" "\<forall>c \<in> set t. isspace c" using rtrim_split [of "ltrim s"] by (auto simp: trim_def)
  then have "words (ltrim s) = words (trim s)" using words_spaces by metis
  then show ?thesis using l by (simp add: ltrim_eq)
qed

section \<open>The background sign does not change the arguments\<close>

lemma find_last_snoc:
  assumes "\<not> isspace c" and "\<forall>c \<in> set t. isspace c"
  shows "find_last_not_of WHITESPACE (s @ c # t) = Some (length s)"
proof -
  have "find_first (\<lambda>c. c \<notin> set WHITESPACE) (u @ c # v) = Some (length u)" if "\<forall>c \<in> set u. isspace c" for u v
    using that assms(1) by (induction u) (auto simp: in_WHITESPACE)
  from this [of "rev t" "rev s"] show ?thesis using assms(2) by (simp add: find_last_not_of_def)
qed


section \<open>Splitting inverts joining\<close>

definition word_ok :: "string \<Rightarrow> bool" where
  "word_ok w \<longleftrightarrow> w \<noteq> [] \<and> (\<forall>c \<in> set w. \<not> isspace c)"

definition blank_ok :: "string \<Rightarrow> bool" where
  "blank_ok b \<longleftrightarrow> b \<noteq> [] \<and> (\<forall>c \<in> set b. isspace c)"

text \<open>The words, each followed by its own run of white space.\<close>

fun join :: "(string \<times> string) list \<Rightarrow> string" where
  "join [] = []"
| "join ((w, b) # ps) = w @ b @ join ps"

lemma scan_word_join:
  assumes "word_ok w" and "blank_ok b" and "\<forall>x \<in> set t. isspace x"
  shows "scan_word (t @ w @ b @ s) = Some (w, b @ s)"
proof -
  have d: "dropWhile isspace (t @ w @ b @ s) = w @ b @ s"
    using assms(1,3) by (cases w) (auto simp: word_ok_def dropWhile_append2)
  have tk: "takeWhile (\<lambda>c. \<not> isspace c) (w @ b @ s) = w"
    using assms(1,2) by (cases b) (auto simp: word_ok_def blank_ok_def takeWhile_append2)
  show ?thesis using assms(1) by (simp add: scan_word_def d tk word_ok_def)
qed

lemma words_join:
  assumes "\<forall>(w, b) \<in> set ps. word_ok w \<and> blank_ok b" and "\<forall>x \<in> set t. isspace x"
  shows "words (t @ join ps) = map fst ps"
  using assms
proof (induction ps arbitrary: t)
  case Nil
  then have "scan_word t = None" using scan_word_spaces [of t "[]"] by (simp add: scan_word_def)
  then show ?case by (subst words.simps) simp
next
  case (Cons p ps)
  obtain w b where p: "p = (w, b)" by (cases p)
  have ok: "word_ok w" "blank_ok b" using Cons.prems(1) p by auto
  have "words (b @ join ps) = map fst ps" using Cons ok(2) by (intro Cons.IH) (auto simp: blank_ok_def)
  then show ?case using scan_word_join [OF ok Cons.prems(2), of "join ps"] p by (subst words.simps) simp
qed

text \<open>
  Claim C40. Splitting inverts joining: up to 19 words without white space, with any white space before,
  between and behind them, are split into exactly these words; with 20 or more the array of
  argument pointers is overrun.
\<close>

theorem parse_join:
  assumes "\<forall>(w, b) \<in> set ps. word_ok w \<and> blank_ok b" and "\<forall>x \<in> set t. isspace x"
  shows "parseCommandLine (t @ join ps) = (if length ps \<le> 19 then Inr (map fst ps) else Inl (UB Buffer_overflow))"
  using words_join [OF assms] by (auto simp: parseCommandLine_def words_trim COMMAND_MAX_ARGS_def)

text \<open>
  A line of white space alone, which the main loop does not filter out, reads the last character
  of an empty string.
\<close>

theorem blank_line_UB: "\<forall>c \<in> set line. isspace c \<Longrightarrow> CreateCommand line = Inl (UB Bad_bound)"
proof -
  assume "\<forall>c \<in> set line. isspace c"
  then have "ltrim line = []" by (simp add: ltrim_eq)
  then have "trim line = []" by (simp add: trim_def rtrim_eq)
  then show ?thesis by (simp add: CreateCommand_def first_word_def up_to_def find_first_of_def)
qed

section \<open>Concrete lines\<close>

lemma demo_command: "Command_ctor ''sleep 5'' = Inr \<lparr>cmd_line = ''sleep 5'', argv = [''sleep'', ''5''], is_background_command = False\<rparr>"
  by code_simp


theorem parse_join_witness: "parseCommandLine ('' '' @ join [(''fg'', ''  ''), (''3'', '' '')]) = Inr [''fg'', ''3'']"
  using parse_join [of "[(''fg'', ''  ''), (''3'', '' '')]" "'' ''"]
  by (simp add: word_ok_def blank_ok_def isspace_def)

end
