(* ===== verification/Smash.thy ===== *)
theory Smash
  imports SmashParse
begin

text \<open>
  The small shell of hw1, second part (Commands.h, Commands.cpp, signals.cpp and smash.cpp): the
  jobs list, every command, the two signal handlers and the main loop. Job entries are objects
  on a heap, because the list and the current foreground job share them. What the system
  answers to the calls of one command is a record; what a command does to the outside world is
  a log of events. A child process is the event that starts it.
\<close>

section \<open>State\<close>

datatype Status = Foreground | Background | Stopped | Finished

record JobEntry =
  jobId :: int
  jobProcessId :: int
  jobStatus :: Status
  job_cmd_line :: string
  entryTime :: int

text \<open>What a forked child does: the program it becomes, or the shell on another command line.\<close>

datatype child =
    Exec_bash string
  | Execvp string "string list"
  | Subshell_file bool string string
  | Subshell_pipe_out bool string
  | Subshell_pipe_in string

datatype event =
    Out string | Err string | Signal int int | Forked int child
  | Set_affinity int int | Set_mode string int | Chdir string

text \<open>
  \<open>maxJobID\<close> is not initialised by the constructor. \<open>last_path\<close> is an array of 101 characters, of
  which the text is terminated or not. \<open>halted\<close> is the exit status of the process once it has ended.
\<close>

record smash =
  heap :: "nat \<rightharpoonup> JobEntry"
  jobsList :: "nat list"
  maxJobID :: "int option"
  prompt :: string
  smash_pid :: int
  last_path :: "string \<times> bool"
  hasLastPath :: bool
  current_foreground_job :: "nat option"
  log :: "event list"
  halted :: "int option"

definition JobsList_ctor :: "nat list \<times> int option" where
  [simp]: "JobsList_ctor = ([], None)"

definition SmallShell_ctor :: "int \<Rightarrow> smash" where
  "SmallShell_ctor pid = \<lparr>heap = Map.empty, jobsList = fst JobsList_ctor, maxJobID = snd JobsList_ctor, prompt = ''smash'', smash_pid = pid,
     last_path = ([], False), hasLastPath = False, current_foreground_job = None, log = [], halted = None\<rparr>"

text \<open>The methods of \<open>SmallShell\<close> that read and write its fields.\<close>

definition getPrompt :: "smash \<Rightarrow> string" where
  [simp]: "getPrompt s = prompt s"

definition changePrompt :: "string \<Rightarrow> smash \<Rightarrow> smash" where
  [simp]: "changePrompt new_prompt s = s\<lparr>prompt := new_prompt\<rparr>"

definition getPid :: "smash \<Rightarrow> int" where
  [simp]: "getPid s = smash_pid s"

definition containsLastPath :: "smash \<Rightarrow> bool" where
  [simp]: "containsLastPath s = hasLastPath s"

definition TurnTrueLastPath :: "smash \<Rightarrow> smash" where
  [simp]: "TurnTrueLastPath s = s\<lparr>hasLastPath := True\<rparr>"

definition getLastPath :: "smash \<Rightarrow> string res" where
  [simp]: "getLastPath s = (if snd (last_path s) then Inr (fst (last_path s)) else Inl (UB Uninit_read))"

definition getCurrentForegroundJob :: "smash \<Rightarrow> nat option" where
  [simp]: "getCurrentForegroundJob s = current_foreground_job s"

definition setCurrentForegroundJob :: "nat option \<Rightarrow> smash \<Rightarrow> smash" where
  [simp]: "setCurrentForegroundJob current_job s = s\<lparr>current_foreground_job := current_job\<rparr>"

datatype sig = CtrlZ | CtrlC

datatype ftype = REG | DIR | CHRDEV | BLK | FIFO | LNK | SOCK | OTHER

text \<open>
  The system during one command: the children that \<open>waitpid(-1)\<close> reports, the results of the
  other calls, the signals that arrive while the shell waits, the address the next \<open>new\<close> returns
  given the objects there are, and for an erased list node whether the job read through its
  dangling iterator has the largest id.
\<close>

record senv =
  reaped :: "int list"
  dangling :: "nat \<Rightarrow> bool"
  fork_1 :: int
  fork_2 :: int
  pipe_ret :: int
  wait_ret :: int
  sigs :: "sig list"
  kill_ret :: "int \<Rightarrow> int \<Rightarrow> int"
  new_at :: "(nat \<rightharpoonup> JobEntry) \<Rightarrow> nat"
  clock :: int
  getcwd_ret :: "string option"
  chdir_ret :: int
  nprocs :: int
  affinity_ret :: int
  lstat_ret :: "(ftype \<times> int) option"
  chmod_ret :: int
  strerr :: string
  big_double :: "int \<Rightarrow> string"

definition say :: "event \<Rightarrow> smash \<Rightarrow> smash" where
  "say ev s = s\<lparr>log := log s @ [ev]\<rparr>"

definition perror :: "senv \<Rightarrow> string \<Rightarrow> smash \<Rightarrow> smash" where
  "perror e msg s = say (Err (msg @ '': '' @ strerr e @ [LF])) s"

definition job_at :: "smash \<Rightarrow> nat \<Rightarrow> JobEntry res" where
  "job_at s a = deref (heap s) (Some a)"

definition setJobStatus :: "nat \<Rightarrow> Status \<Rightarrow> smash \<Rightarrow> smash res" where
  "setJobStatus a st s = rbind (job_at s a) (\<lambda>j. Inr (s\<lparr>heap := (heap s)(a \<mapsto> j\<lparr>jobStatus := st\<rparr>)\<rparr>))"

section \<open>The jobs list\<close>

text \<open>\<open>new JobEntry(...)\<close>\<close>

definition new_JobEntry :: "senv \<Rightarrow> int \<Rightarrow> int \<Rightarrow> Status \<Rightarrow> string \<Rightarrow> smash \<Rightarrow> nat \<times> smash" where
  "new_JobEntry e i pid st line s =
     (let a = new_at e (heap s) in
      (a, s\<lparr>heap := (heap s)(a \<mapsto> \<lparr>jobId = i, jobProcessId = pid, jobStatus = st, job_cmd_line = line, entryTime = clock e\<rparr>)\<rparr>))"

text \<open>The first pointer of the list whose job satisfies a test, reading every job on the way.\<close>

fun find_job :: "(JobEntry \<Rightarrow> bool) \<Rightarrow> smash \<Rightarrow> nat list \<Rightarrow> nat option res" where
  "find_job P s [] = Inr None"
| "find_job P s (a # as) = rbind (job_at s a) (\<lambda>j. if P j then Inr (Some a) else find_job P s as)"

definition getJobById :: "int \<Rightarrow> smash \<Rightarrow> nat option res" where
  "getJobById i s = find_job (\<lambda>j. jobId j = i) s (jobsList s)"

definition addJob :: "senv \<Rightarrow> int \<Rightarrow> Status \<Rightarrow> string \<Rightarrow> smash \<Rightarrow> (nat \<times> smash) res" where
  "addJob e pid st line s =
     (case maxJobID s of None \<Rightarrow> Inl (UB Uninit_read)
      | Some m \<Rightarrow> rbind (int_inc m) (\<lambda>i.
          let (a, s1) = new_JobEntry e i pid st line s in
          Inr (a, s1\<lparr>maxJobID := Some i, jobsList := jobsList s1 @ [a]\<rparr>)))"

definition addJob_entry :: "nat \<Rightarrow> smash \<Rightarrow> smash res" where
  "addJob_entry a s =
     rbind (job_at s a) (\<lambda>j.
     rbind (getJobById (jobId j) s) (\<lambda>r.
     Inr (if r = None then s\<lparr>jobsList := jobsList s @ [a]\<rparr> else s)))"

text \<open>
  The two removals. After \<open>erase\<close> the code reads the job through the iterator of the erased node;
  what it finds there is up to the allocator.
\<close>

definition erase_job :: "senv \<Rightarrow> nat \<Rightarrow> smash \<Rightarrow> smash res" where
  "erase_job e a s =
     (case maxJobID s of None \<Rightarrow> Inl (UB Uninit_read)
      | Some m \<Rightarrow> Inr (s\<lparr>jobsList := remove1 a (jobsList s), maxJobID := Some (if dangling e a then m - 1 else m)\<rparr>))"

definition removeJobById :: "senv \<Rightarrow> int \<Rightarrow> smash \<Rightarrow> smash res" where
  "removeJobById e i s =
     rbind (find_job (\<lambda>j. jobId j = i) s (jobsList s)) (\<lambda>r.
     case r of None \<Rightarrow> Inr s | Some a \<Rightarrow> erase_job e a s)"

definition removeJobByPid :: "senv \<Rightarrow> int \<Rightarrow> smash \<Rightarrow> smash res" where
  "removeJobByPid e pid s =
     rbind (find_job (\<lambda>j. jobProcessId j = pid) s (jobsList s)) (\<lambda>r.
     case r of None \<Rightarrow> Inr s | Some a \<Rightarrow> erase_job e a s)"

fun reap :: "senv \<Rightarrow> int list \<Rightarrow> smash \<Rightarrow> smash res" where
  "reap e [] s = Inr s"
| "reap e (p # ps) s = (if p > 0 then rbind (removeJobByPid e p s) (reap e ps) else Inr s)"

text \<open>
  The second loop of \<open>removeFinishedJobs\<close>: the pointers that stay and the largest id among them.
  It steps back after every \<open>erase\<close>, also from the first node, which the circular lists of the
  library turn into a step to their end and back.
\<close>

fun sweep :: "smash \<Rightarrow> nat list \<Rightarrow> int \<Rightarrow> (nat list \<times> int) res" where
  "sweep s [] max_id = Inr ([], max_id)"
| "sweep s (a # as) max_id =
     rbind (job_at s a) (\<lambda>j.
     if jobStatus j = Finished then sweep s as max_id
     else rbind (sweep s as (if max_id < jobId j then jobId j else max_id)) (\<lambda>(as', k). Inr (a # as', k)))"

definition removeFinishedJobs :: "senv \<Rightarrow> smash \<Rightarrow> smash res" where
  "removeFinishedJobs e s =
     rbind (reap e (reaped e) s) (\<lambda>s1.
     rbind (sweep s1 (jobsList s1) 0) (\<lambda>(as, k).
     Inr (s1\<lparr>jobsList := as, maxJobID := Some k\<rparr>)))"

text \<open>
  \<open>isProcessRunning\<close> takes what \<open>waitpid\<close> returned and the status it stored, if any; the status has the
  layout of Linux. It is read before the failure of \<open>waitpid\<close> is looked at.
\<close>

definition WTERMSIG :: "int \<Rightarrow> int" where "WTERMSIG status = status mod 128"
definition WIFEXITED :: "int \<Rightarrow> bool" where "WIFEXITED status \<longleftrightarrow> WTERMSIG status = 0"
definition WIFSIGNALED :: "int \<Rightarrow> bool" where "WIFSIGNALED status \<longleftrightarrow> 0 < WTERMSIG status \<and> WTERMSIG status < 127"

definition isProcessRunning :: "(int \<Rightarrow> int \<times> int option) \<Rightarrow> int \<Rightarrow> bool res" where
  "isProcessRunning waitpid pid =
     (let (result, status) = waitpid pid in
      if result = 0 then Inr True
      else case status of None \<Rightarrow> Inl (UB Uninit_read)
      | Some st \<Rightarrow>
          if WIFEXITED st then Inr False
          else if WIFSIGNALED st \<and> WTERMSIG st \<noteq> 0 then Inr False
          else if result = -1 then Inr False
          else Inr False)"

definition getNumberOfJobs :: "smash \<Rightarrow> nat" where
  "getNumberOfJobs s = length (jobsList s)"

definition getMaxJobID :: "smash \<Rightarrow> int res" where
  "getMaxJobID s = (case maxJobID s of None \<Rightarrow> Inl (UB Uninit_read) | Some m \<Rightarrow> Inr m)"

fun max_stopped :: "smash \<Rightarrow> nat list \<Rightarrow> int \<Rightarrow> int res" where
  "max_stopped s [] k = Inr k"
| "max_stopped s (a # as) k =
     rbind (job_at s a) (\<lambda>j. max_stopped s as (if jobStatus j = Stopped \<and> jobId j > k then jobId j else k))"

definition getMaxStoppedJobID :: "smash \<Rightarrow> int res" where
  "getMaxStoppedJobID s = max_stopped s (jobsList s) 0"

text \<open>A \<open>double\<close> that holds a whole number, printed with six digits.\<close>

definition show_secs :: "senv \<Rightarrow> int \<Rightarrow> string" where
  "show_secs e n = (if - 1000000 < n \<and> n < 1000000 then show_int n else big_double e n)"

fun print_jobs :: "senv \<Rightarrow> nat list \<Rightarrow> smash \<Rightarrow> smash res" where
  "print_jobs e [] s = Inr s"
| "print_jobs e (a # as) s =
     rbind (job_at s a) (\<lambda>j.
     print_jobs e as (say (Out (''['' @ show_int (jobId j) @ ''] '' @ job_cmd_line j @ '' : '' @ show_int (jobProcessId j) @
       '' '' @ show_secs e (clock e - entryTime j) @ '' secs'' @ (if jobStatus j = Stopped then '' (stopped)'' else []) @ [LF])) s))"

text \<open>\<open>list<JobEntry*>::sort\<close> compares the pointers.\<close>

definition printJobsList :: "senv \<Rightarrow> smash \<Rightarrow> smash res" where
  "printJobsList e s = (let s1 = s\<lparr>jobsList := sort (jobsList s)\<rparr> in print_jobs e (jobsList s1) s1)"

fun kill_jobs :: "nat list \<Rightarrow> smash \<Rightarrow> smash res" where
  "kill_jobs [] s = Inr s"
| "kill_jobs (a # as) s =
     rbind (job_at s a) (\<lambda>j.
     kill_jobs as (say (Signal (jobProcessId j) 9) (say (Out (show_int (jobProcessId j) @ '': '' @ job_cmd_line j @ [LF])) s)))"

definition killAllJobs :: "smash \<Rightarrow> smash res" where
  "killAllJobs s = kill_jobs (jobsList s) s"

section \<open>Signals\<close>

definition ctrlZHandler :: "senv \<Rightarrow> smash \<Rightarrow> smash res" where
  "ctrlZHandler e s =
     (let s0 = say (Out (''smash: got ctrl-Z'' @ [LF])) s in
      case getCurrentForegroundJob s of None \<Rightarrow> Inr s0
      | Some a \<Rightarrow>
          rbind (setJobStatus a Stopped s0) (\<lambda>s1.
          rbind (job_at s1 a) (\<lambda>j.
          let pid = jobProcessId j;
              s2 = say (Signal pid 19) s1;
              s3 = (if kill_ret e pid 19 < 0 then perror e ''smash error: kill failed'' s2 else s2) in
          rbind (if jobId j = -1
                 then rbind (addJob e pid Stopped (job_cmd_line j) s3) (\<lambda>(b, s4). addJob_entry b s4)
                 else addJob_entry a s3) (\<lambda>s5.
          Inr (say (Out (''smash: process '' @ show_int pid @ '' was stopped'' @ [LF])) s5)))))"

definition ctrlCHandler :: "senv \<Rightarrow> smash \<Rightarrow> smash res" where
  "ctrlCHandler e s =
     (let s0 = say (Out (''smash: got ctrl-C'' @ [LF])) s in
      case getCurrentForegroundJob s of None \<Rightarrow> Inr s0
      | Some a \<Rightarrow>
          rbind (setJobStatus a Finished s0) (\<lambda>s1.
          rbind (job_at s1 a) (\<lambda>j.
          let pid = jobProcessId j;
              s2 = say (Signal pid 9) s1;
              s3 = (if kill_ret e pid 9 < 0 then perror e ''smash error: kill failed'' s2 else s2) in
          Inr (say (Out (''smash: process '' @ show_int pid @ '' was killed'' @ [LF])) s3))))"

definition handle :: "senv \<Rightarrow> sig \<Rightarrow> smash \<Rightarrow> smash res" where
  "handle e g = (case g of CtrlZ \<Rightarrow> ctrlZHandler e | CtrlC \<Rightarrow> ctrlCHandler e)"

text \<open>The handlers that run while the shell is in \<open>waitpid\<close>.\<close>

fun handle_all :: "senv \<Rightarrow> sig list \<Rightarrow> smash \<Rightarrow> smash res" where
  "handle_all e [] s = Inr s"
| "handle_all e (g # gs) s = rbind (handle e g s) (handle_all e gs)"

text \<open>\<open>setCurrentForegroundJob(job); waitpid(pid, NULL, WUNTRACED); setCurrentForegroundJob(nullptr)\<close>\<close>

definition wait_foreground :: "senv \<Rightarrow> bool \<Rightarrow> nat \<Rightarrow> smash \<Rightarrow> smash res" where
  "wait_foreground e checked a s =
     rbind (handle_all e (sigs e) (setCurrentForegroundJob (Some a) s)) (\<lambda>s1.
     Inr (setCurrentForegroundJob None (if checked \<and> wait_ret e < 0 then perror e ''smash error: wait failed'' s1 else s1)))"

section \<open>Arguments\<close>

text \<open>
  \<open>argv[i]\<close>: the pointer behind the last argument is NULL, the later ones are not set. Without
  arguments no pointer is set at all.
\<close>

definition arg :: "command \<Rightarrow> nat \<Rightarrow> string option res" where
  "arg c i = (if i < argc c then Inr (Some (argv c ! i))
     else if i = argc c \<and> 0 < argc c then Inr None else Inl (UB Uninit_read))"

text \<open>An argument that is used as a string.\<close>

definition str_arg :: "command \<Rightarrow> nat \<Rightarrow> string res" where
  "str_arg c i = rbind (arg c i) (\<lambda>r. case r of None \<Rightarrow> Inl (UB Null_deref) | Some w \<Rightarrow> Inr w)"

datatype exn = Invalid_argument | Out_of_range

definition stoi :: "nat \<Rightarrow> string \<Rightarrow> exn + int" where
  "stoi base str =
     (let s = dropWhile isspace str;
          neg = (s \<noteq> [] \<and> hd s = CHR ''-'');
          ds = takeWhile (\<lambda>c. isdigit c \<and> digit_val c < base) (if s \<noteq> [] \<and> hd s \<in> set ''+-'' then tl s else s);
          v = int (foldl (\<lambda>a c. base * a + digit_val c) 0 ds);
          r = (if neg then - v else v) in
      if ds = [] then Inl Invalid_argument
      else if - (2 ^ 31) \<le> r \<and> r < 2 ^ 31 then Inr r else Inl Out_of_range)"

text \<open>An exception nobody catches ends the process.\<close>

definition terminate :: "smash \<Rightarrow> smash" where
  "terminate s = (say (Err (''terminate called'' @ [LF])) s)\<lparr>halted := Some 134\<rparr>"

definition err :: "string \<Rightarrow> smash \<Rightarrow> smash res" where
  "err msg s = Inr (say (Err (''smash error: '' @ msg @ [LF])) s)"

section \<open>Built-in commands\<close>

definition ChangePrompt_execute :: "command \<Rightarrow> smash \<Rightarrow> smash res" where
  "ChangePrompt_execute c s =
     (if argc c = 1 then Inr (changePrompt ''smash'' s)
      else rbind (str_arg c 1) (\<lambda>w. Inr (changePrompt w s)))"

definition ShowPid_execute :: "smash \<Rightarrow> smash res" where
  "ShowPid_execute s = Inr (say (Out (''smash pid is '' @ show_int (getPid s) @ [LF])) s)"

text \<open>\<open>getcwd\<close> into an array of 101 characters.\<close>

definition getcwd :: "senv \<Rightarrow> string option" where
  "getcwd e = (case getcwd_ret e of None \<Rightarrow> None | Some p \<Rightarrow> if length p < PATH_MAX_LENGHT then Some p else None)"

definition GetCurrDir_execute :: "senv \<Rightarrow> smash \<Rightarrow> smash res" where
  "GetCurrDir_execute e s =
     (case getcwd e of None \<Rightarrow> Inr (perror e ''smash error: getcwd failed'' s)
      | Some p \<Rightarrow> Inr (say (Out (p @ [LF])) s))"

text \<open>\<open>strncpy\<close> of 100 characters sets no zero byte behind a text of 100.\<close>

definition remember_path :: "string \<Rightarrow> smash \<Rightarrow> smash" where
  "remember_path p s = TurnTrueLastPath (s\<lparr>last_path := (take (PATH_MAX_LENGHT - 1) p, length p < PATH_MAX_LENGHT - 1)\<rparr>)"

definition change_to :: "senv \<Rightarrow> string res \<Rightarrow> smash \<Rightarrow> smash res" where
  "change_to e target s =
     (case getcwd e of None \<Rightarrow> Inr (perror e ''smash error: getcwd failed'' s)
      | Some new_path \<Rightarrow> rbind target (\<lambda>t.
          if chdir_ret e \<noteq> 0 then Inr (perror e ''smash error: chdir failed'' s)
          else Inr (remember_path new_path (say (Chdir t) s))))"

definition ChangeDir_execute :: "senv \<Rightarrow> command \<Rightarrow> smash \<Rightarrow> smash res" where
  "ChangeDir_execute e c s =
     (if argc c > 2 then err ''cd: too many arguments'' s
      else rbind (str_arg c 1) (\<lambda>w.
        if w = ''-'' then
          (if \<not> containsLastPath s then err ''cd: OLDPWD not set'' s
           else change_to e (getLastPath s) s)
        else change_to e (Inr w) s))"

definition Jobs_execute :: "senv \<Rightarrow> smash \<Rightarrow> smash res" where
  "Jobs_execute e s = rbind (removeFinishedJobs e s) (printJobsList e)"

definition Foreground_execute :: "senv \<Rightarrow> command \<Rightarrow> smash \<Rightarrow> smash res" where
  "Foreground_execute e c s0 =
     rbind (removeFinishedJobs e s0) (\<lambda>s.
     if argc c > 2 then err ''fg: invalid arguments'' s
     else if argc c = 1 \<and> getNumberOfJobs s = 0 then err ''fg: jobs list is empty'' s
     else rbind (if argc c = 1 then getMaxJobID s
                 else if argc c = 2 then Inr (atoi (argv c ! 1)) else Inl (UB Uninit_read)) (\<lambda>job_id.
     if argc c = 2 \<and> job_id = 0 then err ''fg: invalid arguments'' s
     else rbind (getJobById job_id s) (\<lambda>r.
     case r of None \<Rightarrow> err (''fg: job-id '' @ show_int job_id @ '' does not exist'') s
     | Some a \<Rightarrow>
         rbind (job_at s a) (\<lambda>j.
         rbind (setJobStatus a Foreground (say (Out (job_cmd_line j @ '' : '' @ show_int (jobProcessId j) @ [LF])) s)) (\<lambda>s1.
         rbind (removeJobById e job_id (say (Signal (jobProcessId j) 18) s1)) (\<lambda>s2.
         wait_foreground e False a s2))))))"

definition Background_execute :: "senv \<Rightarrow> command \<Rightarrow> smash \<Rightarrow> smash res" where
  "Background_execute e c s0 =
     rbind (removeFinishedJobs e s0) (\<lambda>s.
     if argc c > 2 then err ''bg: invalid arguments'' s
     else rbind (if argc c = 1 then getMaxStoppedJobID s
                 else if argc c = 2 then Inr (atoi (argv c ! 1)) else Inl (UB Uninit_read)) (\<lambda>job_id.
     if argc c = 1 \<and> job_id = 0 then err ''bg: there is no stopped jobs to resume'' s
     else if argc c = 2 \<and> job_id = 0 then err ''fg: invalid arguments'' s
     else rbind (getJobById job_id s) (\<lambda>r.
     case r of None \<Rightarrow> err (''bg: job-id '' @ show_int job_id @ '' does not exist'') s
     | Some a \<Rightarrow>
         rbind (job_at s a) (\<lambda>j.
         if jobStatus j = Background
         then err (''bg: job-id '' @ show_int job_id @ '' is already running in the background'') s
         else rbind (setJobStatus a Background (say (Out (job_cmd_line j @ '' : '' @ show_int (jobProcessId j) @ [LF])) s)) (\<lambda>s1.
         Inr (say (Signal (jobProcessId j) 18) s1))))))"

definition Quit_execute :: "senv \<Rightarrow> command \<Rightarrow> smash \<Rightarrow> smash res" where
  "Quit_execute e c s0 =
     rbind (removeFinishedJobs e s0) (\<lambda>s.
     if argc c = 1 then Inr ((say (Signal (getPid s) 9) s)\<lparr>halted := Some 137\<rparr>)
     else rbind (str_arg c 1) (\<lambda>w.
     if w = ''kill'' then
       rbind (killAllJobs (say (Out (''smash: sending SIGKILL signal to '' @ show_int (int (getNumberOfJobs s)) @ '' jobs:'' @ [LF])) s))
         (\<lambda>s1. Inr (s1\<lparr>halted := Some 0\<rparr>))
     else Inr s))"

text \<open>The condition of \<open>kill\<close>, evaluated from the left.\<close>

definition kill_usage :: "command \<Rightarrow> bool res" where
  "kill_usage c =
     rbind (arg c 1) (\<lambda>a1. case a1 of None \<Rightarrow> Inr False | Some w \<Rightarrow>
     rbind (arg c 2) (\<lambda>a2. case a2 of None \<Rightarrow> Inr False | Some _ \<Rightarrow>
     if w = [] \<or> hd w \<noteq> CHR ''-'' then Inr False
     else rbind (arg c 3) (\<lambda>a3. Inr (a3 = None))))"

definition Kill_execute :: "senv \<Rightarrow> command \<Rightarrow> smash \<Rightarrow> smash res" where
  "Kill_execute e c s0 =
     rbind (removeFinishedJobs e s0) (\<lambda>s.
     rbind (kill_usage c) (\<lambda>ok.
     if \<not> ok then err ''kill: invalid arguments'' s
     else let job_id = atoi (argv c ! 2); signal_number = atoi (tl (argv c ! 1)) in
       if job_id = 0 \<or> signal_number = 0 then err ''kill: invalid arguments'' s
       else rbind (getJobById job_id s) (\<lambda>r.
       case r of None \<Rightarrow> err (''kill: job-id '' @ show_int job_id @ '' does not exist'') s
       | Some a \<Rightarrow>
           rbind (job_at s a) (\<lambda>j.
           let pid = jobProcessId j; s1 = say (Signal pid signal_number) s in
           if kill_ret e pid signal_number = -1 then err ''kill: invalid arguments'' s1
           else let s2 = say (Out (''signal number '' @ show_int signal_number @ '' was sent to pid '' @ show_int pid @ [LF])) s1 in
             if signal_number = 9 then setJobStatus a Finished s2
             else if signal_number = 19 then setJobStatus a Stopped s2
             else Inr s2))))"

definition Setcore_execute :: "senv \<Rightarrow> command \<Rightarrow> smash \<Rightarrow> smash res" where
  "Setcore_execute e c s0 =
     rbind (removeFinishedJobs e s0) (\<lambda>s.
     if argc c \<noteq> 3 then err ''setcore: invalid arguments'' s
     else case stoi 10 (argv c ! 1) of
         Inl Invalid_argument \<Rightarrow> err ''setcore: invalid arguments'' s
       | Inl Out_of_range \<Rightarrow> Inr (terminate s)
       | Inr job_id \<Rightarrow>
         (case stoi 10 (argv c ! 2) of
            Inl Invalid_argument \<Rightarrow> err ''setcore: invalid arguments'' s
          | Inl Out_of_range \<Rightarrow> Inr (terminate s)
          | Inr core_num \<Rightarrow>
              if core_num \<ge> nprocs e \<or> core_num < 0 then err ''setcore: invalid core number'' s
              else rbind (getJobById job_id s) (\<lambda>r.
                case r of None \<Rightarrow> err (''setcore: job-id '' @ show_int job_id @ '' does not exist'') s
                | Some a \<Rightarrow> rbind (job_at s a) (\<lambda>j.
                    if affinity_ret e = -1 then Inr (perror e ''smash error: sched_setaffinity failed'' s)
                    else Inr (say (Set_affinity (jobProcessId j) core_num) s)))))"

text \<open>\<open>s.substr(s.find_first_of(" ") + 1, s.size())\<close>; \<open>npos + 1\<close> is 0.\<close>

definition after_blank :: "string \<Rightarrow> string" where
  "after_blank s = (case find_first_of '' '' s of None \<Rightarrow> s | Some i \<Rightarrow> drop (i + 1) s)"

definition type_text :: "ftype \<Rightarrow> string option" where
  "type_text t = (case t of REG \<Rightarrow> Some ''regular file'' | DIR \<Rightarrow> Some ''directory'' | CHRDEV \<Rightarrow> Some ''character device''
     | BLK \<Rightarrow> Some ''block device'' | FIFO \<Rightarrow> Some ''FIFO'' | LNK \<Rightarrow> Some ''symbolic link''
     | SOCK \<Rightarrow> Some ([CHR 0xD7, CHR 0x93] @ ''ocket'') | OTHER \<Rightarrow> None)"

definition GetFileType_execute :: "senv \<Rightarrow> command \<Rightarrow> smash \<Rightarrow> smash res" where
  "GetFileType_execute e c s =
     (if argc c \<noteq> 2 then err ''getfiletype: invalid arguments'' s
      else let second_word = trim (after_blank (trim (cmd_line c))) in
        case lstat_ret e of None \<Rightarrow> Inr (perror e ''smash error: lstat failed'' s)
        | Some (t, n) \<Rightarrow>
            (case type_text t of None \<Rightarrow> Inr s
             | Some txt \<Rightarrow> Inr (say (Out (second_word @ [CHR 0x27] @ ''s type is '' @ [CHR 0x22] @ txt @ [CHR 0x22] @
                 '' and takes up '' @ show_int n @ '' bytes'' @ [LF])) s)))"

text \<open>The first conversion of the mode is outside the \<open>try\<close> block.\<close>

definition Chmod_execute :: "senv \<Rightarrow> command \<Rightarrow> smash \<Rightarrow> smash res" where
  "Chmod_execute e c s =
     (if argc c \<noteq> 3 then err ''chmod: invalid arguments'' s
      else case stoi 8 (argv c ! 1) of
          Inl _ \<Rightarrow> Inr (terminate s)
        | Inr new_mode \<Rightarrow>
            if new_mode < 0 \<or> new_mode > 511 then err ''chmod: invalid arguments'' s
            else if chmod_ret e = -1 then Inr (perror e ''smash error: chmod failed'' s)
            else Inr (say (Set_mode (argv c ! 2) new_mode) s))"

section \<open>Commands that fork\<close>

text \<open>The shell in the child branch of a \<open>fork\<close>: it goes on as the child and ends with it.\<close>

definition become :: "child \<Rightarrow> smash \<Rightarrow> smash" where
  "become ch s = (say (Forked 0 ch) s)\<lparr>halted := Some 0\<rparr>"

text \<open>The parent: a background job enters the list, a foreground job gets an entry of its own with id -1.\<close>

definition launch :: "senv \<Rightarrow> command \<Rightarrow> child \<Rightarrow> smash \<Rightarrow> smash res" where
  "launch e c ch s =
     (let pid = fork_1 e in
      if pid = 0 then Inr (become ch s)
      else if pid < 0 then Inr (perror e ''smash error: fork failed'' s)
      else rbind (put (COMMAND_ARGS_MAX_LENGTH + 1) (cmd_line c)) (\<lambda>copy.
        let s1 = say (Forked pid ch) s in
        if is_background_command c
        then rbind (addJob e pid Background copy s1) (\<lambda>(a, s2). Inr s2)
        else let (a, s2) = new_JobEntry e (-1) pid Foreground copy s1 in wait_foreground e True a s2))"

definition External_execute :: "senv \<Rightarrow> command \<Rightarrow> smash \<Rightarrow> smash res" where
  "External_execute e c s0 =
     rbind (removeFinishedJobs e s0) (\<lambda>s.
     let cmd_s = trim (cmd_line c);
         is_complex = (find_first_of ''*?'' cmd_s \<noteq> None);
         firstWord = up_to [CHR '' '', LF] cmd_s in
     launch e c (if is_complex then Exec_bash (cmd_line c) else Execvp firstWord (argv c)) s)"

text \<open>
  The split at \<open>|\<close> or \<open>>\<close>: the text before it, whether the sign is doubled (or is \<open>|&\<close>), and the
  text behind it. \<open>at\<close> throws when the sign is the last character.
\<close>

definition split_at :: "char \<Rightarrow> char \<Rightarrow> string \<Rightarrow> (string \<times> bool \<times> string) option" where
  "split_at sep twin cmd_s =
     (case find_first_of [sep] cmd_s of None \<Rightarrow> None
      | Some i \<Rightarrow>
          if i + 1 < length cmd_s then
            let d = (cmd_s ! (i + 1) = twin) in
            Some (take i cmd_s, d, trim (drop (i + 1 + (if d then 1 else 0)) cmd_s))
          else None)"

definition Redirection_execute :: "senv \<Rightarrow> command \<Rightarrow> smash \<Rightarrow> smash res" where
  "Redirection_execute e c s0 =
     rbind (removeFinishedJobs e s0) (\<lambda>s.
     case split_at CHR ''>'' CHR ''>'' (trim (cmd_line c)) of
       None \<Rightarrow> Inr (terminate s)
     | Some (command_to_exe, is_append, file_to_write) \<Rightarrow>
         launch e c (Subshell_file is_append file_to_write command_to_exe) s)"

text \<open>
  A failed \<open>pipe\<close> is reported and then ignored; its descriptors are not set. The job of the
  second child enters the list as a foreground job.
\<close>

definition Pipe_execute :: "senv \<Rightarrow> command \<Rightarrow> smash \<Rightarrow> smash res" where
  "Pipe_execute e c s0 =
     rbind (removeFinishedJobs e s0) (\<lambda>s.
     case split_at CHR ''|'' CHR ''&'' (trim (cmd_line c)) of
       None \<Rightarrow> Inr (terminate s)
     | Some (first_command, is_error_pipe, second_command) \<Rightarrow>
         let s1 = (if pipe_ret e < 0 then perror e ''smash error: pipe failed'' s else s) in
         if fork_1 e = 0 then (if pipe_ret e < 0 then Inl (UB Uninit_read) else Inr (become (Subshell_pipe_out is_error_pipe first_command) s1))
         else if fork_1 e < 0 then Inr (perror e ''smash error: fork failed'' s1)
         else let s2 = say (Forked (fork_1 e) (Subshell_pipe_out is_error_pipe first_command)) s1 in
           if fork_2 e = 0 then (if pipe_ret e < 0 then Inl (UB Uninit_read) else Inr (become (Subshell_pipe_in second_command) s2))
           else if fork_2 e < 0 then Inr (perror e ''smash error: fork failed'' s2)
           else if pipe_ret e < 0 then Inl (UB Uninit_read)
           else rbind (put (COMMAND_ARGS_MAX_LENGTH + 1) (cmd_line c)) (\<lambda>copy.
             rbind (addJob e (fork_2 e) Foreground copy (say (Forked (fork_2 e) (Subshell_pipe_in second_command)) s2)) (\<lambda>(a, s3).
             wait_foreground e True a s3)))"

section \<open>The shell\<close>

definition execute :: "command_class \<Rightarrow> senv \<Rightarrow> command \<Rightarrow> smash \<Rightarrow> smash res" where
  "execute k e c = (case k of
     PipeCommand \<Rightarrow> Pipe_execute e c
   | RedirectionCommand \<Rightarrow> Redirection_execute e c
   | SetcoreCommand \<Rightarrow> Setcore_execute e c
   | GetFileTypeCommand \<Rightarrow> GetFileType_execute e c
   | ChmodCommand \<Rightarrow> Chmod_execute e c
   | ChangePrompt \<Rightarrow> ChangePrompt_execute c
   | ShowPidCommand \<Rightarrow> ShowPid_execute
   | GetCurrDirCommand \<Rightarrow> GetCurrDir_execute e
   | ChangeDirCommand \<Rightarrow> ChangeDir_execute e c
   | JobsCommand \<Rightarrow> Jobs_execute e
   | ForegroundCommand \<Rightarrow> Foreground_execute e c
   | BackgroundCommand \<Rightarrow> Background_execute e c
   | QuitCommand \<Rightarrow> Quit_execute e c
   | KillCommand \<Rightarrow> Kill_execute e c
   | ExternalCommand \<Rightarrow> External_execute e c)"

definition executeCommand :: "string \<Rightarrow> senv \<Rightarrow> smash \<Rightarrow> smash res" where
  "executeCommand line e s = rbind (CreateCommand line) (\<lambda>(k, c). execute k e c s)"

text \<open>What reaches the shell: a line, with the system's answers while it is executed, or a signal at the prompt.\<close>

datatype input = Line string senv | Sig sig senv

text \<open>\<open>getline\<close> at the end of the input leaves the line empty, and the loop goes on.\<close>

partial_function (option) main_loop :: "bool \<Rightarrow> input list \<Rightarrow> smash \<Rightarrow> smash comp" where
  "main_loop prompted ins s =
     (let s0 = (if prompted then s else say (Out (getPrompt s @ ''> '')) s) in
      case ins of
        [] \<Rightarrow> main_loop False [] s0
      | Line l e # rest \<Rightarrow>
          (if l = [] then main_loop False rest s0
           else cbind (Some (executeCommand l e s0)) (\<lambda>s1.
             if halted s1 \<noteq> None then Some (Inr s1) else main_loop False rest s1))
      | Sig g e # rest \<Rightarrow> cbind (Some (handle e g s0)) (\<lambda>s1. main_loop True rest s1))"

definition smash_main :: "senv \<Rightarrow> bool \<Rightarrow> bool \<Rightarrow> int \<Rightarrow> input list \<Rightarrow> smash comp" where
  "smash_main e z_ok c_ok pid ins =
     (let s0 = SmallShell_ctor pid;
          s1 = (if z_ok then s0 else perror e ''smash error: failed to set ctrl-Z handler'' s0);
          s2 = (if c_ok then s1 else perror e ''smash error: failed to set ctrl-C handler'' s1) in
      main_loop False ins s2)"

end
