(* ===== verification/SmashInv.thy ===== *)
theory SmashInv
  imports Smash
begin

text \<open>
  The jobs list of the small shell: an invariant that every command and every signal keeps, what
  \<open>removeFinishedJobs\<close> does exactly, and what becomes of foreground jobs.
\<close>

section \<open>Invariant\<close>

definition jid :: "(nat \<rightharpoonup> JobEntry) \<Rightarrow> nat \<Rightarrow> int" where
  "jid h a = jobId (the (h a))"

text \<open>
  The list holds distinct pointers to job entries, with distinct positive ids; \<open>maxJobID\<close> is set
  unless the list is empty.
\<close>

definition jobs_ok :: "(nat \<rightharpoonup> JobEntry) \<Rightarrow> nat list \<Rightarrow> int option \<Rightarrow> bool" where
  "jobs_ok h l m \<longleftrightarrow> finite (dom h) \<and> distinct l \<and> set l \<subseteq> dom h \<and> (\<forall>a \<in> set l. 1 \<le> jid h a) \<and>
     inj_on (jid h) (set l) \<and> (l \<noteq> [] \<longrightarrow> m \<noteq> None)"

definition inv :: "smash \<Rightarrow> bool" where
  "inv s \<longleftrightarrow> jobs_ok (heap s) (jobsList s) (maxJobID s)"

definition calm :: "smash \<Rightarrow> bool" where
  "calm s \<longleftrightarrow> inv s \<and> current_foreground_job s = None"

text \<open>\<open>maxJobID\<close> is at least every id, as it is right after \<open>removeFinishedJobs\<close>.\<close>

definition bounded :: "smash \<Rightarrow> bool" where
  "bounded s \<longleftrightarrow> (\<exists>m. maxJobID s = Some m \<and> 0 \<le> m \<and> (\<forall>a \<in> set (jobsList s). jid (heap s) a \<le> m))"

text \<open>\<open>new\<close> returns an address that is not in use.\<close>

definition new_ok :: "senv \<Rightarrow> bool" where
  "new_ok e \<longleftrightarrow> (\<forall>h. finite (dom h) \<longrightarrow> h (new_at e h) = None)"

lemma say_fields [simp]:
  "heap (say ev s) = heap s" "jobsList (say ev s) = jobsList s" "maxJobID (say ev s) = maxJobID s"
  "current_foreground_job (say ev s) = current_foreground_job s" "halted (say ev s) = halted s"
  "prompt (say ev s) = prompt s" "log (say ev s) = log s @ [ev]"
  by (simp_all add: say_def)

lemma perror_fields [simp]:
  "heap (perror e msg s) = heap s" "jobsList (perror e msg s) = jobsList s" "maxJobID (perror e msg s) = maxJobID s"
  "current_foreground_job (perror e msg s) = current_foreground_job s" "halted (perror e msg s) = halted s"
  by (simp_all add: perror_def)

lemma terminate_fields [simp]:
  "heap (terminate s) = heap s" "jobsList (terminate s) = jobsList s" "maxJobID (terminate s) = maxJobID s"
  "current_foreground_job (terminate s) = current_foreground_job s"
  by (simp_all add: terminate_def)

lemma become_fields [simp]:
  "heap (become ch s) = heap s" "jobsList (become ch s) = jobsList s" "maxJobID (become ch s) = maxJobID s"
  "current_foreground_job (become ch s) = current_foreground_job s"
  by (simp_all add: become_def)

lemma remember_fields [simp]:
  "heap (remember_path p s) = heap s" "jobsList (remember_path p s) = jobsList s" "maxJobID (remember_path p s) = maxJobID s"
  "current_foreground_job (remember_path p s) = current_foreground_job s"
  by (simp_all add: remember_path_def)

text \<open>States with the same jobs.\<close>

definition same_jobs :: "smash \<Rightarrow> smash \<Rightarrow> bool" where
  "same_jobs s s' \<longleftrightarrow> heap s' = heap s \<and> jobsList s' = jobsList s \<and> maxJobID s' = maxJobID s \<and>
     current_foreground_job s' = current_foreground_job s"

lemma same_jobs_calm: "same_jobs s s' \<Longrightarrow> calm s \<Longrightarrow> calm s'"
  by (simp add: same_jobs_def calm_def inv_def)

lemma err_same: "err msg s = Inr s' \<Longrightarrow> same_jobs s s'"
  by (auto simp: err_def same_jobs_def)

section \<open>Searching\<close>

lemma find_job_eq: "set l \<subseteq> dom (heap s) \<Longrightarrow> find_job P s l = Inr (find (\<lambda>a. P (the (heap s a))) l)"
  by (induction l) (auto simp: job_at_def deref_def split: option.splits)

lemma inv_mapped: "inv s \<Longrightarrow> set (jobsList s) \<subseteq> dom (heap s)"
  by (simp add: inv_def jobs_ok_def)

lemma getJobById_eq: "inv s \<Longrightarrow> getJobById i s = Inr (find (\<lambda>a. jid (heap s) a = i) (jobsList s))"
  by (simp add: getJobById_def find_job_eq inv_mapped jid_def)

lemma in_set_remove1D: "x \<in> set (remove1 a l) \<Longrightarrow> x \<in> set l"
  using set_remove1_subset [of a l] by blast

lemma find_in: "find P l = Some a \<Longrightarrow> a \<in> set l \<and> P a"
  by (auto simp: find_Some_iff)

lemma job_at_list: "inv s \<Longrightarrow> a \<in> set (jobsList s) \<Longrightarrow> \<exists>j. job_at s a = Inr j \<and> heap s a = Some j \<and> 1 \<le> jobId j"
  using inv_mapped [of s] by (fastforce simp: job_at_def deref_def inv_def jobs_ok_def jid_def)

lemma jid_upd_other: "jobId j' = jobId (the (h a)) \<Longrightarrow> h a \<noteq> None \<Longrightarrow> jid (h(a \<mapsto> j')) = jid h"
  by (auto simp: jid_def fun_eq_iff)

lemma jobs_ok_upd:
  "jobs_ok h l m \<Longrightarrow> h a = Some j \<Longrightarrow> jobId j' = jobId j \<Longrightarrow> jobs_ok (h(a \<mapsto> j')) l m"
  using jid_upd_other [of j' h a] by (auto simp: jobs_ok_def)

lemma setJobStatus_eq: "heap s a = Some j \<Longrightarrow> setJobStatus a st s = Inr (s\<lparr>heap := (heap s)(a \<mapsto> j\<lparr>jobStatus := st\<rparr>)\<rparr>)"
  by (simp add: setJobStatus_def job_at_def)

lemma setJobStatus_inv: "inv s \<Longrightarrow> setJobStatus a st s = Inr s' \<Longrightarrow> inv s'"
  by (auto simp: setJobStatus_def result_simps job_at_def deref_def inv_def jobs_ok_upd split: option.splits)

section \<open>Removal\<close>

lemma jobs_ok_subset:
  assumes "jobs_ok h l m" and "distinct l'" and "set l' \<subseteq> set l" and "l' \<noteq> [] \<Longrightarrow> m' \<noteq> None"
  shows "jobs_ok h l' m'"
  using assms inj_on_subset [of "jid h" "set l" "set l'"] by (auto simp: jobs_ok_def)

lemma erase_job_eq:
  assumes "inv s" and "a \<in> set (jobsList s)"
  shows "\<exists>m. erase_job e a s = Inr (s\<lparr>jobsList := remove1 a (jobsList s), maxJobID := Some m\<rparr>)"
proof -
  have "maxJobID s \<noteq> None" using assms by (auto simp: inv_def jobs_ok_def)
  then show ?thesis by (auto simp: erase_job_def)
qed

lemma erase_inv: "inv s \<Longrightarrow> inv (s\<lparr>jobsList := remove1 a (jobsList s), maxJobID := Some m\<rparr>)"
  unfolding inv_def by (rule jobs_ok_subset) (auto simp: jobs_ok_def distinct_remove1 dest: in_set_remove1D)

definition jpid :: "(nat \<rightharpoonup> JobEntry) \<Rightarrow> nat \<Rightarrow> int" where
  "jpid h a = jobProcessId (the (h a))"

text \<open>Dropping the first job of a process.\<close>

definition drop_pid :: "(nat \<rightharpoonup> JobEntry) \<Rightarrow> int \<Rightarrow> nat list \<Rightarrow> nat list" where
  "drop_pid h p l = (case find (\<lambda>a. jpid h a = p) l of None \<Rightarrow> l | Some a \<Rightarrow> remove1 a l)"

lemma drop_pid_sub: "set (drop_pid h p l) \<subseteq> set l"
  by (auto simp: drop_pid_def split: option.splits dest: in_set_remove1D)

lemma drop_pids_sub: "set (fold (drop_pid h) ps l) \<subseteq> set l"
  by (induction ps arbitrary: l) (use drop_pid_sub in \<open>force+\<close>)

lemma removeJobByPid_eq:
  assumes "inv s"
  shows "\<exists>m. removeJobByPid e p s = Inr (s\<lparr>jobsList := drop_pid (heap s) p (jobsList s), maxJobID := m\<rparr>) \<and>
    inv (s\<lparr>jobsList := drop_pid (heap s) p (jobsList s), maxJobID := m\<rparr>)"
proof -
  have f: "find_job (\<lambda>j. jobProcessId j = p) s (jobsList s) = Inr (find (\<lambda>a. jpid (heap s) a = p) (jobsList s))"
    using assms by (simp add: find_job_eq inv_mapped jpid_def)
  show ?thesis
  proof (cases "find (\<lambda>a. jpid (heap s) a = p) (jobsList s)")
    case None
    then show ?thesis using f assms by (intro exI [of _ "maxJobID s"]) (simp add: removeJobByPid_def drop_pid_def)
  next
    case (Some a)
    then have "a \<in> set (jobsList s)" by (simp add: find_in)
    then obtain m where "erase_job e a s = Inr (s\<lparr>jobsList := remove1 a (jobsList s), maxJobID := Some m\<rparr>)"
      using erase_job_eq [OF assms, of a e] by blast
    then show ?thesis using f Some erase_inv [OF assms, where a = a and m = m]
      by (intro exI [of _ "Some m"]) (simp add: removeJobByPid_def drop_pid_def)
  qed
qed

text \<open>The processes that are reported before \<open>waitpid\<close> returns 0 or an error.\<close>

definition reported :: "senv \<Rightarrow> int list" where
  "reported e = takeWhile (\<lambda>p. p > 0) (reaped e)"

lemma reap_eq:
  "inv s \<Longrightarrow> \<exists>m. reap e ps s = Inr (s\<lparr>jobsList := fold (drop_pid (heap s)) (takeWhile (\<lambda>p. p > 0) ps) (jobsList s), maxJobID := m\<rparr>) \<and>
     inv (s\<lparr>jobsList := fold (drop_pid (heap s)) (takeWhile (\<lambda>p. p > 0) ps) (jobsList s), maxJobID := m\<rparr>)"
proof (induction ps arbitrary: s)
  case Nil
  then show ?case by (intro exI [of _ "maxJobID s"]) simp
next
  case (Cons p ps)
  show ?case
  proof (cases "p > 0")
    case False
    then show ?thesis using Cons.prems by (intro exI [of _ "maxJobID s"]) simp
  next
    case True
    obtain m where m: "removeJobByPid e p s = Inr (s\<lparr>jobsList := drop_pid (heap s) p (jobsList s), maxJobID := m\<rparr>)"
      "inv (s\<lparr>jobsList := drop_pid (heap s) p (jobsList s), maxJobID := m\<rparr>)"
      using removeJobByPid_eq [OF Cons.prems] by blast
    from Cons.IH [OF m(2)] show ?thesis using m(1) True by auto
  qed
qed

definition unfinished :: "(nat \<rightharpoonup> JobEntry) \<Rightarrow> nat \<Rightarrow> bool" where
  "unfinished h a \<longleftrightarrow> jobStatus (the (h a)) \<noteq> Finished"

lemma sweep_eq:
  "set l \<subseteq> dom (heap s) \<Longrightarrow>
     sweep s l k = Inr (filter (unfinished (heap s)) l, fold max (map (jid (heap s)) (filter (unfinished (heap s)) l)) k)"
proof (induction l arbitrary: k)
  case (Cons a l)
  then obtain j where j: "heap s a = Some j" by auto
  have "(if k < jobId j then jobId j else k) = max (jid (heap s) a) k" using j by (simp add: jid_def)
  then show ?case using Cons j by (auto simp: job_at_def unfinished_def jid_def)
qed simp

lemma removeFinishedJobs_eq:
  assumes "inv s"
  shows "removeFinishedJobs e s = Inr (s\<lparr>
    jobsList := filter (unfinished (heap s)) (fold (drop_pid (heap s)) (reported e) (jobsList s)),
    maxJobID := Some (fold max (map (jid (heap s)) (filter (unfinished (heap s)) (fold (drop_pid (heap s)) (reported e) (jobsList s)))) 0)\<rparr>)"
proof -
  let ?l = "fold (drop_pid (heap s)) (reported e) (jobsList s)"
  obtain m where m: "reap e (reaped e) s = Inr (s\<lparr>jobsList := ?l, maxJobID := m\<rparr>)" "inv (s\<lparr>jobsList := ?l, maxJobID := m\<rparr>)"
    using reap_eq [OF assms, of e "reaped e"] by (auto simp: reported_def)
  have "set ?l \<subseteq> dom (heap (s\<lparr>jobsList := ?l, maxJobID := m\<rparr>))" using inv_mapped [OF m(2)] by simp
  from sweep_eq [OF this, of 0] m(1) show ?thesis by (simp add: removeFinishedJobs_def)
qed

lemma fold_max: "(k::int) \<le> fold max xs k \<and> (\<forall>x \<in> set xs. x \<le> fold max xs k)"
  by (induction xs arbitrary: k) (auto, (meson max.bounded_iff order_trans)+)

lemma removeFinishedJobs_inv:
  assumes "inv s"
  shows "\<exists>s'. removeFinishedJobs e s = Inr s' \<and> inv s' \<and> bounded s' \<and> heap s' = heap s \<and>
    set (jobsList s') \<subseteq> set (jobsList s) \<and> current_foreground_job s' = current_foreground_job s \<and> prompt s' = prompt s \<and> halted s' = halted s"
proof -
  let ?l = "fold (drop_pid (heap s)) (reported e) (jobsList s)"
  let ?f = "filter (unfinished (heap s)) ?l"
  obtain m where m: "inv (s\<lparr>jobsList := ?l, maxJobID := m\<rparr>)" using reap_eq [OF assms, of e "reaped e"] by (auto simp: reported_def)
  have sub: "set ?l \<subseteq> set (jobsList s)"
    by (rule drop_pids_sub)
  have ok: "jobs_ok (heap s) ?l m" using m by (simp add: inv_def)
  then have "distinct ?f" by (simp add: jobs_ok_def)
  with ok have "jobs_ok (heap s) ?f (Some (fold max (map (jid (heap s)) ?f) 0))"
    by (rule jobs_ok_subset) auto
  then show ?thesis using removeFinishedJobs_eq [OF assms, of e] sub fold_max [of 0 "map (jid (heap s)) ?f"]
    by (auto simp: inv_def bounded_def)
qed

section \<open>Adding jobs\<close>

lemma new_fresh: "new_ok e \<Longrightarrow> inv s \<Longrightarrow> heap s (new_at e (heap s)) = None"
  by (simp add: new_ok_def inv_def jobs_ok_def)

lemma jid_new: "h a = None \<Longrightarrow> b \<in> dom h \<Longrightarrow> jid (h(a \<mapsto> j)) b = jid h b"
  by (auto simp: jid_def)

lemma jid_new_list: "h a = None \<Longrightarrow> set l \<subseteq> dom h \<Longrightarrow> b \<in> set l \<Longrightarrow> jid (h(a \<mapsto> j)) b = jid h b"
  by (simp add: jid_new subsetD)

lemma jobs_ok_new:
  assumes "jobs_ok h l m" and "h a = None"
  shows "jobs_ok (h(a \<mapsto> j)) l m"
proof -
  have l: "set l \<subseteq> dom h" using assms(1) by (simp add: jobs_ok_def)
  have "inj_on (jid (h(a \<mapsto> j))) (set l) \<longleftrightarrow> inj_on (jid h) (set l)"
    by (intro inj_on_cong) (rule jid_new_list [OF assms(2) l])
  moreover have "(\<forall>b \<in> set l. 1 \<le> jid (h(a \<mapsto> j)) b) \<longleftrightarrow> (\<forall>b \<in> set l. 1 \<le> jid h b)"
    by (intro ball_cong refl) (simp add: jid_new_list [OF assms(2) l])
  ultimately show ?thesis using assms by (auto simp: jobs_ok_def)
qed

lemma jobs_ok_append:
  assumes "jobs_ok h l m" and "h a = Some j" and "1 \<le> jobId j" and "\<forall>b \<in> set l. jid h b \<noteq> jobId j"
  shows "jobs_ok h (l @ [a]) (Some k)"
proof -
  have a: "jid h a = jobId j" using assms(2) by (simp add: jid_def)
  then have "a \<notin> set l" using assms(4) by auto
  then show ?thesis using assms a by (auto simp: jobs_ok_def)
qed

text \<open>A new job: its entry at a fresh address, at the end of the list, with the id after the largest one.\<close>

definition with_job :: "senv \<Rightarrow> int \<Rightarrow> int \<Rightarrow> Status \<Rightarrow> string \<Rightarrow> smash \<Rightarrow> smash" where
  "with_job e i pid st line s = s\<lparr>
     heap := (heap s)(new_at e (heap s) \<mapsto> \<lparr>jobId = i, jobProcessId = pid, jobStatus = st, job_cmd_line = line, entryTime = clock e\<rparr>),
     jobsList := jobsList s @ [new_at e (heap s)], maxJobID := Some i\<rparr>"

lemma addJob_eq:
  "maxJobID s = Some m \<Longrightarrow> addJob e pid st line s =
     rbind (int_inc m) (\<lambda>i. Inr (new_at e (heap s), with_job e i pid st line s))"
  by (cases "int_inc m") (simp_all add: addJob_def new_JobEntry_def with_job_def Let_def)

lemma with_job_inv:
  assumes "inv s" and "new_ok e" and "bounded s" and "maxJobID s = Some m"
  shows "inv (with_job e (m + 1) pid st line s)" and "bounded (with_job e (m + 1) pid st line s)"
proof -
  let ?a = "new_at e (heap s)"
  let ?j = "\<lparr>jobId = m + 1, jobProcessId = pid, jobStatus = st, job_cmd_line = line, entryTime = clock e\<rparr>"
  let ?h = "(heap s)(?a \<mapsto> ?j)"
  have fresh: "heap s ?a = None" using assms by (simp add: new_fresh)
  have m: "0 \<le> m" "\<forall>b \<in> set (jobsList s). jid (heap s) b \<le> m" using assms(3,4) by (auto simp: bounded_def)
  have l: "set (jobsList s) \<subseteq> dom (heap s)" using assms(1) by (rule inv_mapped)
  have b: "\<forall>b \<in> set (jobsList s). jid ?h b \<le> m" using m(2) by (simp add: jid_new_list [OF fresh l])
  have "jobs_ok ?h (jobsList s) (maxJobID s)" using assms(1) fresh by (simp add: inv_def jobs_ok_new)
  then show "inv (with_job e (m + 1) pid st line s)"
    using m(1) b jobs_ok_append [of ?h "jobsList s" "maxJobID s" ?a ?j "m + 1"] by (fastforce simp: inv_def with_job_def)
  show "bounded (with_job e (m + 1) pid st line s)"
    using m(1) b by (fastforce simp: bounded_def with_job_def jid_def)
qed

lemma int_inc_Inr: "int_inc m = Inr i \<Longrightarrow> i = m + 1"
  by (auto simp: int_inc_def split: if_splits)

section \<open>Signals\<close>

text \<open>
  A job runs in the foreground: either it has been in the list, or its id is -1 and the next id
  is free.
\<close>

definition fgok :: "nat \<Rightarrow> smash \<Rightarrow> bool" where
  "fgok a s \<longleftrightarrow> inv s \<and> maxJobID s \<noteq> None \<and> current_foreground_job s = Some a \<and>
     (\<exists>j. heap s a = Some j \<and> (1 \<le> jobId j \<or> (jobId j = -1 \<and> bounded s)))"

lemma say_inv [simp]: "inv (say ev s) = inv s" "bounded (say ev s) = bounded s" "fgok a (say ev s) = fgok a s"
  by (simp_all add: inv_def bounded_def fgok_def)

lemma perror_inv [simp]:
  "inv (perror e msg s) = inv s" "bounded (perror e msg s) = bounded s" "fgok a (perror e msg s) = fgok a s"
  by (simp_all add: perror_def)

lemma setJobStatus_fgok:
  assumes "fgok a s"
  shows "\<exists>j. heap s a = Some j \<and> setJobStatus a st s = Inr (s\<lparr>heap := (heap s)(a \<mapsto> j\<lparr>jobStatus := st\<rparr>)\<rparr>) \<and>
    fgok a (s\<lparr>heap := (heap s)(a \<mapsto> j\<lparr>jobStatus := st\<rparr>)\<rparr>)"
proof -
  obtain j where j: "heap s a = Some j" "1 \<le> jobId j \<or> (jobId j = -1 \<and> bounded s)" using assms by (auto simp: fgok_def)
  have "jid ((heap s)(a \<mapsto> j\<lparr>jobStatus := st\<rparr>)) = jid (heap s)" using j(1) by (simp add: jid_upd_other)
  moreover have "jobs_ok ((heap s)(a \<mapsto> j\<lparr>jobStatus := st\<rparr>)) (jobsList s) (maxJobID s)"
    using assms j(1) by (simp add: fgok_def inv_def jobs_ok_upd)
  ultimately have "fgok a (s\<lparr>heap := (heap s)(a \<mapsto> j\<lparr>jobStatus := st\<rparr>)\<rparr>)"
    using assms j by (simp add: fgok_def inv_def bounded_def)
  then show ?thesis using j(1) setJobStatus_eq by blast
qed

lemma addJob_entry_absent:
  assumes "inv s" and "heap s a = Some j" and "\<forall>b \<in> set (jobsList s). jid (heap s) b \<noteq> jobId j"
  shows "addJob_entry a s = Inr (s\<lparr>jobsList := jobsList s @ [a]\<rparr>)"
proof -
  have "find (\<lambda>b. jid (heap s) b = jobId j) (jobsList s) = None" using assms(3) by (simp add: find_None_iff)
  then show ?thesis using assms(1,2) by (simp add: addJob_entry_def job_at_def getJobById_eq)
qed

lemma addJob_entry_present:
  assumes "inv s" and "heap s a = Some j" and "b \<in> set (jobsList s)" and "jid (heap s) b = jobId j"
  shows "addJob_entry a s = Inr s"
proof -
  have "find (\<lambda>b. jid (heap s) b = jobId j) (jobsList s) \<noteq> None" using assms(3,4) by (auto simp: find_None_iff)
  then show ?thesis using assms(1,2) by (simp add: addJob_entry_def job_at_def getJobById_eq)
qed

lemma addJob_entry_fgok:
  assumes "fgok a s" and "heap s a = Some j" and "1 \<le> jobId j"
  shows "\<exists>s'. addJob_entry a s = Inr s' \<and> fgok a s'"
proof (cases "\<exists>b \<in> set (jobsList s). jid (heap s) b = jobId j")
  case True
  then show ?thesis using assms addJob_entry_present [of s a j] by (auto simp: fgok_def)
next
  case False
  then have none: "\<forall>b \<in> set (jobsList s). jid (heap s) b \<noteq> jobId j" by blast
  obtain k where k: "maxJobID s = Some k" using assms(1) by (auto simp: fgok_def)
  have "jobs_ok (heap s) (jobsList s @ [a]) (Some k)"
    using assms none by (intro jobs_ok_append [of _ _ "maxJobID s" _ j]) (simp_all add: fgok_def inv_def)
  then have "fgok a (s\<lparr>jobsList := jobsList s @ [a]\<rparr>)" using assms k by (simp add: fgok_def inv_def)
  then show ?thesis using assms none addJob_entry_absent [of s a j] by (auto simp: fgok_def)
qed

lemma with_job_fgok:
  assumes "fgok a s" and "new_ok e" and "heap s a = Some j" and "jobId j = -1" and "maxJobID s = Some m"
  shows "fgok a (with_job e (m + 1) pid st line s)"
    and "addJob_entry (new_at e (heap s)) (with_job e (m + 1) pid st line s) = Inr (with_job e (m + 1) pid st line s)"
proof -
  have i: "inv s" "bounded s" using assms by (auto simp: fgok_def)
  note w = with_job_inv [OF i(1) assms(2) i(2) assms(5), of pid st line]
  have "new_at e (heap s) \<noteq> a" using new_fresh [OF assms(2) i(1)] assms(3) by auto
  then show "fgok a (with_job e (m + 1) pid st line s)" using assms w unfolding fgok_def by (simp add: with_job_def)
  show "addJob_entry (new_at e (heap s)) (with_job e (m + 1) pid st line s) = Inr (with_job e (m + 1) pid st line s)"
    by (rule addJob_entry_present [OF w(1), of _ _ "new_at e (heap s)"]) (auto simp: with_job_def jid_def)
qed

text \<open>The state after a signal has been sent to the foreground job.\<close>

definition signalled :: "senv \<Rightarrow> int \<Rightarrow> int \<Rightarrow> smash \<Rightarrow> smash" where
  "signalled e pid sg s =
     (if kill_ret e pid sg < 0 then perror e ''smash error: kill failed'' (say (Signal pid sg) s) else say (Signal pid sg) s)"

lemma signalled_fields [simp]:
  "heap (signalled e pid sg s) = heap s" "jobsList (signalled e pid sg s) = jobsList s"
  "maxJobID (signalled e pid sg s) = maxJobID s" "current_foreground_job (signalled e pid sg s) = current_foreground_job s"
  "fgok a (signalled e pid sg s) = fgok a s"
  by (simp_all add: signalled_def)

lemma ctrlZHandler_eq:
  "current_foreground_job s = Some a \<Longrightarrow> heap s a = Some j \<Longrightarrow>
   ctrlZHandler e s =
     (let s3 = signalled e (jobProcessId j) 19 (say (Out (''smash: got ctrl-Z'' @ [LF])) s\<lparr>heap := (heap s)(a \<mapsto> j\<lparr>jobStatus := Stopped\<rparr>)\<rparr>) in
      rbind (if jobId j = -1
             then rbind (addJob e (jobProcessId j) Stopped (job_cmd_line j) s3) (\<lambda>(b, s4). addJob_entry b s4)
             else addJob_entry a s3) (\<lambda>s5.
      Inr (say (Out (''smash: process '' @ show_int (jobProcessId j) @ '' was stopped'' @ [LF])) s5)))"
  by (simp add: ctrlZHandler_def signalled_def setJobStatus_eq job_at_def Let_def)

lemma ctrlZHandler_fgok:
  assumes "fgok a s" and "new_ok e" and "ctrlZHandler e s = Inr s'"
  shows "fgok a s'"
proof -
  have f: "fgok a (say (Out (''smash: got ctrl-Z'' @ [LF])) s)" using assms(1) by simp
  from setJobStatus_fgok [OF f, of Stopped] obtain j s1 where j: "heap s a = Some j"
    "s1 = say (Out (''smash: got ctrl-Z'' @ [LF])) s\<lparr>heap := (heap s)(a \<mapsto> j\<lparr>jobStatus := Stopped\<rparr>)\<rparr>" "fgok a s1" by auto
  have cur: "current_foreground_job s = Some a" using assms(1) by (simp add: fgok_def)
  define s3 where "s3 = signalled e (jobProcessId j) 19 s1"
  have f3: "fgok a s3" "heap s3 a = Some (j\<lparr>jobStatus := Stopped\<rparr>)" using j by (simp_all add: s3_def)
  obtain m where m: "maxJobID s3 = Some m" using f3(1) by (auto simp: fgok_def)
  note eq = assms(3) [unfolded ctrlZHandler_eq [OF cur j(1)], folded j(2), folded s3_def, unfolded Let_def, folded s3_def]
  show ?thesis
  proof (cases "jobId j = -1")
    case True
    then have id: "jobId (j\<lparr>jobStatus := Stopped\<rparr>) = -1" by simp
    then show ?thesis
      using eq True m int_inc_Inr [of m] with_job_fgok [OF f3(1) assms(2) f3(2) id m, of "jobProcessId j" Stopped "job_cmd_line j"]
      by (auto simp: addJob_eq result_simps)
  next
    case False
    then have "1 \<le> jobId (j\<lparr>jobStatus := Stopped\<rparr>)" using f3 by (auto simp: fgok_def)
    from addJob_entry_fgok [OF f3 this] obtain s5 where "addJob_entry a s3 = Inr s5" "fgok a s5" by blast
    then show ?thesis using eq False by auto
  qed
qed

lemma ctrlCHandler_fgok:
  assumes "fgok a s"
  shows "\<exists>s'. ctrlCHandler e s = Inr s' \<and> fgok a s'"
proof -
  have f: "fgok a (say (Out (''smash: got ctrl-C'' @ [LF])) s)" using assms by simp
  from setJobStatus_fgok [OF f, of Finished] show ?thesis using assms
    by (auto simp: ctrlCHandler_def Let_def job_at_def fgok_def [of a s])
qed

lemma handle_fgok: "fgok a s \<Longrightarrow> new_ok e \<Longrightarrow> handle e g s = Inr s' \<Longrightarrow> fgok a s'"
  using ctrlZHandler_fgok ctrlCHandler_fgok [of a s e] by (cases g) (auto simp: handle_def)

lemma handle_all_fgok: "fgok a s \<Longrightarrow> new_ok e \<Longrightarrow> handle_all e gs s = Inr s' \<Longrightarrow> fgok a s'"
  by (induction gs arbitrary: s) (auto simp: result_simps dest: handle_fgok)

lemma wait_foreground_calm:
  assumes "fgok a (s\<lparr>current_foreground_job := Some a\<rparr>)" and "new_ok e" and "wait_foreground e ch a s = Inr s'"
  shows "calm s'"
proof -
  obtain s1 where "handle_all e (sigs e) (s\<lparr>current_foreground_job := Some a\<rparr>) = Inr s1"
    "s' = (if ch \<and> wait_ret e < 0 then perror e ''smash error: wait failed'' s1 else s1)\<lparr>current_foreground_job := None\<rparr>"
    using assms(3) by (auto simp: wait_foreground_def result_simps)
  moreover then have "inv s1" using handle_all_fgok [OF assms(1,2)] by (auto simp: fgok_def)
  ultimately show ?thesis by (simp add: calm_def inv_def)
qed

section \<open>Commands\<close>

definition ready :: "smash \<Rightarrow> bool" where
  "ready s \<longleftrightarrow> calm s \<and> bounded s"

lemma removeFinishedJobs_ready:
  assumes "rbind (removeFinishedJobs e s0) k = Inr s'" and "calm s0"
  obtains s where "ready s" and "k s = Inr s'"
proof -
  obtain s where "removeFinishedJobs e s0 = Inr s" "inv s" "bounded s" "current_foreground_job s = None"
    using removeFinishedJobs_inv [of s0 e] assms(2) by (auto simp: calm_def)
  then show thesis using assms(1) by (intro that [of s]) (auto simp: ready_def calm_def)
qed

lemma calm_fields [simp]:
  "calm (say ev s) = calm s" "calm (perror e msg s) = calm s" "calm (terminate s) = calm s" "calm (become ch s) = calm s"
  "calm (remember_path p s) = calm s" "calm (s\<lparr>halted := x\<rparr>) = calm s" "calm (s\<lparr>prompt := w\<rparr>) = calm s"
  "calm (s\<lparr>hasLastPath := b\<rparr>) = calm s"
  by (simp_all add: calm_def inv_def)

lemma err_calm: "err msg s = Inr s' \<Longrightarrow> calm s \<Longrightarrow> calm s'"
  by (auto simp: err_def)

lemma setJobStatus_calm: "setJobStatus a st s = Inr s' \<Longrightarrow> calm s \<Longrightarrow> calm s'"
  using setJobStatus_inv [of s a st s'] by (auto simp: calm_def setJobStatus_def result_simps)

lemma print_jobs_calm: "print_jobs e l s = Inr s' \<Longrightarrow> calm s \<Longrightarrow> calm s'"
  by (induction l arbitrary: s) (auto simp: result_simps)

lemma kill_jobs_calm: "kill_jobs l s = Inr s' \<Longrightarrow> calm s \<Longrightarrow> calm s'"
  by (induction l arbitrary: s) (auto simp: result_simps)

lemma Jobs_calm: "calm s \<Longrightarrow> Jobs_execute e s = Inr s' \<Longrightarrow> calm s'"
  unfolding Jobs_execute_def
proof (erule removeFinishedJobs_ready, assumption)
  fix t
  assume t: "ready t" and r: "printJobsList e t = Inr s'"
  have "calm (t\<lparr>jobsList := sort (jobsList t)\<rparr>)" using t by (auto simp: ready_def calm_def inv_def jobs_ok_def bounded_def)
  then show "calm s'" using r by (auto simp: printJobsList_def Let_def intro: print_jobs_calm)
qed

lemma removeJobById_eq:
  assumes "inv s" and "getJobById i s = Inr (Some a)"
  shows "\<exists>m. removeJobById e i s = Inr (s\<lparr>jobsList := remove1 a (jobsList s), maxJobID := Some m\<rparr>)"
proof -
  have "a \<in> set (jobsList s)" using assms by (auto simp: getJobById_eq find_in)
  from erase_job_eq [OF assms(1) this, of e] show ?thesis using assms(2) by (auto simp: removeJobById_def getJobById_def)
qed

lemma getJobById_status:
  assumes "inv s" and "getJobById i s = Inr r" and "heap s a = Some j"
  shows "getJobById i (s\<lparr>heap := (heap s)(a \<mapsto> j\<lparr>jobStatus := st\<rparr>)\<rparr>) = Inr r"
proof -
  have "jid ((heap s)(a \<mapsto> j\<lparr>jobStatus := st\<rparr>)) = jid (heap s)" using assms(3) by (simp add: jid_upd_other)
  moreover have "inv (s\<lparr>heap := (heap s)(a \<mapsto> j\<lparr>jobStatus := st\<rparr>)\<rparr>)" using assms by (simp add: inv_def jobs_ok_upd)
  ultimately show ?thesis using assms(1,2) by (simp add: getJobById_eq)
qed

lemma getJobById_say [simp]: "getJobById i (say ev s) = getJobById i s"
proof -
  have "find_job P (say ev s) l = find_job P s l" for P l by (induction l) (simp_all add: job_at_def cong del: if_weak_cong)
  then show ?thesis by (simp add: getJobById_def)
qed

text \<open>The foreground command up to the wait.\<close>

lemma fg_takes_job:
  assumes "inv s" and "getJobById i s = Inr (Some a)"
  obtains j m where "heap s a = Some j" and "jobId j = i" and "1 \<le> i"
    and "setJobStatus a st (say ev s) = Inr (say ev s\<lparr>heap := (heap s)(a \<mapsto> j\<lparr>jobStatus := st\<rparr>)\<rparr>)"
    and "removeJobById e i (say ev' (say ev s\<lparr>heap := (heap s)(a \<mapsto> j\<lparr>jobStatus := st\<rparr>)\<rparr>)) =
      Inr (say ev' (say ev s\<lparr>heap := (heap s)(a \<mapsto> j\<lparr>jobStatus := st\<rparr>)\<rparr>)\<lparr>jobsList := remove1 a (jobsList s), maxJobID := Some m\<rparr>)"
    and "inv (say ev' (say ev s\<lparr>heap := (heap s)(a \<mapsto> j\<lparr>jobStatus := st\<rparr>)\<rparr>)\<lparr>jobsList := remove1 a (jobsList s), maxJobID := Some m\<rparr>)"
proof -
  have a: "a \<in> set (jobsList s)" "jid (heap s) a = i" using assms by (auto simp: getJobById_eq dest: find_in)
  obtain j where j: "heap s a = Some j" "1 \<le> jobId j" using job_at_list [OF assms(1) a(1)] by blast
  let ?t = "say ev' (say ev s\<lparr>heap := (heap s)(a \<mapsto> j\<lparr>jobStatus := st\<rparr>)\<rparr>)"
  have t: "inv ?t" using assms(1) j(1) by (simp add: inv_def jobs_ok_upd)
  have "getJobById i (say ev s\<lparr>heap := (heap (say ev s))(a \<mapsto> j\<lparr>jobStatus := st\<rparr>)\<rparr>) = Inr (Some a)"
    using assms j(1) by (intro getJobById_status) simp_all
  then have "getJobById i ?t = Inr (Some a)" by simp
  from removeJobById_eq [OF t this] obtain m where "removeJobById e i ?t = Inr (?t\<lparr>jobsList := remove1 a (jobsList ?t), maxJobID := Some m\<rparr>)" by blast
  then show thesis using j a erase_inv [OF t, where a = a and m = m] by (intro that [of j m]) (auto simp: jid_def setJobStatus_eq)
qed

lemma Foreground_calm:
  assumes "calm s0" and "new_ok e" and "Foreground_execute e c s0 = Inr s'"
  shows "calm s'"
proof -
  from assms(3) [unfolded Foreground_execute_def] assms(1) obtain s where s: "ready s" and
    r: "(if argc c > 2 then err ''fg: invalid arguments'' s
     else if argc c = 1 \<and> getNumberOfJobs s = 0 then err ''fg: jobs list is empty'' s
     else rbind (if argc c = 1 then getMaxJobID s
                 else if argc c = 2 then Inr (atoi (argv c ! 1)) else Inl (UB Uninit_read)) (\<lambda>job_id.
     if argc c = 2 \<and> job_id = 0 then err ''fg: invalid arguments'' s
     else rbind (getJobById job_id s) (\<lambda>r.
     case r of None \<Rightarrow> err (''fg: job-id '' @ show_int job_id @ '' does not exist'') s
     | Some a \<Rightarrow>
         rbind (job_at s a) (\<lambda>j.
         rbind (setJobStatus a Foreground (say (Out (job_cmd_line j @ '' : '' @ show_int (jobProcessId j) @ [LF])) s)) (\<lambda>s1.
         rbind (removeJobById e job_id (say (Signal (jobProcessId j) 18) s1)) (\<lambda>s2.
         wait_foreground e False a s2)))))) = Inr s'"
    by (rule removeFinishedJobs_ready)
  have c: "calm s" "inv s" using s by (simp_all add: ready_def calm_def)
  consider (err) msg where "err msg s = Inr s'"
    | (run) a i j s1 s2 where "getJobById i s = Inr (Some a)" "job_at s a = Inr j"
      "setJobStatus a Foreground (say (Out (job_cmd_line j @ '' : '' @ show_int (jobProcessId j) @ [LF])) s) = Inr s1"
      "removeJobById e i (say (Signal (jobProcessId j) 18) s1) = Inr s2" "wait_foreground e False a s2 = Inr s'"
    using r by (auto simp: result_simps split: if_splits option.splits)
  then show ?thesis
  proof cases
    case err
    then show ?thesis using c(1) by (rule err_calm)
  next
    case run
    have "fgok a (s2\<lparr>current_foreground_job := Some a\<rparr>)"
      by (rule fg_takes_job [OF c(2) run(1), of Foreground "Out (job_cmd_line j @ '' : '' @ show_int (jobProcessId j) @ [LF])" e "Signal (jobProcessId j) 18"])
        (use run(3,4) in \<open>auto simp: fgok_def inv_def\<close>)
    then show ?thesis using assms(2) run(5) by (rule wait_foreground_calm)
  qed
qed

lemma Background_calm: "calm s0 \<Longrightarrow> Background_execute e c s0 = Inr s' \<Longrightarrow> calm s'"
  unfolding Background_execute_def
  by (erule removeFinishedJobs_ready, assumption)
    (auto simp: ready_def result_simps split: if_splits option.splits elim!: err_calm setJobStatus_calm)

lemma Quit_calm: "calm s0 \<Longrightarrow> Quit_execute e c s0 = Inr s' \<Longrightarrow> calm s'"
  unfolding Quit_execute_def
  by (erule removeFinishedJobs_ready, assumption)
    (auto simp: ready_def result_simps killAllJobs_def split: if_splits option.splits dest: kill_jobs_calm)

lemma Kill_calm: "calm s0 \<Longrightarrow> Kill_execute e c s0 = Inr s' \<Longrightarrow> calm s'"
  unfolding Kill_execute_def
  by (erule removeFinishedJobs_ready, assumption)
    (auto simp: ready_def result_simps Let_def split: if_splits option.splits elim!: err_calm setJobStatus_calm)

lemma Setcore_calm: "calm s0 \<Longrightarrow> Setcore_execute e c s0 = Inr s' \<Longrightarrow> calm s'"
  unfolding Setcore_execute_def
  by (erule removeFinishedJobs_ready, assumption)
    (auto simp: ready_def result_simps split: if_splits option.splits sum.splits exn.splits intro: err_calm)

lemma change_to_calm: "change_to e t s = Inr s' \<Longrightarrow> calm s \<Longrightarrow> calm s'"
  by (auto simp: change_to_def result_simps split: if_splits option.splits)

lemma ChangeDir_calm: "calm s \<Longrightarrow> ChangeDir_execute e c s = Inr s' \<Longrightarrow> calm s'"
  by (auto simp: ChangeDir_execute_def result_simps split: if_splits intro: err_calm change_to_calm)

lemma plain_calm:
  "calm s \<Longrightarrow> ChangePrompt_execute c s = Inr s' \<Longrightarrow> calm s'"
  "calm s \<Longrightarrow> ShowPid_execute s = Inr s' \<Longrightarrow> calm s'"
  "calm s \<Longrightarrow> GetCurrDir_execute e s = Inr s' \<Longrightarrow> calm s'"
  "calm s \<Longrightarrow> GetFileType_execute e c s = Inr s' \<Longrightarrow> calm s'"
  "calm s \<Longrightarrow> Chmod_execute e c s = Inr s' \<Longrightarrow> calm s'"
  by (auto simp: ChangePrompt_execute_def ShowPid_execute_def GetCurrDir_execute_def GetFileType_execute_def
      Chmod_execute_def Let_def result_simps split: if_splits option.splits sum.splits intro: err_calm)

lemma ready_say [simp]: "ready (say ev s) = ready s" "ready (perror e msg s) = ready s"
  by (simp_all add: ready_def)

lemma ready_calm: "ready s \<Longrightarrow> calm s"
  by (simp add: ready_def)

lemma ready_max: "ready s \<Longrightarrow> \<exists>m. maxJobID s = Some m"
  by (auto simp: ready_def bounded_def)

lemma addJob_ready:
  assumes "ready s" and "new_ok e" and "addJob e pid st line s = Inr (a, s')"
  shows "ready s'" and "a \<in> set (jobsList s')"
proof -
  obtain m where m: "maxJobID s = Some m" using ready_max [OF assms(1)] by blast
  have s': "a = new_at e (heap s)" "s' = with_job e (m + 1) pid st line s"
    using assms(3) m int_inc_Inr [of m] by (auto simp: addJob_eq result_simps)
  then show "ready s'" using assms m with_job_inv [of s e m pid st line] by (simp add: ready_def calm_def with_job_def)
  show "a \<in> set (jobsList s')" using s' by (simp add: with_job_def)
qed

lemma ready_fgok:
  assumes "ready s" and "a \<in> set (jobsList s)"
  shows "fgok a (s\<lparr>current_foreground_job := Some a\<rparr>)"
  using assms job_at_list [of s a] ready_max [OF assms(1)] by (auto simp: fgok_def ready_def calm_def inv_def)

lemma new_entry_fgok:
  assumes "ready s" and "new_ok e" and "new_JobEntry e (-1) pid st line s = (a, s')"
  shows "fgok a (s'\<lparr>current_foreground_job := Some a\<rparr>)"
proof -
  have i: "inv s" "bounded s" using assms(1) by (simp_all add: ready_def calm_def)
  have fresh: "heap s (new_at e (heap s)) = None" using assms(2) i(1) by (rule new_fresh)
  have s': "a = new_at e (heap s)" "s' = s\<lparr>heap := (heap s)(a \<mapsto> \<lparr>jobId = -1, jobProcessId = pid, jobStatus = st, job_cmd_line = line, entryTime = clock e\<rparr>)\<rparr>"
    using assms(3) by (auto simp: new_JobEntry_def Let_def)
  have "inv s'" using i(1) fresh s' by (simp add: inv_def jobs_ok_new)
  moreover have "bounded s'"
    using i(2) jid_new_list [OF fresh inv_mapped [OF i(1)]] s' by (simp add: bounded_def)
  ultimately show ?thesis using s' ready_max [OF assms(1)] by (auto simp: fgok_def inv_def bounded_def)
qed

lemma launch_calm:
  assumes "ready s" and "new_ok e" and "launch e c ch s = Inr s'"
  shows "calm s'"
proof -
  consider "calm s'" | (bg) a copy where "addJob e (fork_1 e) Background copy (say (Forked (fork_1 e) ch) s) = Inr (a, s')"
    | (fg) a copy s2 where "new_JobEntry e (-1) (fork_1 e) Foreground copy (say (Forked (fork_1 e) ch) s) = (a, s2)"
      "wait_foreground e True a s2 = Inr s'"
    using assms by (auto simp: launch_def Let_def result_simps ready_def split: if_splits prod.splits)
  then show ?thesis
  proof cases
    case bg
    have "ready (say (Forked (fork_1 e) ch) s)" using assms(1) by simp
    from addJob_ready(1) [OF this assms(2) bg] show ?thesis by (rule ready_calm)
  next
    case fg
    have "ready (say (Forked (fork_1 e) ch) s)" using assms(1) by simp
    from new_entry_fgok [OF this assms(2) fg(1)] assms(2) fg(2) show ?thesis by (rule wait_foreground_calm)
  qed
qed

lemma External_calm: "calm s0 \<Longrightarrow> new_ok e \<Longrightarrow> External_execute e c s0 = Inr s' \<Longrightarrow> calm s'"
  unfolding External_execute_def
  by (erule removeFinishedJobs_ready, assumption) (auto simp: Let_def intro: launch_calm)

lemma Redirection_calm: "calm s0 \<Longrightarrow> new_ok e \<Longrightarrow> Redirection_execute e c s0 = Inr s' \<Longrightarrow> calm s'"
  unfolding Redirection_execute_def
  by (erule removeFinishedJobs_ready, assumption) (auto split: option.splits dest: ready_calm intro: launch_calm)

lemma Pipe_calm: "calm s0 \<Longrightarrow> new_ok e \<Longrightarrow> Pipe_execute e c s0 = Inr s' \<Longrightarrow> calm s'"
  unfolding Pipe_execute_def
proof (erule removeFinishedJobs_ready, assumption)
  fix s
  assume n: "new_ok e" and s: "ready s" and r: "(case split_at CHR ''|'' CHR ''&'' (trim (cmd_line c)) of
       None \<Rightarrow> Inr (terminate s)
     | Some (first_command, is_error_pipe, second_command) \<Rightarrow>
         let s1 = (if pipe_ret e < 0 then perror e ''smash error: pipe failed'' s else s) in
         if fork_1 e = 0 then (if pipe_ret e < 0 then Inl (UB Uninit_read) else Inr (become (Subshell_pipe_out is_error_pipe first_command) s1))
         else if fork_1 e < 0 then Inr (perror e ''smash error: fork failed'' s1)
         else let s2 = say (Forked (fork_1 e) (Subshell_pipe_out is_error_pipe first_command)) s1 in
           if fork_2 e = 0 then (if pipe_ret e < 0 then Inl (UB Uninit_read) else Inr (become (Subshell_pipe_in second_command) s2))
           else if fork_2 e < 0 then Inr (perror e ''smash error: fork failed'' s2)
           else if pipe_ret e < 0 then Inl (UB Uninit_read)
           else rbind (put (COMMAND_ARGS_MAX_LENGTH + 1) (cmd_line c)) (\<lambda>copy.
             rbind (addJob e (fork_2 e) Foreground copy (say (Forked (fork_2 e) (Subshell_pipe_in second_command)) s2)) (\<lambda>(a, s3).
             wait_foreground e True a s3))) = Inr s'"
  have c: "calm s" using s by (simp add: ready_def)
  consider "calm s'" | (run) ev ev' copy a s3 where "addJob e (fork_2 e) Foreground copy (say ev' (say ev s)) = Inr (a, s3)"
      "wait_foreground e True a s3 = Inr s'"
    using r c by (auto simp: Let_def result_simps split: option.splits if_splits prod.splits)
  then show "calm s'"
  proof cases
    case run
    have "ready (say ev' (say ev s))" using s by simp
    note a = addJob_ready [OF this n run(1)]
    show ?thesis using ready_fgok [OF a] n run(2) by (rule wait_foreground_calm)
  qed
qed

lemma execute_calm: "calm s \<Longrightarrow> new_ok e \<Longrightarrow> execute k e c s = Inr s' \<Longrightarrow> calm s'"
  by (cases k) (auto simp: execute_def intro: Pipe_calm Redirection_calm Setcore_calm plain_calm ChangeDir_calm
      Jobs_calm Foreground_calm Background_calm Quit_calm Kill_calm External_calm)

lemma executeCommand_calm: "calm s \<Longrightarrow> new_ok e \<Longrightarrow> executeCommand line e s = Inr s' \<Longrightarrow> calm s'"
  by (auto simp: executeCommand_def result_simps intro: execute_calm)

lemma handle_idle: "current_foreground_job s = None \<Longrightarrow> \<exists>ev. handle e g s = Inr (say ev s)"
  by (cases g) (auto simp: handle_def ctrlZHandler_def ctrlCHandler_def Let_def)

end
