(* ===== verification/SmashRun.thy ===== *)
theory SmashRun
  imports SmashInv
begin

text \<open>
  Runs of the small shell: the jobs list over any sequence of lines and signals, what becomes of
  background, foreground and piped jobs, and when the main loop ends.
\<close>

section \<open>Reachable states\<close>

inductive reach :: "int \<Rightarrow> smash \<Rightarrow> bool" for pid where
  start: "reach pid (SmallShell_ctor pid)"
| line: "reach pid s \<Longrightarrow> halted s = None \<Longrightarrow> new_ok e \<Longrightarrow>
    executeCommand l e (say (Out (prompt s @ ''> '')) s) = Inr s' \<Longrightarrow> reach pid s'"
| signal: "reach pid s \<Longrightarrow> halted s = None \<Longrightarrow> handle e g s = Inr s' \<Longrightarrow> reach pid s'"

inductive_cases reach_cases: "reach pid s"

text \<open>
  Claim C13. In every state the shell reaches by executing lines and by signals at the prompt, the jobs
  list holds distinct pointers to job entries that exist, with distinct ids that are at least 1,
  and no job is in the foreground.
\<close>

theorem reach_calm: "reach pid s \<Longrightarrow> calm s"
proof (induction rule: reach.induct)
  case start
  then show ?case by (simp add: calm_def inv_def jobs_ok_def SmallShell_ctor_def)
next
  case (line s e l s')
  then show ?case using executeCommand_calm [of "say (Out (prompt s @ ''> '')) s" e l s'] by simp
next
  case (signal s e g s')
  then show ?case using handle_idle [of s e g] by (auto simp: calm_def)
qed

section \<open>Asking for a process\<close>

text \<open>
  \<open>isProcessRunning\<close> answers whether \<open>waitpid\<close> returned 0, through whichever of its branches; but when
  \<open>waitpid\<close> fails it first looks at a status that nothing has stored.
\<close>

lemma isProcessRunning_answer: "waitpid pid = (r, Some st) \<Longrightarrow> isProcessRunning waitpid pid = Inr (r = 0)"
  by (simp add: isProcessRunning_def)

lemma isProcessRunning_unset: "waitpid pid = (-1, None) \<Longrightarrow> isProcessRunning waitpid pid = Inl (UB Uninit_read)"
  by (simp add: isProcessRunning_def)

section \<open>Starting jobs\<close>

lemma removed_ready:
  assumes "calm s" and "removeFinishedJobs e s = Inr t"
  shows "ready t"
  using removeFinishedJobs_inv [of s e] assms by (auto simp: ready_def calm_def)

lemma External_launch:
  "removeFinishedJobs e s = Inr t \<Longrightarrow> \<exists>ch. External_execute e c s = launch e c ch t"
  by (auto simp: External_execute_def Let_def)

lemma launch_background:
  assumes "is_background_command c" and "0 < fork_1 e" and "length (cmd_line c) \<le> COMMAND_ARGS_MAX_LENGTH"
    and "maxJobID t = Some m" and "m < 2 ^ 31 - 1"
  shows "launch e c ch t = Inr (with_job e (m + 1) (fork_1 e) Background (cmd_line c) (say (Forked (fork_1 e) ch) t))"
  using assms by (simp add: launch_def Let_def put_def addJob_eq int_inc_def less_Suc_eq_le)

text \<open>
  A background command puts exactly one job into the list: behind the jobs that are left
  after the removal of the finished ones, at a new address, with the id after the largest id in
  use, the process of the child, its command line and the time.
\<close>

theorem background_job_added:
  assumes "calm s" and "new_ok e" and "removeFinishedJobs e s = Inr t" and "maxJobID t = Some m" and "m < 2 ^ 31 - 1"
    and "is_background_command c" and "0 < fork_1 e" and "length (cmd_line c) \<le> COMMAND_ARGS_MAX_LENGTH"
  shows "\<exists>s' a. External_execute e c s = Inr s' \<and> jobsList s' = jobsList t @ [a] \<and> maxJobID s' = Some (m + 1) \<and>
    heap t a = None \<and> (\<forall>b \<in> set (jobsList t). jid (heap t) b \<le> m) \<and>
    heap s' = (heap t)(a \<mapsto> \<lparr>jobId = m + 1, jobProcessId = fork_1 e, jobStatus = Background, job_cmd_line = cmd_line c, entryTime = clock e\<rparr>)"
proof -
  have t: "inv t" "bounded t" using removed_ready [OF assms(1,3)] by (simp_all add: ready_def calm_def)
  obtain ch where ch: "External_execute e c s = launch e c ch t" using External_launch [OF assms(3)] by blast
  show ?thesis using launch_background [OF assms(6-8,4,5), of ch] t ch new_fresh [OF assms(2) t(1)] assms(4)
    by (intro exI [of _ "with_job e (m + 1) (fork_1 e) Background (cmd_line c) (say (Forked (fork_1 e) ch) t)"]
        exI [of _ "new_at e (heap t)"]) (auto simp: with_job_def bounded_def)
qed

section \<open>Stopping the foreground job\<close>

lemma wait_ctrlZ:
  assumes "sigs e = [CtrlZ]" and "ctrlZHandler e (s\<lparr>current_foreground_job := Some a\<rparr>) = Inr s1"
  shows "\<exists>s'. wait_foreground e ch a s = Inr s' \<and> heap s' = heap s1 \<and> jobsList s' = jobsList s1 \<and>
    maxJobID s' = maxJobID s1 \<and> current_foreground_job s' = None"
  using assms by (simp add: wait_foreground_def handle_def)



section \<open>Pipes\<close>

lemma drop_pids_keep: "a \<in> set l \<Longrightarrow> jpid h a \<notin> set ps \<Longrightarrow> a \<in> set (fold (drop_pid h) ps l)"
proof (induction ps arbitrary: l)
  case (Cons p ps)
  have "a \<noteq> b" if "find (\<lambda>a. jpid h a = p) l = Some b" for b using find_in [OF that] Cons.prems(2) by auto
  then have "a \<in> set (drop_pid h p l)" using Cons.prems(1) by (auto simp: drop_pid_def in_set_remove1 split: option.splits)
  then show ?case using Cons by simp
qed simp

text \<open>
  The job of a pipe does not leave the list by itself: when the shell has waited for a pipe
  to the end, the job is still in the list, as a foreground job, and it stays there at every
  later \<open>removeFinishedJobs\<close>, because \<open>waitpid\<close> never again reports a process it has reported.
\<close>

theorem pipe_job_stays:
  assumes "calm s" and "new_ok e" and "removeFinishedJobs e s = Inr t" and "maxJobID t = Some m" and "m < 2 ^ 31 - 1"
    and "split_at CHR ''|'' CHR ''&'' (trim (cmd_line c)) = Some (l, err_pipe, r)"
    and "0 \<le> pipe_ret e" and "0 < fork_1 e" and "0 < fork_2 e" and "length (cmd_line c) \<le> COMMAND_ARGS_MAX_LENGTH" and "sigs e = []"
  shows "\<exists>s' a j. Pipe_execute e c s = Inr s' \<and> a \<in> set (jobsList s') \<and> heap s' a = Some j \<and> jobProcessId j = fork_2 e \<and>
    jobStatus j = Foreground \<and>
    (\<forall>e'. fork_2 e \<notin> set (reaped e') \<longrightarrow> (\<exists>s''. removeFinishedJobs e' s' = Inr s'' \<and> a \<in> set (jobsList s'')))"
proof -
  have t: "ready t" using removed_ready [OF assms(1,3)] .
  have rep: "p \<notin> set (reaped x) \<Longrightarrow> p \<notin> set (reported x)" for p x by (auto simp: reported_def dest: set_takeWhileD)
  let ?t = "say (Forked (fork_2 e) (Subshell_pipe_in r)) (say (Forked (fork_1 e) (Subshell_pipe_out err_pipe l)) t)"
  let ?w = "with_job e (m + 1) (fork_2 e) Foreground (cmd_line c) ?t"
  let ?a = "new_at e (heap t)"
  define s' where "s' = (if wait_ret e < 0 then perror e ''smash error: wait failed'' (?w\<lparr>current_foreground_job := Some ?a\<rparr>)
    else ?w\<lparr>current_foreground_job := Some ?a\<rparr>)\<lparr>current_foreground_job := None\<rparr>"
  have ex: "Pipe_execute e c s = Inr s'"
    using assms(3-11) by (simp add: Pipe_execute_def Let_def put_def less_Suc_eq_le addJob_eq int_inc_def wait_foreground_def s'_def)
  have h: "heap s' = heap ?w" "jobsList s' = jobsList ?w" "maxJobID s' = maxJobID ?w" by (simp_all add: s'_def)
  have "inv ?w" using t assms(2,4) with_job_inv(1) [of ?t e m] by (simp add: ready_def calm_def)
  then have inv': "inv s'" using h by (simp add: inv_def)
  have a: "?a \<in> set (jobsList s')" "jpid (heap s') ?a = fork_2 e" "unfinished (heap s') ?a"
    by (simp_all add: h with_job_def jpid_def unfinished_def)
  have "fork_2 e \<notin> set (reaped e') \<longrightarrow> (\<exists>s''. removeFinishedJobs e' s' = Inr s'' \<and> ?a \<in> set (jobsList s''))" for e'
    using removeFinishedJobs_eq [OF inv', of e'] drop_pids_keep [OF a(1), of "heap s'" "reported e'"] a rep [of "fork_2 e" e'] by auto
  then show ?thesis using ex a(1) h by (intro exI [of _ s'] exI [of _ ?a]) (auto simp: with_job_def)
qed

section \<open>The main loop\<close>

text \<open>The lines and signals in their order; \<open>None\<close> when they are used up and the shell is still running.\<close>

fun shell_steps :: "bool \<Rightarrow> input list \<Rightarrow> smash \<Rightarrow> smash res option" where
  "shell_steps prompted [] s = None"
| "shell_steps prompted (Line l e # ins) s =
     (let s0 = (if prompted then s else say (Out (prompt s @ ''> '')) s) in
      if l = [] then shell_steps False ins s0
      else case executeCommand l e s0 of Inl x \<Rightarrow> Some (Inl x)
        | Inr s1 \<Rightarrow> if halted s1 \<noteq> None then Some (Inr s1) else shell_steps False ins s1)"
| "shell_steps prompted (Sig g e # ins) s =
     (let s0 = (if prompted then s else say (Out (prompt s @ ''> '')) s) in
      case handle e g s0 of Inl x \<Rightarrow> Some (Inl x) | Inr s1 \<Rightarrow> shell_steps True ins s1)"

lemma main_loop_eof: "main_loop b [] s = None"
proof (rule ccontr)
  assume "main_loop b [] s \<noteq> None"
  then obtain r where r: "main_loop b [] s = Some r" by blast
  have "([]::input list) \<noteq> []"
  proof (rule main_loop.raw_induct [where P = "\<lambda>_ ins _ _. ins \<noteq> []", OF _ r], rule notI)
    fix f :: "bool \<Rightarrow> input list \<Rightarrow> smash \<Rightarrow> smash comp" and b' ins s' y
    assume ih: "\<And>b ins s y. f b ins s = Some y \<Longrightarrow> ins \<noteq> []" and e: "ins = []"
      and body: "(let s0 = (if b' then s' else say (Out (getPrompt s' @ ''> '')) s') in
      case ins of
        [] \<Rightarrow> f False [] s0
      | Line l e # rest \<Rightarrow>
          (if l = [] then f False rest s0
           else cbind (Some (executeCommand l e s0)) (\<lambda>s1.
             if halted s1 \<noteq> None then Some (Inr s1) else f False rest s1))
      | Sig g e # rest \<Rightarrow> cbind (Some (handle e g s0)) (\<lambda>s1. f True rest s1)) = Some y"
    show False using ih [of False "[]" _ y] body unfolding e Let_def by simp
  qed
  then show False by simp
qed


section \<open>A concrete shell\<close>

text \<open>An allocator that returns the address behind all objects, and a system without surprises.\<close>

definition bump :: "(nat \<rightharpoonup> JobEntry) \<Rightarrow> nat" where
  "bump h = Suc (Max (insert 0 (dom h)))"

definition demo_env :: "sig list \<Rightarrow> senv" where
  "demo_env gs = \<lparr>reaped = [], dangling = (\<lambda>_. False), fork_1 = 41, fork_2 = 42, pipe_ret = 0, wait_ret = 41, sigs = gs,
     kill_ret = (\<lambda>_ _. 0), new_at = bump, clock = 0, getcwd_ret = Some ''/'', chdir_ret = 0, nprocs = 4, affinity_ret = 0,
     lstat_ret = None, chmod_ret = 0, strerr = ''error'', big_double = (\<lambda>_. [])\<rparr>"

lemma demo_new_ok: "new_ok (demo_env gs)"
proof -
  have "h (bump h) = None" if f: "finite (dom h)" for h
  proof (rule ccontr)
    assume "h (bump h) \<noteq> None"
    then have "bump h \<in> insert 0 (dom h)" by auto
    then have "bump h \<le> Max (insert 0 (dom h))" using f by (intro Max_ge) auto
    then show False by (simp add: bump_def)
  qed
  then show ?thesis by (simp add: new_ok_def demo_env_def)
qed

lemma demo_env_fields [simp]:
  "reaped (demo_env gs) = []" "fork_1 (demo_env gs) = 41" "fork_2 (demo_env gs) = 42" "pipe_ret (demo_env gs) = 0"
  "sigs (demo_env gs) = gs" "new_at (demo_env gs) = bump" "clock (demo_env gs) = 0"
  by (simp_all add: demo_env_def)

definition demo_shell :: smash where
  "demo_shell = (SmallShell_ctor 7)\<lparr>heap := [3 \<mapsto> \<lparr>jobId = 1, jobProcessId = 40, jobStatus = Stopped, job_cmd_line = ''vi'', entryTime = 0\<rparr>],
     jobsList := [3], maxJobID := Some 1\<rparr>"

lemma demo_calm: "calm demo_shell" "calm (SmallShell_ctor 7)"
  by (simp_all add: demo_shell_def SmallShell_ctor_def calm_def inv_def jobs_ok_def jid_def)

lemma demo_removed: "removeFinishedJobs (demo_env gs) demo_shell = Inr demo_shell"
  by (simp add: removeFinishedJobs_def demo_shell_def SmallShell_ctor_def job_at_def)

definition demo_cmd :: "string \<Rightarrow> string list \<Rightarrow> bool \<Rightarrow> command" where
  "demo_cmd line args bg = \<lparr>cmd_line = line, argv = args, is_background_command = bg\<rparr>"

lemma demo_cmd_fields [simp]:
  "cmd_line (demo_cmd line args bg) = line" "argv (demo_cmd line args bg) = args"
  "is_background_command (demo_cmd line args bg) = bg" "argc (demo_cmd line args bg) = length args"
  by (simp_all add: demo_cmd_def)

lemma demo_fields [simp]:
  "jobsList demo_shell = [3]" "maxJobID demo_shell = Some 1"
  "heap demo_shell = [3 \<mapsto> \<lparr>jobId = 1, jobProcessId = 40, jobStatus = Stopped, job_cmd_line = ''vi'', entryTime = 0\<rparr>]"
  by (simp_all add: demo_shell_def)

theorem background_job_added_witness:
  "\<exists>s' a. External_execute (demo_env []) (demo_cmd ''sleep 5 &'' [''sleep'', ''5''] True) demo_shell = Inr s' \<and>
    jobsList s' = [3, a] \<and> maxJobID s' = Some 2 \<and>
    heap s' a = Some \<lparr>jobId = 2, jobProcessId = 41, jobStatus = Background, job_cmd_line = ''sleep 5 &'', entryTime = 0\<rparr>"
  using background_job_added [OF demo_calm(1) demo_new_ok demo_removed demo_fields(2), of "demo_cmd ''sleep 5 &'' [''sleep'', ''5''] True" "[]"]
  by (auto simp: COMMAND_ARGS_MAX_LENGTH_def)


lemma demo_atoi: "atoi ''1'' = 1"
  by code_simp


lemma demo_split: "split_at CHR ''|'' CHR ''&'' (trim ''ls | wc'') = Some (''ls '', False, ''wc'')"
  by code_simp

theorem pipe_job_stays_witness:
  "\<exists>s' a s''. Pipe_execute (demo_env []) (demo_cmd ''ls | wc'' [''ls'', ''|'', ''wc''] False) demo_shell = Inr s' \<and>
    removeFinishedJobs (demo_env []) s' = Inr s'' \<and> a \<in> set (jobsList s'')"
  using pipe_job_stays [OF demo_calm(1) demo_new_ok demo_removed demo_fields(2), of "demo_cmd ''ls | wc'' [''ls'', ''|'', ''wc''] False" "''ls ''" False "''wc''" "[]"]
    demo_split
  by (simp add: COMMAND_ARGS_MAX_LENGTH_def) (metis demo_env_fields(1) empty_iff empty_set)

lemma demo_create: "CreateCommand ''showpid'' = Inr (ShowPidCommand, demo_cmd ''showpid'' [''showpid''] False)"
  by code_simp

theorem reach_calm_witness: "\<exists>s'. executeCommand ''showpid'' (demo_env []) (say (Out ''smash> '') (SmallShell_ctor 7)) = Inr s' \<and> calm s'"
proof -
  have "executeCommand ''showpid'' (demo_env []) (say (Out ''smash> '') (SmallShell_ctor 7)) =
      Inr (say (Out (''smash pid is '' @ show_int 7 @ [LF])) (say (Out ''smash> '') (SmallShell_ctor 7)))" (is "?x = Inr ?s")
    by (simp add: executeCommand_def demo_create execute_def ShowPid_execute_def) (simp add: say_def SmallShell_ctor_def)
  moreover have "reach 7 ?s"
    by (rule reach.line [OF reach.start _ demo_new_ok, of 7 "''showpid''" "[]"])
      (use calculation in \<open>simp_all add: SmallShell_ctor_def\<close>)
  then have "calm ?s" by (rule reach_calm)
  ultimately show ?thesis by blast
qed

end
