(* ===== verification/SmashJobs.thy ===== *)
theory SmashJobs
  imports SmashRun
begin

text \<open>
  The jobs list of the small shell as an abstract data type: a list of job entries without heap,
  pointers and \<open>maxJobID\<close>, the interface between the list and the commands as a locale, and the
  refinement of the abstract list by the code over any sequence of calls.
\<close>

section \<open>The abstract list\<close>

primrec drop_first :: "('a \<Rightarrow> bool) \<Rightarrow> 'a list \<Rightarrow> 'a list" where
  "drop_first P [] = []"
| "drop_first P (x # xs) = (if P x then xs else x # drop_first P xs)"

definition list_clean :: "int list \<Rightarrow> JobEntry list \<Rightarrow> JobEntry list" where
  "list_clean ps l = filter (\<lambda>j. jobStatus j \<noteq> Finished) (fold (\<lambda>p. drop_first (\<lambda>j. jobProcessId j = p)) ps l)"

definition top_id :: "JobEntry list \<Rightarrow> int" where
  "top_id l = fold max (map jobId l) 0"

definition list_add :: "int \<Rightarrow> int \<Rightarrow> Status \<Rightarrow> string \<Rightarrow> JobEntry list \<Rightarrow> JobEntry list res" where
  "list_add now pid st line l = rbind (int_inc (top_id l)) (\<lambda>i.
     Inr (l @ [\<lparr>jobId = i, jobProcessId = pid, jobStatus = st, job_cmd_line = line, entryTime = now\<rparr>]))"

definition list_take :: "int \<Rightarrow> JobEntry list \<Rightarrow> JobEntry list" where
  "list_take i l = filter (\<lambda>j. jobId j \<noteq> i) l"

definition list_mark :: "int \<Rightarrow> Status \<Rightarrow> JobEntry list \<Rightarrow> JobEntry list" where
  "list_mark i st l = map (\<lambda>j. if jobId j = i then j\<lparr>jobStatus := st\<rparr> else j) l"

definition list_look :: "int \<Rightarrow> JobEntry list \<Rightarrow> JobEntry option" where
  "list_look i l = find (\<lambda>j. jobId j = i) l"

text \<open>
  The calls that the commands make: \<open>Start\<close> and \<open>Top\<close> follow \<open>removeFinishedJobs\<close>, as in every
  command, \<open>Take\<close> is \<open>removeJobById\<close>, \<open>Mark\<close> is \<open>setJobStatus\<close> on the job that \<open>getJobById\<close> finds.
\<close>

datatype job_op =
    Clean senv | Start senv int Status string | Take senv int | Mark int Status
  | Look int | Top senv | Top_stopped | Count

datatype job_out = Done | Found "JobEntry option" | Number int

fun list_step :: "job_op \<Rightarrow> JobEntry list \<Rightarrow> (JobEntry list \<times> job_out) res" where
  "list_step (Clean e) l = Inr (list_clean (reported e) l, Done)"
| "list_step (Start e pid st line) l =
     rbind (list_add (clock e) pid st line (list_clean (reported e) l)) (\<lambda>l'. Inr (l', Done))"
| "list_step (Take e i) l = Inr (list_take i l, Done)"
| "list_step (Mark i st) l = Inr (list_mark i st l, Done)"
| "list_step (Look i) l = Inr (l, Found (list_look i l))"
| "list_step (Top e) l = Inr (list_clean (reported e) l, Number (top_id (list_clean (reported e) l)))"
| "list_step Top_stopped l = Inr (l, Number (top_id (filter (\<lambda>j. jobStatus j = Stopped) l)))"
| "list_step Count l = Inr (l, Number (int (length l)))"

section \<open>The interface\<close>

record 's job_ops =
  op_clean :: "senv \<Rightarrow> 's \<Rightarrow> 's res"
  op_add :: "senv \<Rightarrow> int \<Rightarrow> Status \<Rightarrow> string \<Rightarrow> 's \<Rightarrow> (nat \<times> 's) res"
  op_take :: "senv \<Rightarrow> int \<Rightarrow> 's \<Rightarrow> 's res"
  op_mark :: "int \<Rightarrow> Status \<Rightarrow> 's \<Rightarrow> 's res"
  op_look :: "int \<Rightarrow> 's \<Rightarrow> JobEntry option res"
  op_top :: "'s \<Rightarrow> int res"
  op_top_stopped :: "'s \<Rightarrow> int res"
  op_count :: "'s \<Rightarrow> nat"

fun job_step :: "'s job_ops \<Rightarrow> job_op \<Rightarrow> 's \<Rightarrow> ('s \<times> job_out) res" where
  "job_step ops (Clean e) s = rbind (op_clean ops e s) (\<lambda>s'. Inr (s', Done))"
| "job_step ops (Start e pid st line) s =
     rbind (op_clean ops e s) (\<lambda>s1. rbind (op_add ops e pid st line s1) (\<lambda>(a, s'). Inr (s', Done)))"
| "job_step ops (Take e i) s = rbind (op_take ops e i s) (\<lambda>s'. Inr (s', Done))"
| "job_step ops (Mark i st) s = rbind (op_mark ops i st s) (\<lambda>s'. Inr (s', Done))"
| "job_step ops (Look i) s = rbind (op_look ops i s) (\<lambda>r. Inr (s, Found r))"
| "job_step ops (Top e) s = rbind (op_clean ops e s) (\<lambda>s'. rbind (op_top ops s') (\<lambda>m. Inr (s', Number m)))"
| "job_step ops Top_stopped s = rbind (op_top_stopped ops s) (\<lambda>m. Inr (s, Number m))"
| "job_step ops Count s = Inr (s, Number (int (op_count ops s)))"

text \<open>A sequence of calls, with what they return, for either kind of step.\<close>

fun run_steps :: "(job_op \<Rightarrow> 's \<Rightarrow> ('s \<times> job_out) res) \<Rightarrow> job_op list \<Rightarrow> 's \<Rightarrow> ('s \<times> job_out list) res" where
  "run_steps step [] s = Inr (s, [])"
| "run_steps step (x # xs) s =
     rbind (step x s) (\<lambda>(s1, out). rbind (run_steps step xs s1) (\<lambda>(s2, outs). Inr (s2, out # outs)))"

fun starts_fresh :: "job_op \<Rightarrow> bool" where
  "starts_fresh (Start e pid st line) = new_ok e"
| "starts_fresh _ = True"

lemma find_last: "\<forall>y \<in> set l. \<not> P y \<Longrightarrow> P x \<Longrightarrow> find P (l @ [x]) = Some x"
  by (induction l) simp_all

lemma look_added: "jobId x = top_id l + 1 \<Longrightarrow> list_look (top_id l + 1) (l @ [x]) = Some x"
  unfolding list_look_def by (rule find_last) (use fold_max [of 0 "map jobId l"] in \<open>auto simp: top_id_def\<close>)

lemma look_taken [simp]: "list_look i (list_take i l) = None"
  by (simp add: list_look_def list_take_def find_None_iff)

text \<open>
  What the list promises: a state that is \<open>ok\<close> has distinct positive ids; each operation acts on
  \<open>jobs\<close> as the abstract one does and keeps the state \<open>ok\<close>. Adding a job and asking for the largest
  id need a state that is \<open>tight\<close>, which is what cleaning establishes.
\<close>

locale job_table =
  fixes ok :: "'s \<Rightarrow> bool"
    and tight :: "'s \<Rightarrow> bool"
    and jobs :: "'s \<Rightarrow> JobEntry list"
    and ops :: "'s job_ops"
  assumes ids_law: "ok s \<Longrightarrow> distinct (map jobId (jobs s)) \<and> (\<forall>j \<in> set (jobs s). 1 \<le> jobId j)"
    and clean_law: "ok s \<Longrightarrow> \<exists>s'. op_clean ops e s = Inr s' \<and> ok s' \<and> tight s' \<and> jobs s' = list_clean (reported e) (jobs s)"
    and add_law: "ok s \<Longrightarrow> tight s \<Longrightarrow> new_ok e \<Longrightarrow> list_add (clock e) pid st line (jobs s) = Inr l \<Longrightarrow>
        \<exists>a s'. op_add ops e pid st line s = Inr (a, s') \<and> ok s' \<and> jobs s' = l"
    and add_fail_law: "ok s \<Longrightarrow> tight s \<Longrightarrow> list_add (clock e) pid st line (jobs s) = Inl x \<Longrightarrow>
        op_add ops e pid st line s = Inl x"
    and take_law: "ok s \<Longrightarrow> \<exists>s'. op_take ops e i s = Inr s' \<and> ok s' \<and> jobs s' = list_take i (jobs s)"
    and mark_law: "ok s \<Longrightarrow> \<exists>s'. op_mark ops i st s = Inr s' \<and> ok s' \<and> jobs s' = list_mark i st (jobs s)"
    and look_law: "ok s \<Longrightarrow> op_look ops i s = Inr (list_look i (jobs s))"
    and top_law: "ok s \<Longrightarrow> tight s \<Longrightarrow> op_top ops s = Inr (top_id (jobs s))"
    and top_stopped_law: "ok s \<Longrightarrow> op_top_stopped ops s = Inr (top_id (filter (\<lambda>j. jobStatus j = Stopped) (jobs s)))"
    and count_law: "op_count ops s = length (jobs s)"
begin

lemma start_refines:
  assumes "ok s" and "new_ok e"
  shows "case list_step (Start e pid st line) (jobs s) of Inl x \<Rightarrow> job_step ops (Start e pid st line) s = Inl x
    | Inr (l, out) \<Rightarrow> \<exists>s'. job_step ops (Start e pid st line) s = Inr (s', out) \<and> ok s' \<and> jobs s' = l"
proof -
  obtain t where t: "op_clean ops e s = Inr t" "ok t" "tight t" "jobs t = list_clean (reported e) (jobs s)"
    using clean_law [OF assms(1)] by blast
  show ?thesis
  proof (cases "list_add (clock e) pid st line (jobs t)")
    case (Inl x)
    then show ?thesis using add_fail_law [OF t(2,3) Inl] t by simp
  next
    case (Inr l)
    then show ?thesis using add_law [OF t(2,3) assms(2) Inr] t by fastforce
  qed
qed

lemma step_refines:
  assumes "ok s" and "starts_fresh x"
  shows "case list_step x (jobs s) of Inl w \<Rightarrow> job_step ops x s = Inl w
    | Inr (l, out) \<Rightarrow> \<exists>s'. job_step ops x s = Inr (s', out) \<and> ok s' \<and> jobs s' = l"
proof (cases x)
  case (Clean e)
  then show ?thesis using clean_law [OF assms(1), of e] by fastforce
next
  case (Start e pid st line)
  then show ?thesis using start_refines [OF assms(1), of e pid st line] assms(2) by (simp only: starts_fresh.simps)
next
  case (Take e i)
  then show ?thesis using take_law [OF assms(1), of e i] by fastforce
next
  case (Mark i st)
  then show ?thesis using mark_law [OF assms(1), of i st] by fastforce
next
  case (Top e)
  then show ?thesis using clean_law [OF assms(1), of e] top_law by fastforce
qed (use assms(1) in \<open>simp_all add: look_law top_stopped_law count_law\<close>)

lemma run_refines:
  assumes "ok s" and "\<forall>x \<in> set xs. starts_fresh x"
  shows "case run_steps list_step xs (jobs s) of Inl w \<Rightarrow> run_steps (job_step ops) xs s = Inl w
    | Inr (l, outs) \<Rightarrow> \<exists>s'. run_steps (job_step ops) xs s = Inr (s', outs) \<and> ok s' \<and> jobs s' = l"
  using assms
proof (induction xs arbitrary: s)
  case (Cons x xs)
  have x: "case list_step x (jobs s) of Inl w \<Rightarrow> job_step ops x s = Inl w
    | Inr (l, out) \<Rightarrow> \<exists>s'. job_step ops x s = Inr (s', out) \<and> ok s' \<and> jobs s' = l"
    using Cons.prems by (intro step_refines) simp_all
  show ?case
  proof (cases "list_step x (jobs s)")
    case (Inl w)
    then show ?thesis using x by simp
  next
    case (Inr y)
    then obtain s1 where s1: "job_step ops x s = Inr (s1, snd y)" "ok s1" "jobs s1 = fst y"
      using x by (auto simp: case_prod_unfold)
    have IH: "case run_steps list_step xs (jobs s1) of Inl w \<Rightarrow> run_steps (job_step ops) xs s1 = Inl w
      | Inr (l, outs) \<Rightarrow> \<exists>s'. run_steps (job_step ops) xs s1 = Inr (s', outs) \<and> ok s' \<and> jobs s' = l"
      using Cons.prems s1(2) by (intro Cons.IH) simp_all
    show ?thesis
      using IH Inr s1 by (cases y, cases "run_steps list_step xs (jobs s1)") (auto simp: case_prod_unfold)
  qed
qed simp

lemma run_equal:
  assumes "ok s" and "\<forall>x \<in> set xs. starts_fresh x"
  shows "rbind (run_steps (job_step ops) xs s) (\<lambda>(s', outs). Inr (jobs s', outs)) = run_steps list_step xs (jobs s)"
  using run_refines [OF assms] by (auto split: sum.splits)

text \<open>What a client can rely on: ids stay distinct, a job that was started is found under its id, one that was taken is not.\<close>

lemma run_ids:
  assumes "ok s" and "\<forall>x \<in> set xs. starts_fresh x" and "run_steps (job_step ops) xs s = Inr (s', outs)"
  shows "distinct (map jobId (jobs s'))" and "\<forall>j \<in> set (jobs s'). 1 \<le> jobId j"
  using run_refines [OF assms(1,2)] assms(3) ids_law [of s'] by (auto split: sum.splits)

lemma start_look:
  assumes "ok s" and "new_ok e" and "run_steps (job_step ops) [Start e pid st line, Look (top_id (list_clean (reported e) (jobs s)) + 1)] s = Inr (s', outs)"
  shows "outs = [Done, Found (Some \<lparr>jobId = top_id (list_clean (reported e) (jobs s)) + 1, jobProcessId = pid, jobStatus = st,
    job_cmd_line = line, entryTime = clock e\<rparr>)]"
proof -
  let ?i = "top_id (list_clean (reported e) (jobs s)) + 1"
  have "run_steps list_step [Start e pid st line, Look ?i] (jobs s) = Inr (jobs s', outs)"
    using run_equal [OF assms(1), of "[Start e pid st line, Look ?i]"] assms(2,3) by simp
  then obtain l where l: "list_add (clock e) pid st line (list_clean (reported e) (jobs s)) = Inr l" "outs = [Done, Found (list_look ?i l)]"
    by (auto simp: result_simps)
  then show ?thesis by (auto simp: list_add_def result_simps look_added dest!: int_inc_Inr)
qed

lemma take_look: "ok s \<Longrightarrow> run_steps (job_step ops) [Take e i, Look i] s = Inr (s', outs) \<Longrightarrow> outs = [Done, Found None]"
  using run_equal [of s "[Take e i, Look i]"] by (simp add: look_taken)

end

section \<open>The jobs list of the shell\<close>

text \<open>\<open>getJobById\<close> followed by reading the entry, and by \<open>setJobStatus\<close>, as the commands do.\<close>

definition look_job :: "int \<Rightarrow> smash \<Rightarrow> JobEntry option res" where
  "look_job i s = rbind (getJobById i s) (\<lambda>r.
     case r of None \<Rightarrow> Inr None | Some a \<Rightarrow> rbind (job_at s a) (\<lambda>j. Inr (Some j)))"

definition mark_job :: "int \<Rightarrow> Status \<Rightarrow> smash \<Rightarrow> smash res" where
  "mark_job i st s = rbind (getJobById i s) (\<lambda>r. case r of None \<Rightarrow> Inr s | Some a \<Rightarrow> setJobStatus a st s)"

definition JobsList_ops :: "smash job_ops" where
  "JobsList_ops = \<lparr>op_clean = removeFinishedJobs, op_add = addJob, op_take = removeJobById, op_mark = mark_job,
     op_look = look_job, op_top = getMaxJobID, op_top_stopped = getMaxStoppedJobID, op_count = getNumberOfJobs\<rparr>"

definition jobs_of :: "smash \<Rightarrow> JobEntry list" where
  "jobs_of s = map (\<lambda>a. the (heap s a)) (jobsList s)"

definition max_tight :: "smash \<Rightarrow> bool" where
  "max_tight s \<longleftrightarrow> maxJobID s = Some (top_id (jobs_of s))"

lemma jobs_of_ids: "map jobId (jobs_of s) = map (jid (heap s)) (jobsList s)"
  by (simp add: jobs_of_def jid_def comp_def)

lemma drop_pid_Cons: "drop_pid h p (a # l) = (if jpid h a = p then l else a # drop_pid h p l)"
  by (auto simp: drop_pid_def split: option.splits dest: find_in)

lemma map_drop_pid:
  "map (\<lambda>a. the (h a)) (drop_pid h p l) = drop_first (\<lambda>j. jobProcessId j = p) (map (\<lambda>a. the (h a)) l)"
  by (induction l) (simp_all add: drop_pid_Cons jpid_def, simp add: drop_pid_def)

lemma map_drop_pids:
  "map (\<lambda>a. the (h a)) (fold (drop_pid h) ps l) = fold (\<lambda>p. drop_first (\<lambda>j. jobProcessId j = p)) ps (map (\<lambda>a. the (h a)) l)"
  by (induction ps arbitrary: l) (simp_all add: map_drop_pid)

lemma map_find: "find P (map f l) = map_option f (find (\<lambda>x. P (f x)) l)"
  by (induction l) simp_all

lemma unfinished_eq: "unfinished h = (\<lambda>a. jobStatus (the (h a)) \<noteq> Finished)"
  by (simp add: fun_eq_iff unfinished_def)

lemma clean_refines:
  assumes "inv s"
  shows "\<exists>s'. removeFinishedJobs e s = Inr s' \<and> inv s' \<and> max_tight s' \<and> jobs_of s' = list_clean (reported e) (jobs_of s)"
proof -
  let ?l = "filter (unfinished (heap s)) (fold (drop_pid (heap s)) (reported e) (jobsList s))"
  obtain s' where s': "removeFinishedJobs e s = Inr s'" "inv s'" using removeFinishedJobs_inv [OF assms] by blast
  have "jobsList s' = ?l" "heap s' = heap s" "maxJobID s' = Some (fold max (map (jid (heap s)) ?l) 0)"
    using removeFinishedJobs_eq [OF assms, of e] s'(1) by simp_all
  moreover have "map (\<lambda>a. the (heap s a)) ?l = list_clean (reported e) (jobs_of s)"
    by (simp add: list_clean_def jobs_of_def unfinished_eq filter_map comp_def flip: map_drop_pids)
  ultimately show ?thesis using s' by (simp add: max_tight_def top_id_def jobs_of_ids) (simp add: jobs_of_def)
qed

lemma tight_bounded: "max_tight s \<Longrightarrow> bounded s"
  using fold_max [of 0 "map (jid (heap s)) (jobsList s)"]
  by (auto simp: bounded_def max_tight_def top_id_def jobs_of_ids)

lemma add_refines:
  assumes "inv s" and "max_tight s" and "new_ok e" and "list_add (clock e) pid st line (jobs_of s) = Inr l"
  shows "\<exists>a s'. addJob e pid st line s = Inr (a, s') \<and> inv s' \<and> jobs_of s' = l"
proof -
  let ?m = "top_id (jobs_of s)"
  have m: "maxJobID s = Some ?m" using assms(2) by (simp add: max_tight_def)
  have i: "int_inc ?m = Inr (?m + 1)" using assms(4) by (auto simp: list_add_def result_simps dest: int_inc_Inr)
  have "inv (with_job e (?m + 1) pid st line s)"
    by (rule with_job_inv [OF assms(1,3) tight_bounded [OF assms(2)] m])
  moreover have "heap s (new_at e (heap s)) = None" using assms(1,3) by (intro new_fresh)
  then have "new_at e (heap s) \<notin> set (jobsList s)" using inv_mapped [OF assms(1)] by blast
  then have "jobs_of (with_job e (?m + 1) pid st line s) = l"
    using assms(4) i by (auto simp: jobs_of_def with_job_def list_add_def)
  ultimately show ?thesis using m i by (simp add: addJob_eq)
qed

lemma take_refines:
  assumes "inv s"
  shows "\<exists>s'. removeJobById e i s = Inr s' \<and> inv s' \<and> jobs_of s' = list_take i (jobs_of s)"
proof (cases "find (\<lambda>a. jid (heap s) a = i) (jobsList s)")
  case None
  then have "list_take i (jobs_of s) = jobs_of s" by (auto simp: list_take_def jobs_of_def find_None_iff jid_def intro: filter_True)
  then show ?thesis using None getJobById_eq [OF assms, of i] assms by (simp add: removeJobById_def getJobById_def)
next
  case (Some a)
  then have a: "getJobById i s = Inr (Some a)" "a \<in> set (jobsList s)" "jid (heap s) a = i"
    using assms by (auto simp: getJobById_eq dest: find_in)
  obtain m where m: "removeJobById e i s = Inr (s\<lparr>jobsList := remove1 a (jobsList s), maxJobID := Some m\<rparr>)"
    using removeJobById_eq [OF assms a(1)] by blast
  have l: "distinct (jobsList s)" "inj_on (jid (heap s)) (set (jobsList s))" using assms by (simp_all add: inv_def jobs_ok_def)
  then have "remove1 a (jobsList s) = filter (\<lambda>b. jid (heap s) b \<noteq> i) (jobsList s)"
    using a(2,3) by (auto simp: distinct_remove1_removeAll removeAll_filter_not_eq inj_on_def intro!: filter_cong)
  then show ?thesis using m erase_inv [OF assms, where a = a and m = m]
    by (simp add: jobs_of_def list_take_def filter_map comp_def jid_def)
qed

lemma mark_refines:
  assumes "inv s"
  shows "\<exists>s'. mark_job i st s = Inr s' \<and> inv s' \<and> jobs_of s' = list_mark i st (jobs_of s)"
proof (cases "find (\<lambda>a. jid (heap s) a = i) (jobsList s)")
  case None
  then have "list_mark i st (jobs_of s) = jobs_of s" by (auto simp: list_mark_def jobs_of_def find_None_iff jid_def)
  then show ?thesis using None getJobById_eq [OF assms, of i] assms by (simp add: mark_job_def)
next
  case (Some a)
  then have a: "a \<in> set (jobsList s)" "jid (heap s) a = i" by (auto dest: find_in)
  then obtain j where j: "heap s a = Some j" using inv_mapped [OF assms] by blast
  let ?s = "s\<lparr>heap := (heap s)(a \<mapsto> j\<lparr>jobStatus := st\<rparr>)\<rparr>"
  have "inj_on (jid (heap s)) (set (jobsList s))" using assms by (simp add: inv_def jobs_ok_def)
  then have "jobs_of ?s = list_mark i st (jobs_of s)"
    using a j by (auto simp: jobs_of_def list_mark_def jid_def inj_on_def)
  moreover have "mark_job i st s = Inr ?s" using Some j assms by (simp add: mark_job_def getJobById_eq setJobStatus_eq)
  moreover have "inv ?s" using setJobStatus_inv [OF assms setJobStatus_eq [OF j]] .
  ultimately show ?thesis by blast
qed

lemma look_refines: "inv s \<Longrightarrow> look_job i s = Inr (list_look i (jobs_of s))"
  using job_at_list [of s] find_in [of "\<lambda>a. jid (heap s) a = i" "jobsList s"]
  by (fastforce simp: look_job_def getJobById_eq list_look_def jobs_of_def map_find jid_def split: option.splits)

lemma max_stopped_eq:
  "set l \<subseteq> dom (heap s) \<Longrightarrow>
     max_stopped s l k = Inr (fold max (map jobId (filter (\<lambda>j. jobStatus j = Stopped) (map (\<lambda>a. the (heap s a)) l))) k)"
proof (induction l arbitrary: k)
  case (Cons a l)
  then obtain j where j: "heap s a = Some j" by auto
  have "(if jobStatus j = Stopped \<and> jobId j > k then jobId j else k) = (if jobStatus j = Stopped then max (jobId j) k else k)"
    by simp
  then show ?case using Cons j by (simp add: job_at_def)
qed simp

lemma ids_refines: "inv s \<Longrightarrow> distinct (map jobId (jobs_of s)) \<and> (\<forall>j \<in> set (jobs_of s). 1 \<le> jobId j)"
  unfolding jobs_of_ids by (auto simp: inv_def jobs_ok_def distinct_map jobs_of_def jid_def)

interpretation jl: job_table inv max_tight jobs_of JobsList_ops
proof (unfold_locales, goal_cases)
  case (1 s)
  then show ?case by (rule ids_refines)
next
  case (2 s e)
  then show ?case by (simp add: JobsList_ops_def clean_refines)
next
  case (3 s e pid st line l)
  then show ?case by (simp add: JobsList_ops_def add_refines)
next
  case (4 s e pid st line x)
  then show ?case by (auto simp: JobsList_ops_def max_tight_def addJob_eq list_add_def rbind_Inl_iff)
next
  case (5 s e i)
  then show ?case by (simp add: JobsList_ops_def take_refines)
next
  case (6 s i st)
  then show ?case by (simp add: JobsList_ops_def mark_refines)
next
  case (7 s i)
  then show ?case by (simp add: JobsList_ops_def look_refines)
next
  case (8 s)
  then show ?case by (simp add: JobsList_ops_def getMaxJobID_def max_tight_def)
next
  case (9 s)
  then show ?case using inv_mapped [of s]
    by (simp add: JobsList_ops_def getMaxStoppedJobID_def max_stopped_eq jobs_of_def top_id_def)
next
  case (10 s)
  then show ?case by (simp add: JobsList_ops_def getNumberOfJobs_def jobs_of_def)
qed



end
