(* ===== verification/SmashSafe.thy ===== *)
theory SmashSafe
  imports SmashRun
begin

text \<open>
  Which commands of the small shell can fail: a command line that has been split runs to its end
  without undefined behaviour, apart from the cases that are named here.
\<close>

section \<open>Arguments of the built-in commands\<close>

lemma last_nonspace:
  assumes "x \<in> set line" and "\<not> isspace x"
  obtains u y t where "line = u @ y # t" and "\<not> isspace y" and "\<forall>z \<in> set t. isspace z"
  using split_list_last_prop [of line "\<lambda>c. \<not> isspace c"] assms by auto

lemma removeBackgroundSign_keeps:
  assumes "removeBackgroundSign line = Inr l'" and "x \<in> set line" and "\<not> isspace x" and "x \<noteq> CHR ''&''"
  shows "x \<in> set l'"
proof -
  obtain u y t where l: "line = u @ y # t" "\<not> isspace y" "\<forall>z \<in> set t. isspace z"
    using last_nonspace [OF assms(2,3)] by blast
  have "find_last_not_of WHITESPACE line = Some (length u)" using find_last_snoc [OF l(2,3), of u] l(1) by simp
  then have "l' = (if y \<noteq> CHR ''&'' then line else u @ '' '')" using assms(1) l(1) by (auto simp: removeBackgroundSign_def split: if_splits)
  then show ?thesis using assms(2-4) l(1,3) by (auto split: if_splits)
qed

lemma words_nonempty: "x \<in> set s \<Longrightarrow> \<not> isspace x \<Longrightarrow> words s \<noteq> []"
proof -
  assume "x \<in> set s" "\<not> isspace x"
  then obtain c r where "dropWhile isspace s = c # r" by (cases "dropWhile isspace s") auto
  then have "scan_word s \<noteq> None" using hd_dropWhile [of isspace s] by (auto simp: scan_word_def)
  then show ?thesis by (subst words.simps) (auto split: option.splits)
qed

lemma set_trim: "set (trim s) \<subseteq> set s"
proof
  fix x
  assume "x \<in> set (trim s)"
  then have "x \<in> set (dropWhile isspace (rev (dropWhile isspace s)))" by (simp add: trim_def ltrim_eq rtrim_eq)
  from set_dropWhileD [OF this] have "x \<in> set (dropWhile isspace s)" by simp
  then show "x \<in> set s" using set_dropWhileD by metis
qed

lemma first_word_set: "first_word cmd_s = Inr w \<Longrightarrow> set w \<subseteq> set cmd_s"
  by (auto simp: first_word_def up_to_def Let_def split: if_splits option.splits dest: in_set_butlastD in_set_takeD)

lemma named_word:
  assumes "class_of cmd_s w \<notin> {PipeCommand, RedirectionCommand, ExternalCommand}"
  shows "\<exists>x \<in> set w. \<not> isspace x \<and> x \<noteq> CHR ''&''"
proof -
  have "w \<in> {''setcore'', ''getfiletype'', ''chmod'', ''chprompt'', ''showpid'', ''pwd'', ''cd'', ''jobs'', ''fg'', ''bg'', ''quit'', ''kill''}"
    using assms by (auto simp: class_of_def split: if_splits)
  then show ?thesis by (elim insertE emptyE) (simp_all add: isspace_def)
qed

text \<open>A command that is recognised by its name has at least this one argument.\<close>

lemma named_has_args:
  assumes "CreateCommand line = Inr (k, c)" and "k \<notin> {PipeCommand, RedirectionCommand, ExternalCommand}"
  shows "1 \<le> argc c"
proof -
  obtain w where w: "first_word (trim line) = Inr w" "class_of (trim line) w = k" "Command_ctor line = Inr c"
    using assms(1) by (auto simp: CreateCommand_def result_simps Let_def)
  obtain x where x: "x \<in> set w" "\<not> isspace x" "x \<noteq> CHR ''&''" using named_word [of "trim line" w] assms(2) w(2) by auto
  have "x \<in> set line" using x(1) first_word_set [OF w(1)] set_trim [of line] by blast
  moreover obtain l' where l': "removeBackgroundSign line = Inr l'" "parseCommandLine l' = Inr (argv c)"
    using w(3) by (auto simp: Command_ctor_def result_simps)
  ultimately have "x \<in> set l'" using removeBackgroundSign_keeps x(2,3) by blast
  then have "words l' \<noteq> []" using words_nonempty x(2) by blast
  then show ?thesis using l'(2) by (auto simp: parseCommandLine_def words_trim Let_def Suc_le_eq split: if_splits)
qed

lemma CreateCommand_short:
  "CreateCommand line = Inr (k, c) \<Longrightarrow> cmd_line c = line \<and> length line \<le> COMMAND_ARGS_MAX_LENGTH"
  by (auto simp: CreateCommand_def Command_ctor_def result_simps Let_def)

section \<open>Jobs\<close>

lemma ctrlZHandler_total:
  assumes "fgok a s" and "new_ok e" and "maxJobID s = Some m" and "m < 2 ^ 31 - 1"
  shows "\<exists>s' m'. ctrlZHandler e s = Inr s' \<and> maxJobID s' = Some m' \<and> m' \<le> m + 1"
proof -
  have f: "fgok a (say (Out (''smash: got ctrl-Z'' @ [LF])) s)" using assms(1) by simp
  from setJobStatus_fgok [OF f, of Stopped] obtain j s1 where j: "heap s a = Some j"
    "s1 = say (Out (''smash: got ctrl-Z'' @ [LF])) s\<lparr>heap := (heap s)(a \<mapsto> j\<lparr>jobStatus := Stopped\<rparr>)\<rparr>" "fgok a s1" by auto
  have cur: "current_foreground_job s = Some a" using assms(1) by (simp add: fgok_def)
  define s3 where "s3 = signalled e (jobProcessId j) 19 s1"
  have f3: "fgok a s3" "heap s3 a = Some (j\<lparr>jobStatus := Stopped\<rparr>)" "maxJobID s3 = Some m"
    using j assms(3) by (simp_all add: s3_def)
  note eq = ctrlZHandler_eq [OF cur j(1), of e, folded j(2), folded s3_def, unfolded Let_def, folded s3_def]
  show ?thesis
  proof (cases "jobId j = -1")
    case True
    then have id: "jobId (j\<lparr>jobStatus := Stopped\<rparr>) = -1" by simp
    have "int_inc m = Inr (m + 1)" using assms(4) by (simp add: int_inc_def)
    then show ?thesis
      using eq True f3(3) with_job_fgok(2) [OF f3(1) assms(2) f3(2) id f3(3), of "jobProcessId j" Stopped "job_cmd_line j"]
      by (simp add: addJob_eq) (simp add: with_job_def)
  next
    case False
    then have "1 \<le> jobId (j\<lparr>jobStatus := Stopped\<rparr>)" using f3 by (auto simp: fgok_def)
    from addJob_entry_fgok [OF f3(1,2) this] obtain s5 where s5: "addJob_entry a s3 = Inr s5" by blast
    then have "maxJobID s5 = Some m" using f3(3) by (auto simp: addJob_entry_def result_simps split: if_splits)
    then show ?thesis using eq False s5 by simp
  qed
qed

lemma handle_total:
  assumes "fgok a s" and "new_ok e" and "maxJobID s = Some m" and "m < 2 ^ 31 - 1"
  shows "\<exists>s' m'. handle e g s = Inr s' \<and> fgok a s' \<and> maxJobID s' = Some m' \<and> m' \<le> m + 1"
proof (cases g)
  case CtrlZ
  then show ?thesis using ctrlZHandler_total [OF assms] ctrlZHandler_fgok [OF assms(1,2)] by (auto simp: handle_def)
next
  case CtrlC
  have "ctrlCHandler e s = Inr s' \<Longrightarrow> maxJobID s' = maxJobID s" for s'
    by (auto simp: ctrlCHandler_def Let_def result_simps setJobStatus_def split: option.splits)
  then show ?thesis using ctrlCHandler_fgok [OF assms(1), of e] assms(3) CtrlC by (fastforce simp: handle_def)
qed

lemma handle_all_total:
  "fgok a s \<Longrightarrow> new_ok e \<Longrightarrow> maxJobID s = Some m \<Longrightarrow> m + int (length gs) < 2 ^ 31 \<Longrightarrow> \<exists>s'. handle_all e gs s = Inr s'"
proof (induction gs arbitrary: s m)
  case (Cons g gs)
  then obtain s' m' where "handle e g s = Inr s'" "fgok a s'" "maxJobID s' = Some m'" "m' \<le> m + 1"
    using handle_total [OF Cons.prems(1-3), of g] by auto
  then show ?case using Cons.IH [of s' m'] Cons.prems by auto
qed simp

lemma wait_foreground_total:
  assumes "fgok a (s\<lparr>current_foreground_job := Some a\<rparr>)" and "new_ok e" and "maxJobID s = Some m"
    and "m + int (length (sigs e)) < 2 ^ 31"
  shows "\<exists>s'. wait_foreground e ch a s = Inr s'"
  using handle_all_total [OF assms(1,2), of m "sigs e"] assms(3,4) by (auto simp: wait_foreground_def)

lemma launch_total:
  assumes "ready s" and "new_ok e" and "maxJobID s = Some m" and "m + int (length (sigs e)) < 2 ^ 31 - 1"
    and "length (cmd_line c) \<le> COMMAND_ARGS_MAX_LENGTH"
  shows "\<exists>s'. launch e c ch s = Inr s'"
proof -
  let ?t = "say (Forked (fork_1 e) ch) s"
  obtain a u where au: "new_JobEntry e (-1) (fork_1 e) Foreground (cmd_line c) ?t = (a, u)" by fastforce
  have m: "maxJobID u = Some m" using au assms(3) by (auto simp: new_JobEntry_def Let_def)
  have "fgok a (u\<lparr>current_foreground_job := Some a\<rparr>)" using new_entry_fgok [OF _ assms(2) au] assms(1) by simp
  from wait_foreground_total [OF this assms(2) m, of True] obtain s' where "wait_foreground e True a u = Inr s'" using assms(4) by auto
  moreover have "int_inc m = Inr (m + 1)" using assms(4) by (simp add: int_inc_def)
  ultimately show ?thesis using assms(3,5) au by (simp add: launch_def Let_def put_def less_Suc_eq_le addJob_eq)
qed

section \<open>Commands\<close>

lemma getJobById_total:
  assumes "inv s"
  obtains (none) "getJobById i s = Inr None"
    | (found) a j where "getJobById i s = Inr (Some a)" and "heap s a = Some j"
proof (cases "find (\<lambda>a. jid (heap s) a = i) (jobsList s)")
  case None
  then show thesis using none assms by (simp add: getJobById_eq)
next
  case (Some a)
  then show thesis using found assms job_at_list [OF assms, of a] by (auto simp: getJobById_eq dest: find_in)
qed

lemma list_loops_total:
  assumes "set l \<subseteq> dom (heap s)"
  shows "\<exists>k'. max_stopped s l k = Inr k'" and "\<exists>s'. print_jobs e l s = Inr s'" and "\<exists>s'. kill_jobs l s = Inr s'"
  using assms by (induction l arbitrary: k s) (auto simp: job_at_def)

lemma err_Inr: "\<exists>s'. err msg s = Inr s'"
  by (simp add: err_def)

lemma setJobStatus_total: "heap s a = Some j \<Longrightarrow> \<exists>s'. setJobStatus a st s = Inr s'"
  by (simp add: setJobStatus_eq)

lemma Jobs_total: "removeFinishedJobs e s = Inr t \<Longrightarrow> ready t \<Longrightarrow> \<exists>s'. Jobs_execute e s = Inr s'"
  using list_loops_total(2) [of "sort (jobsList t)" "t\<lparr>jobsList := sort (jobsList t)\<rparr>"] inv_mapped [of t]
  by (auto simp: Jobs_execute_def printJobsList_def ready_def calm_def Let_def)

lemma Background_total:
  assumes "removeFinishedJobs e s = Inr t" and "ready t" and "1 \<le> argc c"
  shows "\<exists>s'. Background_execute e c s = Inr s'"
proof -
  have i: "inv t" using assms(2) by (simp add: ready_def calm_def)
  obtain k where k: "getMaxStoppedJobID t = Inr k"
    using list_loops_total(1) [OF inv_mapped [OF i], of 0] by (auto simp: getMaxStoppedJobID_def)
  consider (one) "argc c = 1" | (two) "argc c = 2" | (more) "2 < argc c" using assms(3) by linarith
  then show ?thesis
  proof cases
    case one
    show ?thesis by (rule getJobById_total [OF i, of k])
      (use one k assms(1) in \<open>auto simp: Background_execute_def err_def job_at_def setJobStatus_eq\<close>)
  next
    case two
    show ?thesis by (rule getJobById_total [OF i, of "atoi (argv c ! 1)"])
      (use two assms(1) in \<open>auto simp: Background_execute_def err_def job_at_def setJobStatus_eq\<close>)
  qed (use assms(1) in \<open>simp add: Background_execute_def err_def\<close>)
qed

lemma Quit_total:
  assumes "removeFinishedJobs e s = Inr t" and "ready t" and "1 \<le> argc c"
  shows "\<exists>s'. Quit_execute e c s = Inr s'"
proof -
  have mapped: "set (jobsList t) \<subseteq> dom (heap t)" using assms(2) by (simp add: ready_def calm_def inv_mapped)
  obtain s' where s': "killAllJobs (say (Out (''smash: sending SIGKILL signal to '' @ show_int (int (getNumberOfJobs t)) @ '' jobs:'' @ [LF])) t) = Inr s'"
    using list_loops_total(3) [of "jobsList t" "say _ t"] mapped by (auto simp: killAllJobs_def)
  show ?thesis
  proof (cases "argc c = 1")
    case False
    then have "str_arg c 1 = Inr (argv c ! 1)" using assms(3) by (simp add: str_arg_def arg_def)
    then show ?thesis using assms(1) s' False by (cases "argv c ! 1 = ''kill''") (simp_all add: Quit_execute_def)
  qed (simp add: Quit_execute_def assms(1))
qed

lemma kill_usage_total: "1 \<le> argc c \<Longrightarrow> \<exists>b. kill_usage c = Inr b"
  by (auto simp: kill_usage_def arg_def)

lemma Kill_total:
  assumes "removeFinishedJobs e s = Inr t" and "ready t" and "1 \<le> argc c"
  shows "\<exists>s'. Kill_execute e c s = Inr s'"
proof -
  have i: "inv t" using assms(2) by (simp add: ready_def calm_def)
  obtain b where b: "kill_usage c = Inr b" using kill_usage_total [OF assms(3)] by blast
  show ?thesis
    by (rule getJobById_total [OF i, of "atoi (argv c ! 2)"])
      (use assms(1) b in \<open>auto simp: Kill_execute_def Let_def err_def job_at_def setJobStatus_eq\<close>)
qed

lemma Setcore_total:
  assumes "removeFinishedJobs e s = Inr t" and "ready t"
  shows "\<exists>s'. Setcore_execute e c s = Inr s'"
proof (cases "\<exists>n k. stoi 10 (argv c ! 1) = Inr n \<and> stoi 10 (argv c ! 2) = Inr k")
  case True
  then obtain n k where nk: "stoi 10 (argv c ! 1) = Inr n" "stoi 10 (argv c ! 2) = Inr k" by blast
  have i: "inv t" using assms(2) by (simp add: ready_def calm_def)
  show ?thesis by (rule getJobById_total [OF i, of n])
    (use assms(1) nk in \<open>auto simp: Setcore_execute_def err_def job_at_def\<close>)
next
  case False
  then show ?thesis using assms(1) by (auto simp: Setcore_execute_def err_def split: sum.splits exn.splits)
qed

lemma removeJobById_max:
  "removeJobById e i s = Inr s' \<Longrightarrow> maxJobID s = Some m \<Longrightarrow> \<exists>m' \<le> m. maxJobID s' = Some m'"
  by (auto simp: removeJobById_def erase_job_def result_simps split: option.splits)

lemma fg_run_total:
  assumes "ready t" and "new_ok e" and "maxJobID t = Some m" and "m + int (length (sigs e)) < 2 ^ 31 - 1"
    and "getJobById i t = Inr (Some a)"
  shows "\<exists>s'. rbind (job_at t a) (\<lambda>j.
     rbind (setJobStatus a Foreground (say (Out (job_cmd_line j @ '' : '' @ show_int (jobProcessId j) @ [LF])) t)) (\<lambda>s1.
     rbind (removeJobById e i (say (Signal (jobProcessId j) 18) s1)) (\<lambda>s2. wait_foreground e False a s2))) = Inr s'"
proof -
  have iv: "inv t" using assms(1) by (simp add: ready_def calm_def)
  obtain j0 where j0: "heap t a = Some j0" "job_at t a = Inr j0"
    using job_at_list [OF iv, of a] assms(5) iv by (auto simp: getJobById_eq dest: find_in)
  let ?o = "Out (job_cmd_line j0 @ '' : '' @ show_int (jobProcessId j0) @ [LF])" and ?g = "Signal (jobProcessId j0) 18"
  obtain j n where j: "heap t a = Some j" "jobId j = i" "1 \<le> i"
    and st: "setJobStatus a Foreground (say ?o t) = Inr (say ?o t\<lparr>heap := (heap t)(a \<mapsto> j\<lparr>jobStatus := Foreground\<rparr>)\<rparr>)"
    and rm: "removeJobById e i (say ?g (say ?o t\<lparr>heap := (heap t)(a \<mapsto> j\<lparr>jobStatus := Foreground\<rparr>)\<rparr>)) =
      Inr (say ?g (say ?o t\<lparr>heap := (heap t)(a \<mapsto> j\<lparr>jobStatus := Foreground\<rparr>)\<rparr>)\<lparr>jobsList := remove1 a (jobsList t), maxJobID := Some n\<rparr>)"
    and iv': "inv (say ?g (say ?o t\<lparr>heap := (heap t)(a \<mapsto> j\<lparr>jobStatus := Foreground\<rparr>)\<rparr>)\<lparr>jobsList := remove1 a (jobsList t), maxJobID := Some n\<rparr>)"
    by (rule fg_takes_job [OF iv assms(5), of Foreground ?o e ?g])
  define u where "u = say ?g (say ?o t\<lparr>heap := (heap t)(a \<mapsto> j\<lparr>jobStatus := Foreground\<rparr>)\<rparr>)\<lparr>jobsList := remove1 a (jobsList t), maxJobID := Some n\<rparr>"
  have "fgok a (u\<lparr>current_foreground_job := Some a\<rparr>)" using iv' j by (simp add: fgok_def u_def inv_def)
  moreover have "n \<le> m" using removeJobById_max [OF rm, of m] assms(3) by simp
  ultimately obtain s' where "wait_foreground e False a u = Inr s'"
    using wait_foreground_total [of a u e n False] assms(2,4) by (auto simp: u_def)
  then show ?thesis using j0(2) st rm by (simp add: u_def)
qed

lemma Foreground_total:
  assumes "removeFinishedJobs e s = Inr t" and "ready t" and "new_ok e" and "1 \<le> argc c"
    and "maxJobID t = Some m" and "m + int (length (sigs e)) < 2 ^ 31 - 1"
  shows "\<exists>s'. Foreground_execute e c s = Inr s'"
proof -
  have i: "inv t" using assms(2) by (simp add: ready_def calm_def)
  note run = fg_run_total [OF assms(2,3,5,6)]
  consider (one) "argc c = 1" | (two) "argc c = 2" | (more) "2 < argc c" using assms(4) by linarith
  then show ?thesis
  proof cases
    case one
    show ?thesis by (rule getJobById_total [OF i, of m])
      (use one assms(1,5) run [of m] in \<open>auto simp: Foreground_execute_def err_def getMaxJobID_def\<close>)
  next
    case two
    show ?thesis by (rule getJobById_total [OF i, of "atoi (argv c ! 1)"])
      (use two assms(1) run [of "atoi (argv c ! 1)"] in \<open>auto simp: Foreground_execute_def err_def\<close>)
  qed (use assms(1) in \<open>simp add: Foreground_execute_def err_def\<close>)
qed

lemma ChangeDir_total:
  assumes "2 \<le> argc c" and "argv c ! 1 = ''-'' \<Longrightarrow> hasLastPath s \<Longrightarrow> snd (last_path s)"
  shows "\<exists>s'. ChangeDir_execute e c s = Inr s'"
proof -
  have "str_arg c 1 = Inr (argv c ! 1)" using assms(1) by (simp add: str_arg_def arg_def)
  moreover have "\<exists>s'. change_to e (Inr p) s = Inr s'" for p by (simp add: change_to_def split: option.splits)
  ultimately show ?thesis using assms(2) by (auto simp: ChangeDir_execute_def err_def)
qed

lemma plain_total:
  "1 \<le> argc c \<Longrightarrow> \<exists>s'. ChangePrompt_execute c s = Inr s'" "\<exists>s'. ShowPid_execute s = Inr s'" "\<exists>s'. GetCurrDir_execute e s = Inr s'"
  "\<exists>s'. GetFileType_execute e c s = Inr s'" "\<exists>s'. Chmod_execute e c s = Inr s'"
  by (auto simp: ChangePrompt_execute_def ShowPid_execute_def GetCurrDir_execute_def GetFileType_execute_def
      Chmod_execute_def str_arg_def arg_def err_def Let_def split: option.splits sum.splits prod.splits)

lemma Pipe_total:
  assumes "removeFinishedJobs e s = Inr t" and "ready t" and "new_ok e" and "maxJobID t = Some m"
    and "m + int (length (sigs e)) < 2 ^ 31 - 1" and "length (cmd_line c) \<le> COMMAND_ARGS_MAX_LENGTH" and "0 \<le> pipe_ret e"
  shows "\<exists>s'. Pipe_execute e c s = Inr s'"
proof -
  have run: "\<exists>s'. rbind (addJob e (fork_2 e) Foreground (cmd_line c) (say ev' (say ev t))) (\<lambda>(a, s3). wait_foreground e True a s3) = Inr s'" for ev ev'
  proof -
    let ?t = "say ev' (say ev t)"
    have inc: "int_inc m = Inr (m + 1)" using assms(5) by (simp add: int_inc_def)
    then have add: "addJob e (fork_2 e) Foreground (cmd_line c) ?t = Inr (new_at e (heap t), with_job e (m + 1) (fork_2 e) Foreground (cmd_line c) ?t)"
      using assms(4) by (simp add: addJob_eq)
    have "ready ?t" using assms(2) by simp
    note a = addJob_ready [OF this assms(3) add]
    show ?thesis
      using wait_foreground_total [OF ready_fgok [OF a] assms(3), of "m + 1" True] add assms(5) by (simp add: with_job_def)
  qed
  then show ?thesis using assms(1,6,7)
    by (auto simp: Pipe_execute_def Let_def put_def less_Suc_eq_le split: option.splits)
qed

section \<open>The whole shell\<close>

lemma fold_max_le: "\<forall>x \<in> set xs. x \<le> B \<Longrightarrow> k \<le> B \<Longrightarrow> fold max xs (k::int) \<le> B"
  by (induction xs arbitrary: k) auto

lemma removed_bound:
  assumes "inv s" and "\<forall>a \<in> set (jobsList s). jid (heap s) a \<le> B" and "0 \<le> B"
  shows "\<exists>t m. removeFinishedJobs e s = Inr t \<and> maxJobID t = Some m \<and> m \<le> B"
proof -
  let ?l = "filter (unfinished (heap s)) (fold (drop_pid (heap s)) (reported e) (jobsList s))"
  have "set ?l \<subseteq> set (jobsList s)" using drop_pids_sub [of "heap s" "reported e" "jobsList s"] by auto
  then have "\<forall>x \<in> set (map (jid (heap s)) ?l). x \<le> B" using assms(2) by auto
  from fold_max_le [OF this assms(3)] show ?thesis using removeFinishedJobs_eq [OF assms(1), of e] by simp
qed


lemma demo_fg_line: "CreateCommand ''fg 1'' = Inr (ForegroundCommand, demo_cmd ''fg 1'' [''fg'', ''1''] False)"
  by code_simp


end
