(* ===== verification/SmashChild.thy ===== *)
theory SmashChild
  imports SmashRun
begin

text \<open>
  The children of the small shell. A child starts with a copy of the shell's state; it becomes
  another program, or executes a part of the command line as the shell itself and exits. What it
  prints goes where its standard output and its standard error lead.
\<close>

section \<open>Children\<close>

datatype child_end = Replaced string "string list" | Exited smash

text \<open>
  \<open>ok\<close> is whether \<open>execl\<close>, \<open>execvp\<close> or \<open>open\<close> succeeds; the first two return only when they fail. What
  the shell did before the fork is not in the log of its child.
\<close>

definition subshell :: "string \<Rightarrow> senv \<Rightarrow> smash \<Rightarrow> child_end res" where
  "subshell line e s = rbind (executeCommand line e s) (\<lambda>s1. Inr (Exited (if halted s1 = None then s1\<lparr>halted := Some 0\<rparr> else s1)))"

definition child_run :: "senv \<Rightarrow> bool \<Rightarrow> child \<Rightarrow> smash \<Rightarrow> child_end res" where
  "child_run e ok ch parent = (let s = parent\<lparr>log := []\<rparr> in case ch of
     Exec_bash line \<Rightarrow>
       if ok then Inr (Replaced ''/bin/bash'' [''bash'', ''-c'', line])
       else Inr (Exited ((perror e ''smash error: exec failed'' s)\<lparr>halted := Some 0\<rparr>))
   | Execvp prog args \<Rightarrow>
       if ok then Inr (Replaced prog args) else Inr (Exited ((perror e ''smash error: exec failed'' s)\<lparr>halted := Some 0\<rparr>))
   | Subshell_file is_append path command_to_exe \<Rightarrow>
       if ok then subshell command_to_exe e s else Inr (Exited ((perror e ''smash error: open failed'' s)\<lparr>halted := Some 0\<rparr>))
   | Subshell_pipe_out is_error_pipe first_command \<Rightarrow> subshell first_command e s
   | Subshell_pipe_in second_command \<Rightarrow> subshell second_command e s)"

lemma subshell_log: "executeCommand line e s = Inr c \<Longrightarrow> \<exists>x. subshell line e s = Inr (Exited x) \<and> log x = log c"
  by (simp add: subshell_def)

text \<open>Where the descriptors 1 and 2 of a child lead.\<close>

datatype dest = Terminal | To_file bool string | To_pipe

definition stdout_of :: "child \<Rightarrow> dest" where
  "stdout_of ch = (case ch of Subshell_file is_append path _ \<Rightarrow> To_file is_append path
     | Subshell_pipe_out is_error_pipe _ \<Rightarrow> if is_error_pipe then Terminal else To_pipe
     | _ \<Rightarrow> Terminal)"

definition stderr_of :: "child \<Rightarrow> dest" where
  "stderr_of ch = (case ch of Subshell_pipe_out is_error_pipe _ \<Rightarrow> if is_error_pipe then To_pipe else Terminal | _ \<Rightarrow> Terminal)"

definition sent_to :: "dest \<Rightarrow> child \<Rightarrow> event list \<Rightarrow> string" where
  "sent_to d ch evs = concat (map (\<lambda>ev. case ev of Out t \<Rightarrow> if stdout_of ch = d then t else []
     | Err t \<Rightarrow> if stderr_of ch = d then t else [] | _ \<Rightarrow> []) evs)"

section \<open>Splitting a redirection\<close>

lemma find_first_of_sep: "c \<notin> set l \<Longrightarrow> find_first_of [c] (l @ c # r) = Some (length l)"
  by (induction l) (auto simp: find_first_of_def)

lemma split_at_sep:
  "sep \<notin> set l \<Longrightarrow> r \<noteq> [] \<Longrightarrow> hd r \<noteq> twin \<Longrightarrow> split_at sep twin (l @ sep # r) = Some (l, False, trim r)"
  by (cases r) (auto simp: split_at_def find_first_of_sep nth_append)

lemma trim_id: "s \<noteq> [] \<Longrightarrow> \<not> isspace (hd s) \<Longrightarrow> \<not> isspace (last s) \<Longrightarrow> trim s = s"
proof -
  assume s: "s \<noteq> []" "\<not> isspace (hd s)" "\<not> isspace (last s)"
  then obtain c u where "s = c # u" by (cases s) auto
  then have "ltrim s = s" using s by (simp add: ltrim_eq)
  moreover obtain v d where "s = v @ [d]" using s(1) by (cases s rule: rev_cases) auto
  ultimately show ?thesis using s(3) by (simp add: trim_def rtrim_eq)
qed

lemma trim_word: "word_ok w \<Longrightarrow> trim ('' '' @ w) = w"
proof -
  assume w: "word_ok w"
  then obtain c u where c: "w = c # u" "\<not> isspace c" by (cases w) (auto simp: word_ok_def)
  have sp: "isspace CHR '' ''" by (simp add: isspace_def)
  have "ltrim ('' '' @ w) = ltrim w" unfolding ltrim_eq using sp by simp
  then have "trim ('' '' @ w) = trim w" by (simp add: trim_def)
  moreover have "\<not> isspace (last w)" using w c(1) by (auto simp: word_ok_def)
  ultimately show ?thesis using c trim_id [of w] by simp
qed

text \<open>The text of the output events, and of the error events.\<close>

definition printed :: "event list \<Rightarrow> string" where
  "printed evs = concat (map (\<lambda>ev. case ev of Out t \<Rightarrow> t | _ \<Rightarrow> []) evs)"

definition complained :: "event list \<Rightarrow> string" where
  "complained evs = concat (map (\<lambda>ev. case ev of Err t \<Rightarrow> t | _ \<Rightarrow> []) evs)"

lemma sent_to_file:
  "sent_to (To_file b f) (Subshell_file b f l) evs = printed evs" "sent_to Terminal (Subshell_file b f l) evs = complained evs"
  by (simp_all add: sent_to_def printed_def complained_def stdout_of_def stderr_of_def cong: event.case_cong)

lemma launch_foreground:
  assumes "\<not> is_background_command c" and "0 < fork_1 e" and "length (cmd_line c) \<le> COMMAND_ARGS_MAX_LENGTH"
    and "sigs e = []" and "0 \<le> wait_ret e"
  shows "launch e c ch t = Inr (t\<lparr>heap := (heap t)(new_at e (heap t) \<mapsto>
      \<lparr>jobId = -1, jobProcessId = fork_1 e, jobStatus = Foreground, job_cmd_line = cmd_line c, entryTime = clock e\<rparr>),
      current_foreground_job := None, log := log t @ [Forked (fork_1 e) ch]\<rparr>)"
  using assms by (simp add: launch_def Let_def put_def less_Suc_eq_le new_JobEntry_def wait_foreground_def) (simp add: say_def)

lemma redirection_line:
  assumes "l \<noteq> []" and "\<not> isspace (hd l)" and "CHR ''>'' \<notin> set l" and "CHR ''|'' \<notin> set l" and "word_ok f" and "CHR ''|'' \<notin> set f"
    and "CreateCommand (l @ '' > '' @ f) = Inr (k, c)"
  shows "k = RedirectionCommand" and "cmd_line c = l @ '' > '' @ f" and "length (cmd_line c) \<le> COMMAND_ARGS_MAX_LENGTH"
    and "split_at CHR ''>'' CHR ''>'' (trim (l @ '' > '' @ f)) = Some (l @ '' '', False, f)"
proof -
  have f: "f \<noteq> []" "\<not> isspace (last f)" using assms(5) by (auto simp: word_ok_def)
  then have tr: "trim (l @ '' > '' @ f) = l @ '' > '' @ f" using assms(1,2) by (intro trim_id) auto
  have "find_first_of ''|'' (l @ '' > '' @ f) = None" using assms(4,6) by (auto simp: find_first_of_def find_first_None)
  moreover have "find_first_of ''>'' (l @ '' > '' @ f) \<noteq> None" by (auto simp: find_first_of_def find_first_None)
  moreover obtain w where "class_of (trim (l @ '' > '' @ f)) w = k" using assms(7) by (auto simp: CreateCommand_def result_simps Let_def)
  ultimately show "k = RedirectionCommand" unfolding tr by (simp add: class_of_def)
  show "cmd_line c = l @ '' > '' @ f" "length (cmd_line c) \<le> COMMAND_ARGS_MAX_LENGTH"
    using assms(7) by (auto simp: CreateCommand_def Command_ctor_def result_simps Let_def)
  show "split_at CHR ''>'' CHR ''>'' (trim (l @ '' > '' @ f)) = Some (l @ '' '', False, f)"
    using split_at_sep [of "CHR ''>''" "l @ '' ''" "'' '' @ f" "CHR ''>''"] trim_word [OF assms(5)] assms(3) unfolding tr by simp
qed


section \<open>Pipes\<close>

abbreviation pipe_sign :: "bool \<Rightarrow> string" where "pipe_sign is_error_pipe \<equiv> (if is_error_pipe then '' |& '' else '' | '')"

lemma split_at_twin:
  "sep \<notin> set l \<Longrightarrow> split_at sep twin (l @ sep # twin # r) = Some (l, True, trim r)"
  by (auto simp: split_at_def find_first_of_sep nth_append)

lemma trim_blank: "trim ('' '' @ s) = trim s"
  by (simp add: trim_def ltrim_eq isspace_def)

lemma pipe_line:
  assumes "l \<noteq> []" and "\<not> isspace (hd l)" and "CHR ''|'' \<notin> set l" and "r \<noteq> []" and "\<not> isspace (hd r)" and "\<not> isspace (last r)"
    and "CreateCommand (l @ pipe_sign b @ r) = Inr (k, c)"
  shows "k = PipeCommand" and "cmd_line c = l @ pipe_sign b @ r" and "length (cmd_line c) \<le> COMMAND_ARGS_MAX_LENGTH"
    and "split_at CHR ''|'' CHR ''&'' (trim (l @ pipe_sign b @ r)) = Some (l @ '' '', b, r)"
proof -
  have tr: "trim (l @ pipe_sign b @ r) = l @ pipe_sign b @ r" using assms(1,2,4,6) by (intro trim_id) auto
  have r: "trim ('' '' @ r) = r" using trim_id [OF assms(4-6)] by (simp only: trim_blank)
  have "find_first_of ''|'' (l @ pipe_sign b @ r) \<noteq> None" by (auto simp: find_first_of_def find_first_None)
  moreover obtain w where "class_of (trim (l @ pipe_sign b @ r)) w = k" using assms(7) by (auto simp: CreateCommand_def result_simps Let_def)
  ultimately show "k = PipeCommand" unfolding tr by (simp add: class_of_def)
  show "cmd_line c = l @ pipe_sign b @ r" "length (cmd_line c) \<le> COMMAND_ARGS_MAX_LENGTH"
    using assms(7) by (auto simp: CreateCommand_def Command_ctor_def result_simps Let_def)
  show "split_at CHR ''|'' CHR ''&'' (trim (l @ pipe_sign b @ r)) = Some (l @ '' '', b, r)"
    using split_at_sep [of "CHR ''|''" "l @ '' ''" "'' '' @ r" "CHR ''&''"] split_at_twin [of "CHR ''|''" "l @ '' ''" "CHR ''&''" "'' '' @ r"] r assms(3)
    unfolding tr by simp
qed

lemma sent_to_pipe:
  "sent_to To_pipe (Subshell_pipe_out b l) evs = (if b then complained evs else printed evs)"
  "sent_to Terminal (Subshell_pipe_out b l) evs = (if b then printed evs else complained evs)"
  "sent_to To_pipe (Subshell_pipe_in l) evs = []"
  by (auto simp: sent_to_def printed_def complained_def stdout_of_def stderr_of_def cong: event.case_cong split: event.splits)

lemma Pipe_foreground:
  assumes "removeFinishedJobs e s = Inr t" and "maxJobID t = Some m" and "m < 2 ^ 31 - 1"
    and "split_at CHR ''|'' CHR ''&'' (trim (cmd_line c)) = Some (l, b, r)" and "0 \<le> pipe_ret e" and "0 < fork_1 e" and "0 < fork_2 e"
    and "length (cmd_line c) \<le> COMMAND_ARGS_MAX_LENGTH" and "sigs e = []" and "0 \<le> wait_ret e"
  shows "Pipe_execute e c s = Inr ((with_job e (m + 1) (fork_2 e) Foreground (cmd_line c)
    (t\<lparr>log := log t @ [Forked (fork_1 e) (Subshell_pipe_out b l), Forked (fork_2 e) (Subshell_pipe_in r)]\<rparr>))\<lparr>current_foreground_job := None\<rparr>)"
  using assms by (simp add: Pipe_execute_def Let_def put_def less_Suc_eq_le addJob_eq int_inc_def wait_foreground_def with_job_def say_def)


text \<open>
  \<open>quit\<close> in a child, as in a pipe or a redirection, kills the shell: the child sends SIGKILL to the process id
  that the shell has stored when it started.
\<close>

theorem quit_in_child_kills_shell:
  assumes "calm t"
  shows "\<exists>x. child_run e True (Subshell_file b f ''quit '') t = Inr (Exited x) \<and> Signal (smash_pid t) 9 \<in> set (log x)"
proof -
  have q: "CreateCommand ''quit '' = Inr (QuitCommand, demo_cmd ''quit '' [''quit''] False)" by code_simp
  obtain u where u: "removeFinishedJobs e (t\<lparr>log := []\<rparr>) = Inr u" "smash_pid u = smash_pid t"
    using removeFinishedJobs_eq [of "t\<lparr>log := []\<rparr>" e] assms by (auto simp: calm_def inv_def)
  show ?thesis using u by (auto simp: child_run_def subshell_def executeCommand_def q execute_def Quit_execute_def)
qed

lemma demo_redirect:
  "CreateCommand (''showpid'' @ '' > '' @ ''out'') = Inr (RedirectionCommand, demo_cmd ''showpid > out'' [''showpid'', ''>'', ''out''] False)"
  "CreateCommand (''showpid'' @ '' '') = Inr (ShowPidCommand, demo_cmd ''showpid '' [''showpid''] False)"
  "show_int 7 = ''7''"
  by code_simp+

lemma demo_showpid:
  "executeCommand (''showpid'' @ '' '') (demo_env []) (demo_shell\<lparr>log := []\<rparr>) = Inr (demo_shell\<lparr>log := [Out (''smash pid is 7'' @ [LF])]\<rparr>)"
  unfolding executeCommand_def demo_redirect(2)
  by (simp add: execute_def ShowPid_execute_def say_def demo_shell_def SmallShell_ctor_def demo_redirect(3))


lemma demo_pipe:
  "CreateCommand (''showpid'' @ pipe_sign False @ ''showpid'') = Inr (PipeCommand, demo_cmd ''showpid | showpid'' [''showpid'', ''|'', ''showpid''] False)"
  "CreateCommand ''showpid'' = Inr (ShowPidCommand, demo_cmd ''showpid'' [''showpid''] False)"
  by code_simp+


end
