(* ===== verification/Spec2Isabelle.thy ===== *)
theory Spec2Isabelle
  imports Weights ConnQueue SysWrap Rio Request ServerInv Client BreakHeap BuddyOps SmashJobs SmashSafe SmashChild
begin

text \<open>
  A verification of the programs of this repository: the small shell of hw1, the system calls for
  process weights of hw2, the multi-threaded web server of hw3 with its client and CGI program,
  and the memory allocators of hw4. All paths below are relative to src/.

  \<^bold>\<open>Conventions.\<close> The model is shallow. A C or C++ struct is a record, an enum a datatype, and
  dynamic memory a map from addresses to records, so that what the code shares is shared in the
  model. A computation that may fail has the type \<open>'a res\<close>: \<open>Inr\<close> a value, or \<open>Inl\<close> an error, which is
  an exit of the process with its status and message, or an undefined behaviour (NULL
  dereference, read of an unset variable, buffer overrun, signed overflow). A loop that may run
  forever is a \<open>partial_function\<close> into \<open>'a comp\<close>, where \<open>None\<close> means that it does not return. The only
  bound on a recursion is the stack of the kernel in \<open>find_heaviest_descendant\<close>, an argument of which the
  theorem asks no more than the depth of the tree of processes. Where the code relies on the operating system, what the system answers is an
  argument: a script of the results of \<open>read\<close> and \<open>write\<close>, the result of \<open>sbrk\<close> or \<open>mmap\<close>, the
  children that \<open>waitpid\<close> reports. Integers are \<open>int\<close> or \<open>nat\<close> with their bounds written out where
  they matter: overflow of \<open>int\<close> is an error, \<open>size_t\<close> is taken modulo \<open>2 ^ 64\<close>.

  \<^bold>\<open>Prelude.\<close> The result types with their bind operations and the collection \<open>result_simps\<close> that
  runs them, linked lists in memory, C strings and buffers, \<open>atoi\<close>, printing of numbers.

  \<^bold>\<open>Weights\<close> (hw2/wet/kernel/hw2.c). The five system calls on a table of tasks. The sum over the
  ancestors and the search for the heaviest descendant are proved equal to declarative
  definitions, the first with its termination; weights are never negative. Two limits of the
  code are theorems: a NULL dereference when the first child's subtree has no weight, and
  an endless loop for tasks whose ancestors do not end at pid 1.

  \<^bold>\<open>ConnQueue\<close> (hw3/wet/queue.c, queue.h). The linked queue refines a list, as an interpretation of a
  locale of queue operations; the server's proofs rest on its facts. \<open>dequeue_i\<close> leaks its node at
  index 1.

  \<^bold>\<open>SysWrap\<close> and \<^bold>\<open>Rio\<close> (hw3/wet/segel.c, segel.h). Every wrapper ends the process on an error and passes
  the result on otherwise; the robust I/O functions deliver the same lines and bytes however
  the system cuts the stream into chunks.

  \<^bold>\<open>Request\<close> (hw3/wet/request.c). Request line, headers, URI, static and dynamic content, error pages
  and the counters of a thread. A finished request got exactly one response; file names stay
  below the public directory; a well-formed request for a readable file returns with the file.
  The limits: a buffer overrun by a long URI, an endless loop when the client closes early, and
  an empty file that ends the server.

  \<^bold>\<open>Server\<close>, \<^bold>\<open>ServerSteps\<close>, \<^bold>\<open>ServerInv\<close> (hw3/wet/server.c). Main thread and workers as a step relation, one
  step between two synchronisation points, with two mutexes and two condition variables and any
  interleaving. Proved of every reachable state: no deadlock, no lost wake-up, no data race, the
  limit of connections under every policy but random, every descriptor in exactly one place.

  \<^bold>\<open>Client\<close> (hw3/wet/client.c, output.c). The request the client sends is parsed and served by the
  server's model, and the client prints the response; the CGI program's page.

  \<^bold>\<open>Allocator\<close>, \<^bold>\<open>BreakHeap\<close> (hw4/wet/test2/malloc_1.cpp, malloc_2.cpp). Allocator has the specification of
  an allocator, on the map of the regions in use, and the contracts of an implementation as
  locales: \<open>allocation\<close> for requests, \<open>guarded_allocator\<close> with releases under a condition, and \<open>allocator\<close>
  with releases of any live block, which is the case without a condition (a sublocale). In each of
  them every script of calls refines the specification and blocks keep their contents. malloc_1 is
  an \<open>allocation\<close>, malloc_2 an \<open>allocator\<close>, malloc_3 a \<open>guarded_allocator\<close>. BreakHeap also shows first fit,
  that contents survive \<open>srealloc\<close>, and that the statistics count what they name.

  \<^bold>\<open>Buddy\<close>, \<^bold>\<open>BuddyInv\<close>, \<^bold>\<open>BuddyFree\<close>, \<^bold>\<open>BuddyLimits\<close>, \<^bold>\<open>BuddyOps\<close> (hw4/wet/test2/malloc_3.cpp). The representation
  \<open>buddy_rep\<close> says that aligned blocks tile the arena and that the free lists are exact; allocation
  keeps it, and so does a release that merges only with buddies of the order of the block
  (\<open>releasable\<close>), as releases in nested order always do. The theorems of BuddyLimits show where the code leaves
  this frame: a free buddy of another order is merged, \<open>srealloc\<close> spoils a free list or does not return. BuddyOps has
  the statistics, zeroed allocation, and reallocation that moves a block.

  \<^bold>\<open>SmashParse\<close>, \<^bold>\<open>Smash\<close>, \<^bold>\<open>SmashInv\<close>, \<^bold>\<open>SmashRun\<close>, \<^bold>\<open>SmashJobs\<close>, \<^bold>\<open>SmashSafe\<close>,
  \<^bold>\<open>SmashChild\<close> (hw1/wet/skeleton_smash). Command lines,
  the jobs list, all commands, the signal handlers and the main loop. What the shell does to the
  outside is a log of events, and a child process is the event that starts it. The jobs list is
  well-formed in every reachable state; background, stopped and resumed jobs are where they should
  be; the main loop executes its input and never ends by itself; a line that could be split is
  executed without undefined behaviour, with three exceptions. The locale \<open>job_table\<close> of SmashJobs is the
  interface between the commands and the jobs list: any sequence of calls on the list refines
  calls on a plain list of entries (printing apart, which sorts the list by address). SmashChild follows a child, which
  works on a copy of the shell, and composes it with the redirection or the pipe that starts it. Signals
  arrive at the prompt or while the shell waits for a foreground job. The shell's \<open>erase\<close> followed by
  a read through the dead iterator is modelled as an arbitrary answer, and no theorem depends on it.

  \<^bold>\<open>Not modelled.\<close> The Linux headers of hw2, of which only the field \<open>weight\<close> and its initial value
  belong to the program; the programs a child of the shell becomes; the layout of \<open>cout\<close> for doubles above six digits, which is an
  argument; \<open>alarmHandler\<close>, which is empty; failures of \<open>pthread_create\<close> and of the two \<open>malloc\<close> calls of a worker;
  signals between two statements of a command of the shell; the program of hw4/dry, and all test programs and build files.
\<close>

end
